(* ===== verification/Prelude.thy ===== *)
theory Prelude
  imports Main "HOL-Library.Word"
begin

text \<open>
  Shared vocabulary of the development: the machine integers, the outcome of a Go call
  (a value, an error or a panic), and the list facts that several components use.

  An \<open>outcome\<close> is what a Go call with an \<open>error\<close> result can do: return a value
  (\<open>Ok\<close>), return a non-nil error (\<open>Err\<close>), or panic (\<open>Panic\<close>, with the text
  given to \<open>panic\<close>).
\<close>

section \<open>Types shared by the components\<close>

type_synonym u64 = "64 word"

datatype ('e, 'a) outcome = Ok 'a | Err 'e | Panic string

fun is_ok :: "('e, 'a) outcome \<Rightarrow> bool" where
  "is_ok (Ok _) = True"
| "is_ok _ = False"


section \<open>Lists\<close>

definition insert_at :: "nat \<Rightarrow> 'a \<Rightarrow> 'a list \<Rightarrow> 'a list" where
  "insert_at i x xs = take i xs @ x # drop i xs"

definition delete_at :: "nat \<Rightarrow> 'a list \<Rightarrow> 'a list" where
  "delete_at i xs = take i xs @ drop (Suc i) xs"

lemma length_insert_at [simp]: "i \<le> length xs \<Longrightarrow> length (insert_at i x xs) = Suc (length xs)"
  by (simp add: insert_at_def)

lemma length_delete_at [simp]: "i < length xs \<Longrightarrow> length (delete_at i xs) = length xs - 1"
  by (simp add: delete_at_def)

lemma set_insert_at [simp]: "set (insert_at i x xs) = insert x (set xs)"
proof -
  have "set xs = set (take i xs) \<union> set (drop i xs)"
    by (metis append_take_drop_id set_append)
  then show ?thesis by (auto simp: insert_at_def)
qed

lemma set_delete_at_subset: "set (delete_at i xs) \<subseteq> set xs"
  by (auto simp: delete_at_def dest: in_set_takeD in_set_dropD)

lemma delete_at_Cons_0 [simp]: "delete_at 0 (x # xs) = xs"
  by (simp add: delete_at_def)

lemma delete_at_Cons_Suc [simp]: "delete_at (Suc i) (x # xs) = x # delete_at i xs"
  by (simp add: delete_at_def)

lemma split_at_nth: "i < length xs \<Longrightarrow> xs = take i xs @ xs ! i # drop (Suc i) xs"
  by (rule id_take_nth_drop)

lemma sorted_wrt_delete_at: "sorted_wrt P xs \<Longrightarrow> sorted_wrt P (delete_at i xs)"
proof (cases "i < length xs")
  case True
  assume "sorted_wrt P xs"
  then have "sorted_wrt P (take i xs @ xs ! i # drop (Suc i) xs)"
    using True by (simp flip: id_take_nth_drop)
  then show ?thesis by (auto simp: delete_at_def sorted_wrt_append)
next
  case False
  assume "sorted_wrt P xs"
  with False show ?thesis by (simp add: delete_at_def)
qed

lemma sorted_wrt_insert_at:
  assumes "sorted_wrt P xs" "i \<le> length xs"
    and "\<And>a. a \<in> set (take i xs) \<Longrightarrow> P a x" and "\<And>b. b \<in> set (drop i xs) \<Longrightarrow> P x b"
    and "transp P"
  shows "sorted_wrt P (insert_at i x xs)"
proof -
  have "sorted_wrt P (take i xs @ drop i xs)" using assms(1) by simp
  then show ?thesis
    using assms(3-5) by (auto simp: insert_at_def sorted_wrt_append dest: transpD)
qed

lemma distinct_set_delete_at:
  assumes "distinct xs" "i < length xs"
  shows "set (delete_at i xs) = set xs - {xs ! i}"
proof -
  have eq: "xs = take i xs @ xs ! i # drop (Suc i) xs"
    using assms(2) by (rule split_at_nth)
  have d: "distinct (take i xs @ xs ! i # drop (Suc i) xs)"
    using assms(1) eq by simp
  have s: "set xs = set (take i xs) \<union> {xs ! i} \<union> set (drop (Suc i) xs)"
    using arg_cong [OF eq, of set] by simp
  from d s show ?thesis by (auto simp: delete_at_def)
qed

lemma delete_at_remove1:
  "distinct xs \<Longrightarrow> i < length xs \<Longrightarrow> delete_at i xs = remove1 (xs ! i) xs"
proof (induction xs arbitrary: i)
  case Nil
  then show ?case by simp
next
  case (Cons x xs)
  then show ?case by (cases i) auto
qed

section \<open>Unsigned 64-bit counters\<close>

lemma unat_Suc_u64: "unat (a :: u64) + 1 < 2 ^ 64 \<Longrightarrow> unat (a + 1) = unat a + 1"
  by (simp add: unat_word_ariths)

lemma unat_add_u64:
  "unat (a :: u64) + n < 2 ^ 64 \<Longrightarrow> unat (a + of_nat n) = unat a + n"
  by (simp add: unat_word_ariths unat_of_nat take_bit_eq_mod mod_add_right_eq)

end
