(* ===== verification/Go_Slices.thy ===== *)
theory Go_Slices
  imports Prelude
begin

text \<open>
  The Go slice as the code uses it: a view of the first \<open>slen\<close> slots of a backing
  array that other slices may share. Arrays live in an explicit store (a list of arrays,
  addressed by position), so that writes through one slice are seen through another.

  \<open>slices.BinarySearchFunc\<close>, \<open>slices.Insert\<close> of one value and \<open>slices.Delete\<close>
  of one index follow the standard library of Go 1.24 (the version in \<open>go.mod\<close>):
  \<open>Delete\<close> shifts in place and clears the vacated slot, \<open>Insert\<close> writes in place
  whenever the capacity allows it. The size class chosen when an array must grow is an
  argument (\<open>grow\<close>); the language only promises that the new array is large enough.
  All slices of the modelled code start at index 0 of their array.
\<close>

section \<open>Slices over a store of arrays\<close>

type_synonym 'm mem = "'m list list"

record slice =
  sptr :: "nat option"
  slen :: nat

definition nil_slice :: slice where
  "nil_slice = \<lparr>sptr = None, slen = 0\<rparr>"

definition array_of :: "'m mem \<Rightarrow> slice \<Rightarrow> 'm list" where
  "array_of mem s = (case sptr s of None \<Rightarrow> [] | Some a \<Rightarrow> mem ! a)"

definition slice_cap :: "'m mem \<Rightarrow> slice \<Rightarrow> nat" where
  "slice_cap mem s = length (array_of mem s)"

definition read_slice :: "'m mem \<Rightarrow> slice \<Rightarrow> 'm list" where
  "read_slice mem s = take (slen s) (array_of mem s)"

definition valid_slice :: "'m mem \<Rightarrow> slice \<Rightarrow> bool" where
  "valid_slice mem s \<longleftrightarrow>
     (case sptr s of None \<Rightarrow> slen s = 0 | Some a \<Rightarrow> a < length mem \<and> slen s \<le> length (mem ! a))"

definition set_array :: "'m mem \<Rightarrow> slice \<Rightarrow> 'm list \<Rightarrow> 'm mem" where
  "set_array mem s xs = (case sptr s of None \<Rightarrow> mem | Some a \<Rightarrow> mem[a := xs])"

definition alloc_array :: "'m mem \<Rightarrow> 'm list \<Rightarrow> nat \<Rightarrow> slice \<times> 'm mem" where
  "alloc_array mem xs n = (\<lparr>sptr = Some (length mem), slen = n\<rparr>, mem @ [xs])"

text \<open>\<open>append(s, x)\<close>, and \<open>slices.Insert(s, i, x)\<close> for \<open>i \<le> len(s)\<close>.\<close>

definition grown :: "(nat \<Rightarrow> nat \<Rightarrow> nat) \<Rightarrow> 'm \<Rightarrow> nat \<Rightarrow> 'm list \<Rightarrow> 'm list" where
  "grown grow zero c xs =
     xs @ replicate (max (length xs) (grow c (length xs)) - length xs) zero"

definition slices_Insert ::
  "(nat \<Rightarrow> nat \<Rightarrow> nat) \<Rightarrow> 'm \<Rightarrow> 'm mem \<Rightarrow> slice \<Rightarrow> nat \<Rightarrow> 'm \<Rightarrow> slice \<times> 'm mem" where
  "slices_Insert grow zero mem s i x =
     (let n = slen s; arr = array_of mem s; xs = read_slice mem s
      in if slice_cap mem s < n + 1
         then alloc_array mem (grown grow zero (slice_cap mem s) (insert_at i x xs)) (n + 1)
         else (s\<lparr>slen := n + 1\<rparr>, set_array mem s (insert_at i x xs @ drop (n + 1) arr)))"

text \<open>\<open>slices.Delete(s, i, i+1)\<close> for \<open>i < len(s)\<close>.\<close>

definition slices_Delete :: "'m \<Rightarrow> 'm mem \<Rightarrow> slice \<Rightarrow> nat \<Rightarrow> slice \<times> 'm mem" where
  "slices_Delete zero mem s i =
     (let n = slen s; arr = array_of mem s
      in (s\<lparr>slen := n - 1\<rparr>, set_array mem s (delete_at i (take n arr) @ zero # drop n arr)))"

lemma read_nil_slice [simp]: "read_slice mem nil_slice = []"
  by (simp add: read_slice_def nil_slice_def array_of_def)

lemma valid_nil_slice [simp]: "valid_slice mem nil_slice"
  by (simp add: valid_slice_def nil_slice_def)

lemma length_read_slice: "valid_slice mem s \<Longrightarrow> length (read_slice mem s) = slen s"
  by (auto simp: valid_slice_def read_slice_def array_of_def split: option.splits)

lemma slices_Insert_correct:
  assumes v: "valid_slice mem s" and i: "i \<le> slen s"
    and eq: "slices_Insert grow zero mem s i x = (s', mem')"
  shows "valid_slice mem' s'" and "read_slice mem' s' = insert_at i x (read_slice mem s)"
proof -
  let ?xs = "read_slice mem s"
  have len: "length ?xs = slen s" using v by (rule length_read_slice)
  have ins: "length (insert_at i x ?xs) = slen s + 1" using i len by simp
  have "valid_slice mem' s' \<and> read_slice mem' s' = insert_at i x ?xs"
  proof (cases "slice_cap mem s < slen s + 1")
    case True
    then have "s' = \<lparr>sptr = Some (length mem), slen = slen s + 1\<rparr>"
      and "mem' = mem @ [grown grow zero (slice_cap mem s) (insert_at i x ?xs)]"
      using eq by (auto simp: slices_Insert_def Let_def alloc_array_def)
    then show ?thesis
      using ins by (simp add: valid_slice_def read_slice_def array_of_def grown_def)
  next
    case False
    then obtain a where a: "sptr s = Some a" and al: "a < length mem"
      using v by (auto simp: slice_cap_def array_of_def valid_slice_def split: option.splits)
    from False eq a have "s' = s\<lparr>slen := slen s + 1\<rparr>"
      and "mem' = mem[a := insert_at i x ?xs @ drop (slen s + 1) (mem ! a)]"
      by (auto simp: slices_Insert_def Let_def set_array_def array_of_def)
    then show ?thesis
      using a al ins by (simp add: valid_slice_def read_slice_def array_of_def)
  qed
  then show "valid_slice mem' s'" and "read_slice mem' s' = insert_at i x ?xs" by auto
qed

lemma slices_Delete_correct:
  assumes v: "valid_slice mem s" and i: "i < slen s"
    and eq: "slices_Delete zero mem s i = (s', mem')"
  shows "valid_slice mem' s'" and "read_slice mem' s' = delete_at i (read_slice mem s)"
proof -
  let ?xs = "read_slice mem s"
  have len: "length ?xs = slen s" using v by (rule length_read_slice)
  obtain a where a: "sptr s = Some a" and al: "a < length mem"
    using v i by (auto simp: valid_slice_def split: option.splits)
  from eq a have s': "s' = s\<lparr>slen := slen s - 1\<rparr>"
    and mem': "mem' = mem[a := delete_at i ?xs @ zero # drop (slen s) (mem ! a)]"
    by (auto simp: slices_Delete_def Let_def set_array_def array_of_def read_slice_def)
  have del: "length (delete_at i ?xs) = slen s - 1" using i len by simp
  show "valid_slice mem' s'" and "read_slice mem' s' = delete_at i ?xs"
    using s' mem' a al del i by (simp_all add: valid_slice_def read_slice_def array_of_def)
qed

text \<open>
  What a holder of the slice given to \<open>Delete\<close> reads afterwards: the shifted elements
  and, in the last slot, the zero value.
\<close>

lemma slices_Delete_alias:
  assumes v: "valid_slice mem s" and i: "i < slen s"
    and eq: "slices_Delete zero mem s i = (s', mem')"
  shows "read_slice mem' s = delete_at i (read_slice mem s) @ [zero]"
proof -
  obtain a where a: "sptr s = Some a" "a < length mem"
    using v i by (auto simp: valid_slice_def split: option.splits)
  from eq a have mem': "mem' = mem[a := delete_at i (read_slice mem s) @ zero # drop (slen s) (mem ! a)]"
    by (auto simp: slices_Delete_def Let_def set_array_def array_of_def read_slice_def)
  have "length (delete_at i (read_slice mem s)) = slen s - 1"
    using i length_read_slice [OF v] by simp
  with i a mem' show ?thesis
    by (simp add: read_slice_def array_of_def Suc_diff_le take_Cons')
qed

section \<open>Binary search\<close>

text \<open>
  \<open>slices.BinarySearchFunc\<close>: the half-open interval \<open>[i, j)\<close> shrinks until it is
  empty; the midpoint is \<open>(i + j) div 2\<close>.
\<close>

function bsearch_loop :: "('m \<Rightarrow> 't \<Rightarrow> int) \<Rightarrow> 'm list \<Rightarrow> 't \<Rightarrow> nat \<Rightarrow> nat \<Rightarrow> nat" where
  "bsearch_loop cmp xs t i j =
     (if i < j
      then (let h = (i + j) div 2
            in if cmp (xs ! h) t < 0 then bsearch_loop cmp xs t (h + 1) j
               else bsearch_loop cmp xs t i h)
      else i)"
  by pat_completeness auto
termination
  by (relation "measure (\<lambda>(cmp, xs, t, i, j). j - i)") auto

declare bsearch_loop.simps [simp del]

lemma bsearch_loop_step:
  "i < j \<Longrightarrow> bsearch_loop cmp xs t i j =
     (let h = (i + j) div 2
      in if cmp (xs ! h) t < 0 then bsearch_loop cmp xs t (h + 1) j else bsearch_loop cmp xs t i h)"
  by (subst bsearch_loop.simps) simp

lemma bsearch_loop_stop: "\<not> i < j \<Longrightarrow> bsearch_loop cmp xs t i j = i"
  by (subst bsearch_loop.simps) simp

definition BinarySearchFunc :: "('m \<Rightarrow> 't \<Rightarrow> int) \<Rightarrow> 'm list \<Rightarrow> 't \<Rightarrow> nat \<times> bool" where
  "BinarySearchFunc cmp xs t =
     (let i = bsearch_loop cmp xs t 0 (length xs)
      in (i, i < length xs \<and> cmp (xs ! i) t = 0))"

text \<open>
  On a list whose prefix compares below the target and whose rest does not, the search
  ends at the boundary.
\<close>

lemma bsearch_loop_boundary:
  assumes mono: "\<forall>k l. k < l \<longrightarrow> l < length xs \<longrightarrow> cmp (xs ! l) t < 0 \<longrightarrow> cmp (xs ! k) t < 0"
  shows "i \<le> j \<Longrightarrow> j \<le> length xs \<Longrightarrow> \<forall>k < i. cmp (xs ! k) t < 0 \<Longrightarrow>
    \<forall>k. j \<le> k \<longrightarrow> k < length xs \<longrightarrow> \<not> cmp (xs ! k) t < 0 \<Longrightarrow>
    bsearch_loop cmp xs t i j \<le> length xs
    \<and> (\<forall>k < bsearch_loop cmp xs t i j. cmp (xs ! k) t < 0)
    \<and> (\<forall>k. bsearch_loop cmp xs t i j \<le> k \<longrightarrow> k < length xs \<longrightarrow> \<not> cmp (xs ! k) t < 0)"
proof (induction "j - i" arbitrary: i j rule: less_induct)
  case less
  show ?case
  proof (cases "i < j")
    case False
    then have "bsearch_loop cmp xs t i j = i" by (simp add: bsearch_loop.simps [of cmp xs t i j])
    then show ?thesis using False less.prems by auto
  next
    case True
    define h where "h = (i + j) div 2"
    have h: "i \<le> h" "h < j" "h < length xs" using True less.prems(2) by (auto simp: h_def)
    show ?thesis
    proof (cases "cmp (xs ! h) t < 0")
      case below: True
      have "\<forall>k < h + 1. cmp (xs ! k) t < 0"
        using below mono h by (auto simp: less_Suc_eq)
      with less.hyps [of j "h + 1"] less.prems h below True show ?thesis
        by (simp add: bsearch_loop.simps [of cmp xs t i j] flip: h_def)
    next
      case above: False
      have "\<forall>k. h \<le> k \<longrightarrow> k < length xs \<longrightarrow> \<not> cmp (xs ! k) t < 0"
        using above mono by (metis le_neq_implies_less)
      with less.hyps [of h i] less.prems h above True show ?thesis
        by (simp add: bsearch_loop.simps [of cmp xs t i j] flip: h_def)
    qed
  qed
qed

lemma BinarySearchFunc_boundary:
  assumes "\<forall>k l. k < l \<longrightarrow> l < length xs \<longrightarrow> cmp (xs ! l) t < 0 \<longrightarrow> cmp (xs ! k) t < 0"
    and "BinarySearchFunc cmp xs t = (i, ok)"
  shows "i \<le> length xs" and "\<forall>k < i. cmp (xs ! k) t < 0"
    and "\<forall>k. i \<le> k \<longrightarrow> k < length xs \<longrightarrow> \<not> cmp (xs ! k) t < 0"
    and "ok \<longleftrightarrow> i < length xs \<and> cmp (xs ! i) t = 0"
proof -
  have i: "i = bsearch_loop cmp xs t 0 (length xs)"
    and ok: "ok \<longleftrightarrow> i < length xs \<and> cmp (xs ! i) t = 0"
    using assms(2) by (auto simp: BinarySearchFunc_def Let_def)
  from bsearch_loop_boundary [of xs cmp t 0 "length xs"] assms(1) i
  show "i \<le> length xs" and "\<forall>k < i. cmp (xs ! k) t < 0"
    and "\<forall>k. i \<le> k \<longrightarrow> k < length xs \<longrightarrow> \<not> cmp (xs ! k) t < 0"
    by auto
  show "ok \<longleftrightarrow> i < length xs \<and> cmp (xs ! i) t = 0" by (rule ok)
qed

text \<open>Equations that evaluate the operations on concrete slices.\<close>

lemmas slices_eval = BinarySearchFunc_def bsearch_loop_step bsearch_loop_stop slices_Insert_def
  slices_Delete_def read_slice_def array_of_def slice_cap_def set_array_def alloc_array_def
  grown_def insert_at_def delete_at_def nil_slice_def

end
