(* ===== verification/Ordered_Set.thy ===== *)
theory Ordered_Set
  imports Go_Slices
begin

text \<open>
  \<open>internal/optimistic\<close>: the optimistically updated value (\<open>value.go\<close>) and the
  ordered set built on it (\<open>orderedset.go\<close>).

  A \<open>Value[T]\<close> is an atomic pointer to a cell that holds a \<open>T\<close>. Cells are allocated
  one after the other and never reused while a goroutine can still hold their address, so
  they are addressed by position. The record also holds the store that the values point
  into (\<open>heap\<close>; for the ordered set, the arrays behind its slices).
\<close>

section \<open>Value: load and compare-and-swap\<close>

record ('t, 'h) value_state =
  heap :: 'h
  cells :: "'t list"
  root :: "nat option"

definition value_Load :: "'t \<Rightarrow> ('t, 'h) value_state \<Rightarrow> 't" where
  "value_Load zero st = (case root st of Some p \<Rightarrow> cells st ! p | None \<Rightarrow> zero)"

definition CompareAndSwap ::
  "nat option \<Rightarrow> 't \<Rightarrow> ('t, 'h) value_state \<Rightarrow> bool \<times> ('t, 'h) value_state" where
  "CompareAndSwap p x st =
     (if root st = p
      then (True, st\<lparr>cells := cells st @ [x], root := Some (length (cells st))\<rparr>)
      else (False, st))"

text \<open>
  One turn of the loop of \<open>Apply\<close>. Other goroutines may run between the load of the
  pointer and the call of \<open>fn\<close> (\<open>e1\<close>) and between that call and the swap (\<open>e2\<close>).
  \<open>before\<close> is the loop's variable: it keeps its value when the pointer is nil.
\<close>

datatype 't attempt = Unmodified 't | Swapped 't | Retry 't

definition apply_attempt ::
  "('t \<Rightarrow> 'h \<Rightarrow> ('t \<times> bool) \<times> 'h) \<Rightarrow>
   (('t, 'h) value_state \<Rightarrow> ('t, 'h) value_state) \<times> (('t, 'h) value_state \<Rightarrow> ('t, 'h) value_state) \<Rightarrow>
   't \<Rightarrow> ('t, 'h) value_state \<Rightarrow> 't attempt \<times> ('t, 'h) value_state" where
  "apply_attempt fn e before st =
     (let p = root st;
          before = (case p of Some a \<Rightarrow> cells st ! a | None \<Rightarrow> before);
          st = fst e st;
          ((after, modify), h) = fn before (heap st);
          st = st\<lparr>heap := h\<rparr>
      in if \<not> modify then (Unmodified before, st)
         else (let (swapped, st) = CompareAndSwap p after (snd e st)
               in (if swapped then Swapped after else Retry before, st)))"

text \<open>
  \<open>Apply\<close>, against a schedule that gives for each turn of the loop what the other
  goroutines do during it; a turn beyond the schedule is undisturbed. \<open>None\<close>: the loop
  has not returned (it cannot happen, see \<open>value_Apply_returns\<close>).
\<close>

fun value_Apply ::
  "('t \<Rightarrow> 'h \<Rightarrow> ('t \<times> bool) \<times> 'h) \<Rightarrow>
   ((('t, 'h) value_state \<Rightarrow> ('t, 'h) value_state) \<times> (('t, 'h) value_state \<Rightarrow> ('t, 'h) value_state)) list \<Rightarrow>
   't \<Rightarrow> ('t, 'h) value_state \<Rightarrow> (('t \<times> bool) \<times> ('t, 'h) value_state) option" where
  "value_Apply fn [] before st =
     (case apply_attempt fn (id, id) before st of
        (Unmodified b, st') \<Rightarrow> Some ((b, False), st')
      | (Swapped a, st') \<Rightarrow> Some ((a, True), st')
      | (Retry b, st') \<Rightarrow> None)"
| "value_Apply fn (e # es) before st =
     (case apply_attempt fn e before st of
        (Unmodified b, st') \<Rightarrow> Some ((b, False), st')
      | (Swapped a, st') \<Rightarrow> Some ((a, True), st')
      | (Retry b, st') \<Rightarrow> value_Apply fn es b st')"

lemma apply_attempt_undisturbed:
  "apply_attempt fn (id, id) before st =
     (let b = (case root st of Some a \<Rightarrow> cells st ! a | None \<Rightarrow> before);
          ((after, modify), h) = fn b (heap st)
      in if modify
         then (Swapped after,
               st\<lparr>heap := h, cells := cells st @ [after], root := Some (length (cells st))\<rparr>)
         else (Unmodified b, st\<lparr>heap := h\<rparr>))"
  by (auto simp: apply_attempt_def CompareAndSwap_def Let_def split: prod.splits)

lemma value_Apply_undisturbed:
  "value_Apply fn [] zero st =
     (let b = value_Load zero st; ((after, modify), h) = fn b (heap st)
      in Some (if modify
         then ((after, True),
               st\<lparr>heap := h, cells := cells st @ [after], root := Some (length (cells st))\<rparr>)
         else ((b, False), st\<lparr>heap := h\<rparr>)))"
  by (auto simp: apply_attempt_undisturbed value_Load_def Let_def split: prod.splits)

lemma value_Apply_not_None: "value_Apply fn es before st \<noteq> None"
proof (induction es arbitrary: before st)
  case Nil
  then show ?case
    by (auto simp: apply_attempt_undisturbed Let_def split: prod.splits)
next
  case (Cons e es)
  then show ?case by (auto split: prod.splits attempt.splits)
qed

text \<open>
  What the other users of a \<open>Value\<close> may do to it: allocate cells, and move the pointer
  to a newly allocated cell. Cells that exist are never written.
\<close>

definition value_interference :: "('t, 'h) value_state \<Rightarrow> ('t, 'h) value_state \<Rightarrow> bool" where
  "value_interference st st' \<longleftrightarrow>
     take (length (cells st)) (cells st') = cells st \<and> length (cells st) \<le> length (cells st') \<and>
     (root st' = root st \<or>
      (\<exists>p. root st' = Some p \<and> length (cells st) \<le> p \<and> p < length (cells st')))"

definition value_inv :: "('t, 'h) value_state \<Rightarrow> bool" where
  "value_inv st \<longleftrightarrow> (\<forall>p. root st = Some p \<longrightarrow> p < length (cells st))"

lemma value_interference_refl [simp]: "value_interference st st"
  by (simp add: value_interference_def)

lemma value_interference_inv:
  "value_inv st \<Longrightarrow> value_interference st st' \<Longrightarrow> value_inv st'"
  by (auto simp: value_inv_def value_interference_def)

lemma value_interference_heap [simp]:
  "value_interference st (st'\<lparr>heap := h\<rparr>) = value_interference st st'"
  "value_interference (st\<lparr>heap := h\<rparr>) st' = value_interference st st'"
  "value_inv (st\<lparr>heap := h\<rparr>) = value_inv st"
  by (simp_all add: value_interference_def value_inv_def)

lemma value_interference_nth:
  assumes "value_interference st st'" "p < length (cells st)"
  shows "cells st' ! p = cells st ! p" and "p < length (cells st')"
proof -
  have "take (length (cells st)) (cells st') ! p = cells st ! p"
    using assms(1) by (simp add: value_interference_def)
  then show "cells st' ! p = cells st ! p" using assms(2) by simp
  show "p < length (cells st')" using assms by (auto simp: value_interference_def)
qed

lemma value_interference_unmoved:
  assumes "value_inv st" "value_interference st st1" "value_interference st1 st2"
    and "root st2 = root st"
  shows "root st1 = root st" and "value_Load z st1 = value_Load z st"
    and "value_Load z st2 = value_Load z st"
proof -
  show r1: "root st1 = root st"
  proof (rule ccontr)
    assume ne: "root st1 \<noteq> root st"
    then obtain p where p: "root st1 = Some p" "length (cells st) \<le> p"
      using assms(2) by (auto simp: value_interference_def)
    have "length (cells st) \<le> length (cells st1)"
      using assms(2) by (simp add: value_interference_def)
    with p ne assms(3,4) have "\<exists>q. root st = Some q \<and> length (cells st) \<le> q"
      by (auto simp: value_interference_def)
    with assms(1) show False by (auto simp: value_inv_def)
  qed
  have same: "cells st1 ! p = cells st ! p \<and> cells st2 ! p = cells st ! p"
    if "root st = Some p" for p
  proof -
    have p: "p < length (cells st)" using that assms(1) by (simp add: value_inv_def)
    have 1: "cells st1 ! p = cells st ! p" "p < length (cells st1)"
      using value_interference_nth [OF assms(2) p] by simp_all
    have "cells st2 ! p = cells st1 ! p"
      using value_interference_nth [OF assms(3) 1(2)] by simp
    with 1 show ?thesis by simp
  qed
  show "value_Load z st1 = value_Load z st" and "value_Load z st2 = value_Load z st"
    using r1 assms(4) same by (auto simp: value_Load_def split: option.splits)
qed

text \<open>
  A function that only computes (\<open>pure_fn g\<close>: it leaves the store alone), applied while
  others interfere: the loop variable stays the zero value as long as the pointer is nil.
\<close>

definition pure_fn :: "('t \<Rightarrow> 't \<times> bool) \<Rightarrow> 't \<Rightarrow> 'h \<Rightarrow> ('t \<times> bool) \<times> 'h" where
  "pure_fn g b h = (g b, h)"

definition interfering ::
  "((('t, 'h) value_state \<Rightarrow> ('t, 'h) value_state) \<times> (('t, 'h) value_state \<Rightarrow> ('t, 'h) value_state)) list \<Rightarrow> bool" where
  "interfering es \<longleftrightarrow>
     (\<forall>e \<in> set es. \<forall>s. value_interference s (fst e s) \<and> value_interference s (snd e s))"

definition publish :: "'t \<Rightarrow> ('t, 'h) value_state \<Rightarrow> ('t, 'h) value_state" where
  "publish a s = s\<lparr>cells := cells s @ [a], root := Some (length (cells s))\<rparr>"

lemma apply_attempt_pure:
  assumes inv: "value_inv st" and zero: "root st = None \<Longrightarrow> before = zero"
    and e: "value_interference st (fst e st)"
      "value_interference (fst e st) (snd e (fst e st))"
    and att: "apply_attempt (pure_fn g) e before st = (r, st')"
  shows "r = Swapped a \<Longrightarrow> \<exists>s. st' = publish a s \<and> g (value_Load zero s) = (a, True)"
    and "r = Unmodified b \<Longrightarrow> b = value_Load zero st \<and> \<not> snd (g b)"
    and "r = Retry b \<Longrightarrow> value_inv st' \<and> (root st' = None \<longrightarrow> b = zero)"
proof -
  let ?b = "value_Load zero st" let ?s1 = "fst e st" let ?s2 = "snd e (fst e st)"
  have b: "(case root st of Some a \<Rightarrow> cells st ! a | None \<Rightarrow> before) = ?b"
    using zero by (auto simp: value_Load_def split: option.splits)
  have att': "(r, st') =
    (if \<not> snd (g ?b) then (Unmodified ?b, ?s1)
     else if root ?s2 = root st then (Swapped (fst (g ?b)), publish (fst (g ?b)) ?s2)
     else (Retry ?b, ?s2))"
    using att unfolding apply_attempt_def Let_def b
    by (auto simp: pure_fn_def CompareAndSwap_def publish_def split: prod.splits if_splits)
  show "\<exists>s. st' = publish a s \<and> g (value_Load zero s) = (a, True)" if "r = Swapped a"
  proof -
    from att' that have "root ?s2 = root st" "snd (g ?b)" "a = fst (g ?b)" "st' = publish a ?s2"
      by (auto split: if_splits)
    then show ?thesis
      using value_interference_unmoved(3) [OF inv e, of zero] by (metis prod.collapse)
  qed
  show "b = value_Load zero st \<and> \<not> snd (g b)" if "r = Unmodified b"
    using att' that by (auto split: if_splits)
  show "value_inv st' \<and> (root st' = None \<longrightarrow> b = zero)" if "r = Retry b"
  proof -
    from att' that have "st' = ?s2" "root ?s2 \<noteq> root st" "b = ?b"
      by (auto split: if_splits)
    then show ?thesis
      using inv e value_interference_inv
      by (auto simp: value_Load_def value_interference_def value_inv_def)
  qed
qed

lemma value_Apply_pure:
  assumes "value_inv st" "root st = None \<Longrightarrow> before = zero" "interfering es"
    and "value_Apply (pure_fn g) es before st = Some ((a, modified), st')"
  shows "(modified \<longrightarrow> (\<exists>s. st' = publish a s \<and> g (value_Load zero s) = (a, True)))
    \<and> (\<not> modified \<longrightarrow> \<not> snd (g a))"
  using assms
proof (induction es arbitrary: before st)
  case Nil
  obtain r st1 where att: "apply_attempt (pure_fn g) (id, id) before st = (r, st1)"
    by fastforce
  have e: "value_interference st (fst (id, id) st)"
    "value_interference (fst (id, id) st) (snd (id, id) (fst (id, id) st))"
    by simp_all
  note p = apply_attempt_pure [OF Nil.prems(1,2) e att]
  show ?case using Nil.prems(4) att p(1,2) by (cases r) auto
next
  case (Cons e es)
  obtain r st1 where att: "apply_attempt (pure_fn g) e before st = (r, st1)"
    by fastforce
  have e: "value_interference st (fst e st)"
    "value_interference (fst e st) (snd e (fst e st))"
    using Cons.prems(3) by (auto simp: interfering_def)
  note p = apply_attempt_pure [OF Cons.prems(1,2) e att]
  show ?case
  proof (cases r)
    case (Retry b)
    have "interfering es" using Cons.prems(3) by (simp add: interfering_def)
    then show ?thesis
        using Cons.IH [of st1 b] p(3) [of b] Cons.prems(4) att Retry by auto
  qed (use Cons.prems(4) att p in auto)
qed

declare value_Apply.simps [simp del]

section \<open>Comparators\<close>

text \<open>
  The interface \<open>Comparator[T]\<close>: a three-way comparison that orders its type. The two
  implementations of the file follow; \<open>Less\<close> of the element type is the order of its
  type class.
\<close>

locale comparator =
  fixes Compare :: "'m \<Rightarrow> 'm \<Rightarrow> int"
  assumes Compare_zero: "Compare a b = 0 \<longleftrightarrow> a = b"
    and Compare_swap: "Compare a b < 0 \<longleftrightarrow> 0 < Compare b a"
    and Compare_trans: "Compare a b < 0 \<Longrightarrow> Compare b c < 0 \<Longrightarrow> Compare a c < 0"
begin

definition ascending :: "'m list \<Rightarrow> bool" where
  "ascending = sorted_wrt (\<lambda>a b. Compare a b < 0)"

lemma Compare_total: "Compare a b < 0 \<or> a = b \<or> Compare b a < 0"
  using Compare_zero [of a b] Compare_swap [of b a] by linarith

lemma Compare_irrefl: "\<not> Compare a a < 0"
  using Compare_zero [of a a] by simp

lemma transp_Compare: "transp (\<lambda>a b. Compare a b < 0)"
  using Compare_trans by (auto intro: transpI)

lemma ascending_nth: "ascending xs \<Longrightarrow> k < l \<Longrightarrow> l < length xs \<Longrightarrow> Compare (xs ! k) (xs ! l) < 0"
  by (simp add: ascending_def sorted_wrt_iff_nth_less)

lemma ascending_distinct: "ascending xs \<Longrightarrow> distinct xs"
  by (induction xs) (auto simp: ascending_def Compare_irrefl)

lemma search_ascending:
  assumes asc: "ascending xs" and r: "BinarySearchFunc Compare xs m = (i, ok)"
  shows "i \<le> length xs" and "ok \<longleftrightarrow> m \<in> set xs" and "ok \<Longrightarrow> i < length xs \<and> xs ! i = m"
    and "a \<in> set (take i xs) \<Longrightarrow> Compare a m < 0"
    and "\<not> ok \<Longrightarrow> b \<in> set (drop i xs) \<Longrightarrow> Compare m b < 0"
proof -
  have mono: "\<forall>k l. k < l \<longrightarrow> l < length xs \<longrightarrow> Compare (xs ! l) m < 0 \<longrightarrow> Compare (xs ! k) m < 0"
    using ascending_nth [OF asc] Compare_trans by blast
  note b = BinarySearchFunc_boundary [OF mono r]
  show i: "i \<le> length xs" by (rule b(1))
  show hit: "i < length xs \<and> xs ! i = m" if ok
    using b(4) that Compare_zero by blast
  show lo: "Compare a m < 0" if "a \<in> set (take i xs)"
    using that b(2) by (auto simp: in_set_conv_nth)
  have hi: "\<not> Compare b m < 0" if "b \<in> set (drop i xs)" for b
    using that b(3) by (auto simp: in_set_conv_nth)
  show ok: "ok \<longleftrightarrow> m \<in> set xs"
  proof
    assume ok
    then show "m \<in> set xs" using hit by (auto intro: nth_mem)
  next
    assume "m \<in> set xs"
    then obtain k where k: "k < length xs" "xs ! k = m" by (auto simp: in_set_conv_nth)
    have "i \<le> k" using b(2) k Compare_irrefl by (meson not_le)
    moreover have "\<not> i < k"
      using b(3) ascending_nth [OF asc] k by (metis order_refl order_less_imp_le order_less_trans)
    ultimately have "i = k" by simp
    then show ok using b(4) k Compare_zero by blast
  qed
  show "Compare m b < 0" if "\<not> ok" "b \<in> set (drop i xs)"
    using hi [OF that(2)] Compare_total [of b m] ok that by (auto dest: in_set_dropD)
qed

lemma insert_ascending:
  assumes "ascending xs" "BinarySearchFunc Compare xs m = (i, False)"
  shows "ascending (insert_at i m xs)"
  using search_ascending [OF assms] assms(1)
  by (auto simp: ascending_def intro!: sorted_wrt_insert_at transp_Compare)

lemma delete_ascending: "ascending xs \<Longrightarrow> ascending (delete_at i xs)"
  by (auto simp: ascending_def intro: sorted_wrt_delete_at)

lemma delete_found:
  assumes "ascending xs" "BinarySearchFunc Compare xs m = (i, True)"
  shows "set (delete_at i xs) = set xs - {m}"
  using search_ascending [OF assms] distinct_set_delete_at [of xs i] ascending_distinct [OF assms(1)]
  by auto

end

definition LessComparator_Compare :: "('m \<Rightarrow> 'm \<Rightarrow> bool) \<Rightarrow> 'm \<Rightarrow> 'm \<Rightarrow> int" where
  "LessComparator_Compare Less a b = (if Less a b then -1 else if Less b a then 1 else 0)"

definition OrderedComparator_Compare :: "'m::linorder \<Rightarrow> 'm \<Rightarrow> int" where
  "OrderedComparator_Compare a b = (if a < b then -1 else if b < a then 1 else 0)"

interpretation less_cmp: comparator "LessComparator_Compare ((<) :: 'm::linorder \<Rightarrow> 'm \<Rightarrow> bool)"
  by unfold_locales (auto simp: LessComparator_Compare_def split: if_splits)

interpretation ordered_cmp: comparator "OrderedComparator_Compare :: 'm::linorder \<Rightarrow> 'm \<Rightarrow> int"
  by unfold_locales (auto simp: OrderedComparator_Compare_def split: if_splits)

lemma less_cmp_ascending [simp]: "less_cmp.ascending = sorted_wrt (<)"
proof -
  have "(\<lambda>a b :: 'a::linorder. LessComparator_Compare (<) a b < 0) = (<)"
    by (auto simp: LessComparator_Compare_def fun_eq_iff)
  then show ?thesis by (simp add: less_cmp.ascending_def)
qed

section \<open>OrderedSet\<close>

text \<open>
  The set is a \<open>Value\<close> of a slice. The functions passed to \<open>Apply\<close> by \<open>Add\<close> and
  \<open>Delete\<close> search the slice they are given and then insert into or delete from that very
  slice, so they write to an array that earlier results of \<open>Members\<close> share.
  \<open>zero\<close> is the zero value of the member type and \<open>grow\<close> the capacity chosen by the
  runtime when an array must grow.
\<close>

type_synonym 'm oset = "(slice, 'm mem) value_state"

definition empty_oset :: "'m oset" where
  "empty_oset = \<lparr>heap = [], cells = [], root = None\<rparr>"

definition add_fn ::
  "(nat \<Rightarrow> nat \<Rightarrow> nat) \<Rightarrow> 'm \<Rightarrow> ('m \<Rightarrow> 'm \<Rightarrow> int) \<Rightarrow> 'm \<Rightarrow> slice \<Rightarrow> 'm mem \<Rightarrow> (slice \<times> bool) \<times> 'm mem" where
  "add_fn grow zero Compare m members mem =
     (let (i, ok) = BinarySearchFunc Compare (read_slice mem members) m
      in if \<not> ok then (let (s, mem') = slices_Insert grow zero mem members i m in ((s, True), mem'))
         else ((members, False), mem))"

definition delete_fn ::
  "'m \<Rightarrow> ('m \<Rightarrow> 'm \<Rightarrow> int) \<Rightarrow> 'm \<Rightarrow> slice \<Rightarrow> 'm mem \<Rightarrow> (slice \<times> bool) \<times> 'm mem" where
  "delete_fn zero Compare m members mem =
     (let (i, ok) = BinarySearchFunc Compare (read_slice mem members) m
      in if ok then (let (s, mem') = slices_Delete zero mem members i in ((s, True), mem'))
         else ((members, False), mem))"

definition oset_apply ::
  "(slice \<Rightarrow> 'm mem \<Rightarrow> (slice \<times> bool) \<times> 'm mem) \<Rightarrow> 'm oset \<Rightarrow> 'm oset" where
  "oset_apply fn st =
     (case value_Apply fn [] nil_slice st of Some (_, st') \<Rightarrow> st' | None \<Rightarrow> st)"

definition oset_Add ::
  "(nat \<Rightarrow> nat \<Rightarrow> nat) \<Rightarrow> 'm \<Rightarrow> ('m \<Rightarrow> 'm \<Rightarrow> int) \<Rightarrow> 'm \<Rightarrow> 'm oset \<Rightarrow> 'm oset" where
  "oset_Add grow zero Compare m = oset_apply (add_fn grow zero Compare m)"

definition oset_Delete :: "'m \<Rightarrow> ('m \<Rightarrow> 'm \<Rightarrow> int) \<Rightarrow> 'm \<Rightarrow> 'm oset \<Rightarrow> 'm oset" where
  "oset_Delete zero Compare m = oset_apply (delete_fn zero Compare m)"

definition oset_Members :: "'m oset \<Rightarrow> slice" where
  "oset_Members st = value_Load nil_slice st"

definition oset_Has :: "('m \<Rightarrow> 'm \<Rightarrow> int) \<Rightarrow> 'm \<Rightarrow> 'm oset \<Rightarrow> bool" where
  "oset_Has Compare m st =
     snd (BinarySearchFunc Compare (read_slice (heap st) (oset_Members st)) m)"

definition oset_Len :: "'m oset \<Rightarrow> nat" where
  "oset_Len st = slen (oset_Members st)"

text \<open>What a caller of \<open>Members\<close> sees, and the set that it stands for.\<close>

definition oset_list :: "'m oset \<Rightarrow> 'm list" where
  "oset_list st = read_slice (heap st) (oset_Members st)"

definition oset_valid :: "'m oset \<Rightarrow> bool" where
  "oset_valid st \<longleftrightarrow> value_inv st \<and> valid_slice (heap st) (oset_Members st)"

lemma oset_apply_list:
  assumes v: "oset_valid st" and f: "fn (oset_Members st) (heap st) = ((s, modify), mem)"
    and s: "modify \<Longrightarrow> valid_slice mem s" and nm: "\<not> modify \<Longrightarrow> mem = heap st"
  shows "oset_valid (oset_apply fn st)"
    and "oset_list (oset_apply fn st) = (if modify then read_slice mem s else oset_list st)"
proof -
  have eq: "oset_apply fn st =
    (if modify then publish s (st\<lparr>heap := mem\<rparr>) else st)"
    using f nm by (simp add: oset_apply_def value_Apply_undisturbed oset_Members_def publish_def)
  show "oset_valid (oset_apply fn st)"
    and "oset_list (oset_apply fn st) = (if modify then read_slice mem s else oset_list st)"
    using v s unfolding eq
    by (auto simp: oset_valid_def value_inv_def oset_Members_def value_Load_def publish_def
        oset_list_def)
qed

lemma oset_empty [simp]: "oset_valid empty_oset" "oset_list empty_oset = []"
  by (simp_all add: oset_valid_def value_inv_def oset_Members_def value_Load_def empty_oset_def
      oset_list_def)

context comparator
begin

definition oset_inv :: "'m oset \<Rightarrow> bool" where
  "oset_inv st \<longleftrightarrow> oset_valid st \<and> ascending (oset_list st)"

lemma oset_Add_list:
  assumes "oset_inv st"
  shows "oset_inv (oset_Add grow zero Compare m st)
    \<and> set (oset_list (oset_Add grow zero Compare m st)) = insert m (set (oset_list st))"
proof -
  let ?xs = "oset_list st" let ?s = "oset_Members st"
  have v: "oset_valid st" "valid_slice (heap st) ?s" and asc: "ascending ?xs"
    using assms by (auto simp: oset_inv_def oset_valid_def)
  obtain i ok where r: "BinarySearchFunc Compare ?xs m = (i, ok)" by fastforce
  have r': "BinarySearchFunc Compare (read_slice (heap st) ?s) m = (i, ok)"
    using r by (simp add: oset_list_def)
  show ?thesis
  proof (cases ok)
    case True
    then have "add_fn grow zero Compare m ?s (heap st) = ((?s, False), heap st)"
      using r' by (simp add: add_fn_def)
    from oset_apply_list [where fn = "add_fn grow zero Compare m", OF v(1) this]
    show ?thesis
      using assms True search_ascending(2) [OF asc r]
      by (auto simp: oset_Add_def oset_inv_def insert_absorb)
  next
    case False
    obtain s mem where ins: "slices_Insert grow zero (heap st) ?s i m = (s, mem)" by fastforce
    have i: "i \<le> slen ?s"
      using search_ascending(1) [OF asc r] length_read_slice [OF v(2)] by (simp add: oset_list_def)
    have "add_fn grow zero Compare m ?s (heap st) = ((s, True), mem)"
      using r' False ins by (simp add: add_fn_def)
    from oset_apply_list [where fn = "add_fn grow zero Compare m", OF v(1) this]
    show ?thesis
      using slices_Insert_correct [OF v(2) i ins] insert_ascending [OF asc] r False
      by (auto simp: oset_Add_def oset_inv_def oset_list_def)
  qed
qed

lemma oset_Delete_list:
  assumes "oset_inv st"
  shows "oset_inv (oset_Delete zero Compare m st)
    \<and> set (oset_list (oset_Delete zero Compare m st)) = set (oset_list st) - {m}"
proof -
  let ?xs = "oset_list st" let ?s = "oset_Members st"
  have v: "oset_valid st" "valid_slice (heap st) ?s" and asc: "ascending ?xs"
    using assms by (auto simp: oset_inv_def oset_valid_def)
  obtain i ok where r: "BinarySearchFunc Compare ?xs m = (i, ok)" by fastforce
  have r': "BinarySearchFunc Compare (read_slice (heap st) ?s) m = (i, ok)"
    using r by (simp add: oset_list_def)
  show ?thesis
  proof (cases ok)
    case False
    then have "delete_fn zero Compare m ?s (heap st) = ((?s, False), heap st)"
      using r' by (simp add: delete_fn_def)
    from oset_apply_list [where fn = "delete_fn zero Compare m", OF v(1) this]
    show ?thesis
      using assms False search_ascending(2) [OF asc r] by (auto simp: oset_Delete_def oset_inv_def)
  next
    case True
    obtain s mem where del: "slices_Delete zero (heap st) ?s i = (s, mem)" by fastforce
    have i: "i < slen ?s"
      using search_ascending(3) [OF asc r True] length_read_slice [OF v(2)]
      by (simp add: oset_list_def)
    have "delete_fn zero Compare m ?s (heap st) = ((s, True), mem)"
      using r' True del by (simp add: delete_fn_def)
    from oset_apply_list [where fn = "delete_fn zero Compare m", OF v(1) this]
    show ?thesis
      using slices_Delete_correct [OF v(2) i del] delete_ascending [OF asc]
        delete_found [OF asc, of m i] r True
      by (auto simp: oset_Delete_def oset_inv_def oset_list_def)
  qed
qed

lemma oset_Has_iff: "oset_inv st \<Longrightarrow> oset_Has Compare m st \<longleftrightarrow> m \<in> set (oset_list st)"
  using search_ascending(2) [of "oset_list st" m]
  by (cases "BinarySearchFunc Compare (oset_list st) m")
     (auto simp: oset_inv_def oset_Has_def oset_list_def)

lemma oset_Len_card: "oset_inv st \<Longrightarrow> oset_Len st = card (set (oset_list st))"
  using ascending_distinct [of "oset_list st"] length_read_slice [of "heap st" "oset_Members st"]
  by (simp add: oset_inv_def oset_Len_def oset_list_def oset_valid_def distinct_card)

end

section \<open>The set contract the partitioner relies on\<close>

text \<open>
  A store of node IDs with \<open>Add\<close>, \<open>Delete\<close> and a \<open>Members\<close> that lists them in
  ascending order. The ordered set with the \<open>LessComparator\<close> provides it.
\<close>

locale node_set =
  fixes empty :: "'s" and add :: "'u::linorder \<Rightarrow> 's \<Rightarrow> 's" and del :: "'u \<Rightarrow> 's \<Rightarrow> 's"
    and members :: "'s \<Rightarrow> 'u list" and invar :: "'s \<Rightarrow> bool"
  assumes invar_empty: "invar empty" and members_empty: "members empty = []"
    and invar_add: "invar s \<Longrightarrow> invar (add u s)" and invar_del: "invar s \<Longrightarrow> invar (del u s)"
    and members_sorted: "invar s \<Longrightarrow> sorted_wrt (<) (members s)"
    and members_add: "invar s \<Longrightarrow> set (members (add u s)) = insert u (set (members s))"
    and members_del: "invar s \<Longrightarrow> set (members (del u s)) = set (members s) - {u}"
begin

lemma members_unique:
  "invar s \<Longrightarrow> invar t \<Longrightarrow> set (members s) = set (members t) \<Longrightarrow> members s = members t"
  by (metis members_sorted strict_sorted_equal)

lemma members_sorted_list: "invar s \<Longrightarrow> members s = sorted_list_of_set (set (members s))"
  by (metis List.finite_set members_sorted set_sorted_list_of_set strict_sorted_equal
      strict_sorted_list_of_set)

end

interpretation oset_nodes: node_set
  "empty_oset :: 'u::linorder oset"
  "oset_Add grow zero (LessComparator_Compare (<))"
  "oset_Delete zero (LessComparator_Compare (<))"
  oset_list less_cmp.oset_inv
proof (unfold_locales, goal_cases)
  case 1 show ?case by (simp add: less_cmp.oset_inv_def)
next
  case 2 show ?case by simp
next
  case (3 s u) then show ?case using less_cmp.oset_Add_list by blast
next
  case (4 s u) then show ?case using less_cmp.oset_Delete_list by blast
next
  case (5 s) then show ?case by (simp add: less_cmp.oset_inv_def)
next
  case (6 s u) then show ?case using less_cmp.oset_Add_list by blast
next
  case (7 s u) then show ?case using less_cmp.oset_Delete_list by blast
qed

section \<open>A concrete set\<close>

text \<open>
  The set \<open>{1, 2, 3}\<close> as built by three calls of \<open>Add\<close>: the last array has a spare
  slot, because the runtime doubles the capacity.
\<close>

definition oset_123 :: "int oset" where
  "oset_123 = foldr (oset_Add (\<lambda>c n. 2 * c) 0 (LessComparator_Compare (<))) [1, 2, 3] empty_oset"

lemmas oset_eval = oset_Delete_def oset_Add_def oset_apply_def add_fn_def delete_fn_def
  value_Apply.simps apply_attempt_def CompareAndSwap_def LessComparator_Compare_def oset_list_def
  oset_Members_def value_Load_def empty_oset_def Let_def slices_eval

lemma oset_123_eq:
  "oset_123 = \<lparr>heap = [[3], [2, 3], [1, 2, 3, 0]],
     cells = [\<lparr>sptr = Some 0, slen = Suc 0\<rparr>, \<lparr>sptr = Some (Suc 0), slen = 2\<rparr>,
              \<lparr>sptr = Some 2, slen = 3\<rparr>], root = Some 2\<rparr>"
  unfolding oset_123_def by (simp add: oset_eval)

lemma oset_123_list: "oset_list oset_123 = [1, 2, 3]"
  by (simp add: oset_123_eq oset_eval)

lemma oset_123_inv: "less_cmp.oset_inv oset_123"
  by (simp add: oset_123_def oset_nodes.invar_add oset_nodes.invar_empty)

lemma oset_123_Delete_2:
  "oset_Delete 0 (LessComparator_Compare (<)) 2
     \<lparr>heap = [[3], [2, 3], [1, 2, 3, 0 :: int]],
      cells = [\<lparr>sptr = Some 0, slen = Suc 0\<rparr>, \<lparr>sptr = Some (Suc 0), slen = 2\<rparr>,
               \<lparr>sptr = Some 2, slen = 3\<rparr>], root = Some 2\<rparr>
   = \<lparr>heap = [[3], [2, 3], [1, 3, 0, 0]],
      cells = [\<lparr>sptr = Some 0, slen = Suc 0\<rparr>, \<lparr>sptr = Some (Suc 0), slen = 2\<rparr>,
               \<lparr>sptr = Some 2, slen = 3\<rparr>, \<lparr>sptr = Some 2, slen = 2\<rparr>], root = Some 3\<rparr>"
  by (simp add: oset_eval)

lemma oset_123_attempt:
  "apply_attempt (delete_fn 0 (LessComparator_Compare (<)) 1)
     (oset_Delete 0 (LessComparator_Compare (<)) 2, id) nil_slice
     \<lparr>heap = [[3], [2, 3], [1, 2, 3, 0 :: int]],
      cells = [\<lparr>sptr = Some 0, slen = Suc 0\<rparr>, \<lparr>sptr = Some (Suc 0), slen = 2\<rparr>,
               \<lparr>sptr = Some 2, slen = 3\<rparr>], root = Some 2\<rparr>
   = (Retry \<lparr>sptr = Some 2, slen = 3\<rparr>,
      \<lparr>heap = [[3], [2, 3], [3, 0, 0, 0]],
       cells = [\<lparr>sptr = Some 0, slen = Suc 0\<rparr>, \<lparr>sptr = Some (Suc 0), slen = 2\<rparr>,
                \<lparr>sptr = Some 2, slen = 3\<rparr>, \<lparr>sptr = Some 2, slen = 2\<rparr>], root = Some 3\<rparr>)"
  by (simp add: apply_attempt_def oset_123_Delete_2 Let_def delete_fn_def slices_eval
      LessComparator_Compare_def CompareAndSwap_def)

section \<open>Sequences of calls\<close>

text \<open>Calls of \<open>Add\<close> (\<open>True\<close>) and \<open>Delete\<close>, on an ordered set and on a mathematical one.\<close>

definition oset_ops :: "(nat \<Rightarrow> nat \<Rightarrow> nat) \<Rightarrow> 'm \<Rightarrow> (bool \<times> 'm::linorder) list \<Rightarrow> 'm oset \<Rightarrow> 'm oset" where
  "oset_ops grow zero = fold (\<lambda>(adding, m).
     if adding then oset_Add grow zero (LessComparator_Compare (<)) m
     else oset_Delete zero (LessComparator_Compare (<)) m)"

definition set_ops :: "(bool \<times> 'm) list \<Rightarrow> 'm set \<Rightarrow> 'm set" where
  "set_ops = fold (\<lambda>(adding, m) S. if adding then insert m S else S - {m})"

lemma oset_ops_set:
  "less_cmp.oset_inv st \<Longrightarrow> less_cmp.oset_inv (oset_ops grow zero ops st) \<and>
    set (oset_list (oset_ops grow zero ops st)) = set_ops ops (set (oset_list st))"
proof (induction ops arbitrary: st)
  case (Cons op ops)
  then show ?case using less_cmp.oset_Add_list [of st] less_cmp.oset_Delete_list [of st]
    by (cases op) (auto simp: oset_ops_def set_ops_def split: if_splits)
qed (simp add: oset_ops_def set_ops_def)

section \<open>Properties\<close>

text \<open>
C32: Any sequence of \<open>Add\<close> and \<open>Delete\<close> calls on a zero-value \<open>OrderedSet\<close> has the
effect of the same calls on a mathematical set: \<open>Members\<close> lists exactly its elements in
ascending order, \<open>Len\<close> is its cardinality and \<open>Has\<close> decides membership.
\<close>

theorem oset_ops_refine:
  fixes ops :: "(bool \<times> 'm::linorder) list"
  shows "let st = oset_ops grow zero ops empty_oset; S = set_ops ops {}
    in oset_list st = sorted_list_of_set S \<and> oset_Len st = card S
      \<and> (\<forall>m. oset_Has (LessComparator_Compare (<)) m st \<longleftrightarrow> m \<in> S)"
proof -
  let ?cmp = "LessComparator_Compare ((<) :: 'm \<Rightarrow> 'm \<Rightarrow> bool)"
  have inv: "less_cmp.oset_inv (oset_ops grow zero ops empty_oset)"
    and S: "set (oset_list (oset_ops grow zero ops empty_oset)) = set_ops ops {}"
    using oset_ops_set [OF oset_nodes.invar_empty, of grow zero ops] by simp_all
  show ?thesis
    using oset_nodes.members_sorted_list [OF inv] less_cmp.oset_Len_card [OF inv]
      less_cmp.oset_Has_iff [OF inv] S by (simp add: Let_def)
qed

text \<open>
\<open>Value.Apply\<close> returns, and with a function that only computes it is atomic however
other goroutines interfere (they allocate cells and move the pointer to them): when it reports
a modification, the final state is some state of the value with the function's result for the
content of that very state published on top of it; when it reports none, the function declined
the content it returns.
\<close>

lemma value_Apply_atomic:
  assumes "value_inv st" and "interfering es"
  shows "\<exists>a modified st'. value_Apply (pure_fn g) es zero st = Some ((a, modified), st')
    \<and> (modified \<longrightarrow> (\<exists>s. st' = publish a s \<and> g (value_Load zero s) = (a, True)))
    \<and> (\<not> modified \<longrightarrow> \<not> snd (g a))"
proof -
  obtain a modified st' where r: "value_Apply (pure_fn g) es zero st = Some ((a, modified), st')"
    using value_Apply_not_None [of "pure_fn g" es zero st] by (cases "value_Apply (pure_fn g) es zero st") auto
  show ?thesis using value_Apply_pure [OF assms(1) refl assms(2) r] r by blast
qed

lemma value_Apply_atomic_witness:
  "let st = \<lparr>heap = (), cells = [5 :: nat], root = Some 0\<rparr>; g = \<lambda>n. (n + 1, n < 100)
   in \<exists>a modified st'. value_Apply (pure_fn g) [(id, publish 7)] 0 st = Some ((a, modified), st')
    \<and> (modified \<longrightarrow> (\<exists>s. st' = publish a s \<and> g (value_Load 0 s) = (a, True)))
    \<and> (\<not> modified \<longrightarrow> \<not> snd (g a))"
proof -
  have 1: "value_inv \<lparr>heap = (), cells = [5 :: nat], root = Some 0\<rparr>"
    by (simp add: value_inv_def)
  have 2: "interfering [(id, publish (7 :: nat) :: (nat, unit) value_state \<Rightarrow> _)]"
    by (simp add: interfering_def value_interference_def publish_def)
  show ?thesis unfolding Let_def by (rule value_Apply_atomic [OF 1 2])
qed

text \<open>
\<open>OrderedSet.Delete\<close> is not atomic under contention, because its function shifts the
shared array in place: on the set \<open>{1, 2, 3}\<close>, deleting 1 while another goroutine deletes 2
between the load and the swap leaves \<open>Members\<close> as \<open>[3, 0]\<close>: the zero value has become a
member and the order is lost.
\<close>

lemma oset_Delete_contended:
  "let cmp = LessComparator_Compare (<)
   in oset_list oset_123 = [1, 2, 3] \<and>
      map_option (\<lambda>((_, modified), st). (modified, oset_list st))
        (value_Apply (delete_fn 0 cmp 1) [(oset_Delete 0 cmp 2, id)] nil_slice oset_123)
      = Some (False, [3, 0])"
  unfolding Let_def oset_123_list
  unfolding oset_123_eq value_Apply.simps oset_123_attempt
  by (simp add: oset_eval)

text \<open>
A slice returned by \<open>Members\<close> before a \<open>Delete\<close> of one of its members is
overwritten by that \<open>Delete\<close>: its holder then reads the remaining members followed by the
zero value in the last slot.
\<close>

lemma oset_Delete_overwrites_members:
  assumes "less_cmp.oset_inv st" and "m \<in> set (oset_list st)"
  shows "read_slice (heap (oset_Delete zero (LessComparator_Compare (<)) m st)) (oset_Members st)
    = remove1 m (oset_list st) @ [zero]"
proof -
  let ?cmp = "LessComparator_Compare (<)" let ?s = "oset_Members st"
  have v: "valid_slice (heap st) ?s" and asc: "less_cmp.ascending (oset_list st)"
    using assms(1) by (simp_all add: less_cmp.oset_inv_def oset_valid_def)
  obtain i ok where r: "BinarySearchFunc ?cmp (oset_list st) m = (i, ok)" by fastforce
  note s = less_cmp.search_ascending [OF asc r]
  have i: "i < length (oset_list st)" "oset_list st ! i = m" and ok: "ok" using s(2,3) assms(2) by auto
  obtain s' mem where del: "slices_Delete zero (heap st) ?s i = (s', mem)" by fastforce
  have "heap (oset_Delete zero ?cmp m st) = mem"
    using r ok del
    by (simp add: oset_Delete_def oset_apply_def value_Apply_undisturbed delete_fn_def
        oset_list_def flip: oset_Members_def)
  moreover have "read_slice mem ?s = delete_at i (oset_list st) @ [zero]"
    using slices_Delete_alias [OF v _ del] i length_read_slice [OF v] by (simp add: oset_list_def)
  ultimately show ?thesis
    using delete_at_remove1 [OF less_cmp.ascending_distinct [OF asc]] i by simp
qed

lemma oset_Delete_overwrites_members_witness:
  "read_slice (heap (oset_Delete 0 (LessComparator_Compare (<)) 1 oset_123)) (oset_Members oset_123)
    = [2, 3, 0]"
  using oset_Delete_overwrites_members [OF oset_123_inv, of 1 0] by (simp add: oset_123_list)

end
