(* ===== verification/Optimistic_System.thy ===== *)
theory Optimistic_System
  imports Ordered_Set
begin

text \<open>
  Any number of goroutines that call \<open>Value.Apply\<close> (\<open>internal/optimistic/value.go\<close>) on one
  value, interleaved at every access to the shared pointer: the system as a whole, where theory
  \<open>Ordered_Set\<close> has one call against what the others may do to it.
\<close>

section \<open>The steps of Apply\<close>

text \<open>
  Where a call of \<open>Apply\<close> is, with its variables: before the load of the pointer, before the
  read of the cell, before the call of \<open>fn\<close>, before the swap, returned.
\<close>

datatype 't apply_pc =
    AtLoad 't
  | AtDeref "nat option" 't
  | AtFn "nat option" 't
  | AtCas "nat option" 't 't
  | Returned_with 't bool

fun Apply_step ::
  "('t \<Rightarrow> 'h \<Rightarrow> ('t \<times> bool) \<times> 'h) \<Rightarrow> 't apply_pc \<Rightarrow> ('t, 'h) value_state \<Rightarrow>
   ('t apply_pc \<times> ('t, 'h) value_state) option" where
  "Apply_step fn (AtLoad before) st = Some (AtDeref (root st) before, st)"
| "Apply_step fn (AtDeref p before) st =
     Some (AtFn p (case p of Some a \<Rightarrow> cells st ! a | None \<Rightarrow> before), st)"
| "Apply_step fn (AtFn p before) st =
     (let ((after, modify), h) = fn before (heap st)
      in Some (if modify then AtCas p before after else Returned_with before False, st\<lparr>heap := h\<rparr>))"
| "Apply_step fn (AtCas p before after) st =
     (let (swapped, st) = CompareAndSwap p after st
      in Some (if swapped then Returned_with after True else AtLoad before, st))"
| "Apply_step fn (Returned_with v modified) st = None"

text \<open>The goroutine \<open>i\<close> applies \<open>fns i\<close>, once. A schedule says who moves next.\<close>

type_synonym ('t, 'h, 'i) value_world = "('t, 'h) value_state \<times> ('i \<Rightarrow> 't apply_pc)"

fun value_exec ::
  "('i \<Rightarrow> 't \<Rightarrow> 'h \<Rightarrow> ('t \<times> bool) \<times> 'h) \<Rightarrow> 'i list \<Rightarrow> ('t, 'h, 'i) value_world \<Rightarrow> ('t, 'h, 'i) value_world option" where
  "value_exec fns [] s = Some s"
| "value_exec fns (i # is) (st, pcs) =
     (case Apply_step (fns i) (pcs i) st of
        None \<Rightarrow> None
      | Some (pc, st') \<Rightarrow> value_exec fns is (st', pcs(i := pc)))"

definition value_start :: "'t \<Rightarrow> 'h \<Rightarrow> ('t, 'h, 'i) value_world" where
  "value_start zero h = (\<lparr>heap = h, cells = [], root = None\<rparr>, \<lambda>_. AtLoad zero)"

lemma Apply_step_enabled: "Apply_step fn pc st = None \<longleftrightarrow> (\<exists>v m. pc = Returned_with v m)"
  by (cases pc) (simp_all add: Let_def split: prod.split)

lemma value_exec_append:
  "value_exec fns (is @ js) s = Option.bind (value_exec fns is s) (value_exec fns js)"
  by (induction "fns" "is" s rule: value_exec.induct) (auto split: option.splits)

text \<open>A call that nobody disturbs does what \<open>value_Apply\<close> says.\<close>

lemma value_exec_alone:
  assumes "pcs i = AtLoad zero"
  shows "\<exists>n a m st'. value_Apply (fns i) [] zero st = Some ((a, m), st') \<and>
    value_exec fns (replicate n i) (st, pcs) = Some (st', pcs(i := Returned_with a m))"
proof -
  define b where "b = (case root st of Some a \<Rightarrow> cells st ! a | None \<Rightarrow> zero)"
  obtain a m h where f: "fns i b (heap st) = ((a, m), h)" by (metis surj_pair)
  show ?thesis
  proof (cases m)
    case True
    then have "value_exec fns (replicate 4 i) (st, pcs) =
      Some (st\<lparr>heap := h, cells := cells st @ [a], root := Some (length (cells st))\<rparr>, pcs(i := Returned_with a True))"
      using f assms by (simp add: numeral_eq_Suc CompareAndSwap_def b_def)
    with True f show ?thesis by (simp only: value_Apply_undisturbed value_Load_def b_def [symmetric] Let_def) auto
  next
    case False
    then have "value_exec fns (replicate 3 i) (st, pcs) =
      Some (st\<lparr>heap := h\<rparr>, pcs(i := Returned_with b False))"
      using f assms by (simp add: numeral_eq_Suc b_def)
    with False f show ?thesis by (simp only: value_Apply_undisturbed value_Load_def b_def [symmetric] Let_def) auto
  qed
qed

section \<open>The atomic object\<close>

text \<open>
  What \<open>Apply\<close> promises: the calls that modify the value have their effect one after the
  other, each on the result of the one before. An operation is its goroutine and its result.
\<close>

fun one_by_one :: "('i \<Rightarrow> 't \<Rightarrow> 't \<times> bool) \<Rightarrow> 't \<Rightarrow> ('i \<times> 't) list \<Rightarrow> 't \<Rightarrow> bool" where
  "one_by_one g v [] w \<longleftrightarrow> v = w"
| "one_by_one g v ((i, a) # ops) w \<longleftrightarrow> g i v = (a, True) \<and> one_by_one g a ops w"

definition linearized ::
  "('i \<Rightarrow> 't \<Rightarrow> 't \<times> bool) \<Rightarrow> 't \<Rightarrow> ('i \<times> 't) list \<Rightarrow> ('t, 'h, 'i) value_world \<Rightarrow> bool" where
  "linearized g zero ops s \<longleftrightarrow>
     one_by_one g zero ops (value_Load zero (fst s)) \<and> distinct (map fst ops) \<and>
     set ops = {(i, a). snd s i = Returned_with a True}"

lemma one_by_one_snoc:
  "one_by_one g v (ops @ [(i, a)]) w \<longleftrightarrow> (\<exists>u. one_by_one g v ops u \<and> g i u = (a, True)) \<and> w = a"
  by (induction g v ops w rule: one_by_one.induct) auto

lemma one_by_one_take:
  "one_by_one g v ops w \<Longrightarrow> k \<le> length ops \<Longrightarrow> one_by_one g v (take k ops) ((v # map snd ops) ! k)"
proof (induction g v ops w arbitrary: k rule: one_by_one.induct)
  case (2 g v i a ops w)
  then show ?case by (cases k) simp_all
qed simp

section \<open>The invariant\<close>

text \<open>
  The versions of the value are the zero value and the cells. \<open>lo\<close> is the number of the version
  that was current when the goroutine was last looked at before a load.
\<close>

definition version :: "nat option \<Rightarrow> nat" where
  "version p = (case p of None \<Rightarrow> 0 | Some a \<Rightarrow> Suc a)"

fun pc_ok :: "('t \<Rightarrow> 't \<times> bool) \<Rightarrow> 't list \<Rightarrow> nat \<Rightarrow> 't apply_pc \<Rightarrow> bool" where
  "pc_ok g vs lo (AtLoad b) \<longleftrightarrow> lo < length vs \<and> (length vs = 1 \<longrightarrow> b = vs ! 0)"
| "pc_ok g vs lo (AtDeref p b) \<longleftrightarrow> lo \<le> version p \<and> version p < length vs \<and> (p = None \<longrightarrow> b = vs ! 0)"
| "pc_ok g vs lo (AtFn p b) \<longleftrightarrow> lo \<le> version p \<and> version p < length vs \<and> b = vs ! version p"
| "pc_ok g vs lo (AtCas p b a) \<longleftrightarrow>
     lo \<le> version p \<and> version p < length vs \<and> b = vs ! version p \<and> g b = (a, True)"
| "pc_ok g vs lo (Returned_with b m) \<longleftrightarrow>
     (\<not> m \<longrightarrow> (\<exists>k. lo \<le> k \<and> k < length vs \<and> b = vs ! k \<and> \<not> snd (g b)))"

definition system_inv ::
  "('i \<Rightarrow> 't \<Rightarrow> 't \<times> bool) \<Rightarrow> 't \<Rightarrow> ('i \<Rightarrow> nat) \<Rightarrow> ('i \<times> 't) list \<Rightarrow> ('t, 'h, 'i) value_world \<Rightarrow> bool" where
  "system_inv g zero lo ops s \<longleftrightarrow>
     version (root (fst s)) = length (cells (fst s)) \<and> cells (fst s) = map snd ops \<and>
     (\<forall>i. pc_ok (g i) (zero # map snd ops) (lo i) (snd s i)) \<and> linearized g zero ops s"

lemma version_simps [simp]: "version None = 0" "version (Some a) = Suc a"
  by (simp_all add: version_def)

lemma version_inject: "version p = version q \<longleftrightarrow> p = q"
  by (cases p; cases q) simp_all

lemma value_Load_version:
  "version (root st) = length (cells st) \<Longrightarrow> value_Load zero st = (zero # cells st) ! length (cells st)"
  by (cases "root st") (auto simp: value_Load_def nth_Cons' dest: sym)

lemma pc_ok_grows: "pc_ok g vs lo pc \<Longrightarrow> pc_ok g (vs @ [v]) lo pc"
  by (cases "(g, vs, lo, pc)" rule: pc_ok.cases) (auto simp: nth_append less_Suc_eq)

lemma system_inv_pc:
  assumes "system_inv g zero lo ops (st, pcs)" and "pc_ok (g i) (zero # map snd ops) (lo i) pc"
    and "\<And>v. pcs i \<noteq> Returned_with v True" and "\<And>v. pc \<noteq> Returned_with v True"
  shows "system_inv g zero lo ops (st, pcs(i := pc))"
proof -
  have "{(j, a). (pcs(i := pc)) j = Returned_with a True} = {(j, a). pcs j = Returned_with a True}"
    by (auto simp: assms(3,4) split: if_splits)
  then show ?thesis using assms(1,2) by (simp add: system_inv_def linearized_def)
qed

lemma system_inv_swap:
  assumes inv: "system_inv g zero lo ops (st, pcs)" and pc: "pcs i = AtCas p b a" and p: "root st = p"
  shows "system_inv g zero lo (ops @ [(i, a)]) (publish a st, pcs(i := Returned_with a True))"
proof -
  have cs: "version (root st) = length (cells st)" "cells st = map snd ops"
    and ok: "\<And>j. pc_ok (g j) (zero # map snd ops) (lo j) (pcs j)"
    and lin: "one_by_one g zero ops (value_Load zero st)" "distinct (map fst ops)"
      "set ops = {(j, a). pcs j = Returned_with a True}"
    using inv by (auto simp: system_inv_def linearized_def)
  have b: "b = value_Load zero st" "g i b = (a, True)"
    using ok [of i] pc p cs value_Load_version [OF cs(1), of zero] by auto
  have new: "i \<notin> fst ` set ops" unfolding lin(3) using pc by auto
  have pcs: "pc_ok (g j) (zero # map snd (ops @ [(i, a)])) (lo j) ((pcs(i := Returned_with a True)) j)" for j
    using pc_ok_grows [OF ok, of j a] by simp
  have "set (ops @ [(i, a)]) = {(j, c). (pcs(i := Returned_with a True)) j = Returned_with c True}"
    using lin(3) pc by (auto split: if_splits)
  moreover have "one_by_one g zero (ops @ [(i, a)]) (value_Load zero (publish a st))"
    using lin(1) b by (auto simp: one_by_one_snoc publish_def value_Load_def)
  ultimately have "linearized g zero (ops @ [(i, a)]) (publish a st, pcs(i := Returned_with a True))"
    using lin(2) new by (simp add: linearized_def)
  moreover have "version (root (publish a st)) = length (cells (publish a st))"
    "cells (publish a st) = map snd (ops @ [(i, a)])"
    using cs(2) by (simp_all add: publish_def)
  ultimately show ?thesis using pcs unfolding system_inv_def fst_conv snd_conv by blast
qed

lemma system_inv_step:
  assumes inv: "system_inv g zero lo ops (st, pcs)"
    and step: "Apply_step (pure_fn (g i)) (pcs i) st = Some (pc, st')"
  shows "\<exists>more. system_inv g zero lo (ops @ more) (st', pcs(i := pc))"
proof -
  have cs: "version (root st) = length (map snd ops)" "cells st = map snd ops"
    and ok: "pc_ok (g i) (zero # map snd ops) (lo i) (pcs i)"
    using inv by (auto simp: system_inv_def)
  note local = system_inv_pc [OF inv, of i pc]
  show ?thesis
  proof (cases "pcs i")
    case (AtLoad b)
    then have "pc_ok (g i) (zero # map snd ops) (lo i) pc" "st' = st" "\<exists>p b. pc = AtDeref p b"
      using step ok cs by auto
    then show ?thesis using local AtLoad by (auto intro!: exI [of _ "[]"])
  next
    case (AtDeref p b)
    then have "pc_ok (g i) (zero # map snd ops) (lo i) pc" "st' = st" "\<exists>p b. pc = AtFn p b"
      using step ok cs(2) by (auto split: option.splits)
    then show ?thesis using local AtDeref by (auto intro!: exI [of _ "[]"])
  next
    case (AtFn p b)
    then have "pc_ok (g i) (zero # map snd ops) (lo i) pc" "st' = st" "\<And>v. pc \<noteq> Returned_with v True"
      using step ok by (auto simp: pure_fn_def Let_def split: prod.splits if_splits)
    then show ?thesis using local AtFn by (auto intro!: exI [of _ "[]"])
  next
    case (AtCas p b a)
    show ?thesis
    proof (cases "root st = p")
      case True
      then have "pc = Returned_with a True" "st' = publish a st"
        using step AtCas by (simp_all add: CompareAndSwap_def publish_def)
      with system_inv_swap [OF inv AtCas True] show ?thesis by blast
    next
      case False
      then have "version p \<noteq> length ops" using cs(1) version_inject [of "root st" p] by auto
      then have "pc_ok (g i) (zero # map snd ops) (lo i) pc" "st' = st" "pc = AtLoad b"
        using step ok AtCas False by (auto simp: CompareAndSwap_def)
      then show ?thesis using local AtCas by (auto intro!: exI [of _ "[]"])
    qed
  next
    case (Returned_with v m)
    with step show ?thesis by simp
  qed
qed

lemma system_inv_exec:
  "system_inv g zero lo ops s \<Longrightarrow> value_exec (\<lambda>i. pure_fn (g i)) is s = Some s' \<Longrightarrow>
    \<exists>more. system_inv g zero lo (ops @ more) s'"
proof (induction "is" arbitrary: s ops)
  case Nil
  then show ?case by (auto intro: exI [of _ "[]"])
next
  case (Cons i "is")
  obtain st pcs where s: "s = (st, pcs)" by fastforce
  obtain pc st1 where step: "Apply_step (pure_fn (g i)) (pcs i) st = Some (pc, st1)"
    and exec: "value_exec (\<lambda>i. pure_fn (g i)) is (st1, pcs(i := pc)) = Some s'"
    using Cons.prems(2) by (auto simp: s split: option.splits)
  obtain m where "system_inv g zero lo (ops @ m) (st1, pcs(i := pc))"
    using system_inv_step [OF Cons.prems(1) [unfolded s] step] by blast
  from Cons.IH [OF this exec] show ?case by auto
qed

lemma system_inv_start: "system_inv g zero (\<lambda>_. 0) [] (value_start zero h)"
  by (simp add: system_inv_def value_start_def linearized_def value_Load_def)

text \<open>A goroutine that is before its load will see the current version or a later one.\<close>

lemma system_inv_now:
  assumes "system_inv g zero lo ops s"
  shows "system_inv g zero (\<lambda>i. case snd s i of AtLoad b \<Rightarrow> length ops | _ \<Rightarrow> lo i) ops s"
  unfolding system_inv_def
proof (intro conjI allI)
  fix i
  have "pc_ok (g i) (zero # map snd ops) (lo i) (snd s i)" using assms by (simp add: system_inv_def)
  then show "pc_ok (g i) (zero # map snd ops) (case snd s i of AtLoad b \<Rightarrow> length ops | _ \<Rightarrow> lo i) (snd s i)"
    by (cases "snd s i") simp_all
qed (use assms in \<open>simp_all add: system_inv_def\<close>)

section \<open>Progress\<close>

text \<open>
  The steps that a call may still take in its current turn; a load that is out of date will cost
  another turn.
\<close>

fun pending_steps :: "nat option \<Rightarrow> 't apply_pc \<Rightarrow> nat" where
  "pending_steps r (AtLoad b) = 4"
| "pending_steps r (AtDeref p b) = (if p = r then 3 else 7)"
| "pending_steps r (AtFn p b) = (if p = r then 2 else 6)"
| "pending_steps r (AtCas p b a) = (if p = r then 1 else 5)"
| "pending_steps r (Returned_with v m) = 0"

definition unreturned :: "'i set \<Rightarrow> ('i \<Rightarrow> 't apply_pc) \<Rightarrow> 'i set" where
  "unreturned I pcs = {i \<in> I. \<forall>v m. pcs i \<noteq> Returned_with v m}"

definition work :: "'i set \<Rightarrow> ('t, 'h, 'i) value_world \<Rightarrow> nat" where
  "work I s = 4 * card I * card (unreturned I (snd s)) + (\<Sum>i\<in>I. pending_steps (root (fst s)) (snd s i))"

lemma pending_steps_other: "pending_steps r' pc \<le> pending_steps r pc + 4"
  by (cases pc) simp_all

lemma Apply_step_cost:
  assumes "Apply_step fn pc st = Some (pc', st')"
  shows "(root st' = root st \<and> pending_steps (root st) pc' < pending_steps (root st) pc) \<or>
    (\<exists>v m. pc' = Returned_with v m)"
  using assms by (cases pc) (auto simp: Let_def CompareAndSwap_def split: prod.splits if_splits)

lemma work_step:
  assumes I: "finite I" "i \<in> I" and step: "Apply_step fn (pcs i) st = Some (pc, st')"
  shows "work I (st', pcs(i := pc)) < work I (st, pcs)"
proof (cases "\<exists>v m. pc = Returned_with v m")
  case True
  then obtain v m where pc: "pc = Returned_with v m" by blast
  have i: "i \<in> unreturned I pcs" using step I(2) Apply_step_enabled [of fn "pcs i" st] by (auto simp: unreturned_def)
  have "unreturned I (pcs(i := pc)) = unreturned I pcs - {i}" by (auto simp: unreturned_def pc)
  moreover have "finite (unreturned I pcs)" using I(1) by (simp add: unreturned_def)
  ultimately have c: "card (unreturned I pcs) = Suc (card (unreturned I (pcs(i := pc))))"
    using i by (metis card_Suc_Diff1)
  have p: "0 < pending_steps (root st) (pcs i)" using step by (cases "pcs i") simp_all
  have "(\<Sum>j\<in>I - {i}. pending_steps (root st') (pcs j)) \<le> (\<Sum>j\<in>I - {i}. pending_steps (root st) (pcs j) + 4)"
    by (intro sum_mono pending_steps_other)
  also have "\<dots> = (\<Sum>j\<in>I - {i}. pending_steps (root st) (pcs j)) + 4 * (card I - 1)"
    using I by (simp add: sum.distrib card_Diff_singleton)
  finally have "(\<Sum>j\<in>I. pending_steps (root st') ((pcs(i := pc)) j)) <
      (\<Sum>j\<in>I. pending_steps (root st) (pcs j)) + 4 * card I"
    using I p by (simp add: sum.remove [of I i] pc)
  then show ?thesis by (simp add: work_def c algebra_simps)
next
  case False
  then have r: "root st' = root st" and less: "pending_steps (root st) pc < pending_steps (root st) (pcs i)"
    using Apply_step_cost [OF step] by blast+
  have "unreturned I (pcs(i := pc)) \<subseteq> unreturned I pcs"
    using step Apply_step_enabled [of fn "pcs i" st] by (auto simp: unreturned_def split: if_splits)
  then have "card (unreturned I (pcs(i := pc))) \<le> card (unreturned I pcs)"
    using I(1) by (intro card_mono) (simp_all add: unreturned_def)
  then have "4 * card I * card (unreturned I (pcs(i := pc))) \<le> 4 * card I * card (unreturned I pcs)"
    by simp
  moreover have "(\<Sum>j\<in>I. pending_steps (root st) ((pcs(i := pc)) j)) < (\<Sum>j\<in>I. pending_steps (root st) (pcs j))"
    using I less by (intro sum_strict_mono_ex1) auto
  ultimately show ?thesis unfolding work_def fst_conv snd_conv r by (rule add_le_less_mono)
qed

lemma work_exec:
  "finite I \<Longrightarrow> set is \<subseteq> I \<Longrightarrow> value_exec fns is s = Some s' \<Longrightarrow> length is + work I s' \<le> work I s"
proof (induction "is" arbitrary: s)
  case (Cons i "is")
  obtain st pcs where s: "s = (st, pcs)" by fastforce
  obtain pc st1 where step: "Apply_step (fns i) (pcs i) st = Some (pc, st1)"
    and exec: "value_exec fns is (st1, pcs(i := pc)) = Some s'"
    using Cons.prems(3) by (auto simp: s split: option.splits)
  from Cons.IH [OF Cons.prems(1) _ exec] Cons.prems(2)
    work_step [where pcs = pcs and i = i and fn = "fns i", OF Cons.prems(1) _ step]
  show ?case by (simp add: s)
qed simp

lemma work_start: "work I (value_start zero h) = 4 * card I * (card I + 1)"
  by (simp add: work_def value_start_def unreturned_def algebra_simps)

section \<open>Properties\<close>

text \<open>
C33: \<open>Value\<close> is linearizable for functions that only compute. However the goroutines that apply
such functions (\<open>pure_fn\<close>: they write no memory) to a value are interleaved, at every moment the
value is the result of the calls that have returned a modification, each applied once and
atomically, one after the other. The order only grows, so a call comes after all that have
returned before it loads the pointer; a call that returns no modification has declined the value
at some moment after its load. This does not cover \<open>Add\<close> and \<open>Delete\<close> of \<open>OrderedSet\<close>, whose
functions write the array that they share: lemma \<open>oset_Delete_contended\<close> of theory \<open>Ordered_Set\<close>
shows that atomicity fails there.
\<close>

theorem Apply_linearizable:
  assumes "value_exec (\<lambda>i. pure_fn (g i)) is (value_start zero h) = Some s"
    and "value_exec (\<lambda>i. pure_fn (g i)) js s = Some s'"
  shows "\<exists>ops more. linearized g zero ops s \<and> linearized g zero (ops @ more) s' \<and>
    (\<forall>i b b'. snd s i = AtLoad b' \<and> snd s' i = Returned_with b False \<longrightarrow> \<not> snd (g i b) \<and>
      (\<exists>n. one_by_one g zero (ops @ take n more) b))"
proof -
  obtain ops where inv: "system_inv g zero (\<lambda>_. 0) ops s"
    using system_inv_exec [OF system_inv_start assms(1)] by auto
  let ?lo = "\<lambda>i. case snd s i of AtLoad b \<Rightarrow> length ops | _ \<Rightarrow> 0"
  obtain more where inv': "system_inv g zero ?lo (ops @ more) s'"
    using system_inv_exec [OF system_inv_now [OF inv] assms(2)] by blast
  have lin: "linearized g zero ops s" "linearized g zero (ops @ more) s'"
    using inv inv' by (simp_all add: system_inv_def)
  have "\<not> snd (g i b) \<and> (\<exists>n. one_by_one g zero (ops @ take n more) b)"
    if "snd s i = AtLoad b'" "snd s' i = Returned_with b False" for i b b'
  proof -
    have "pc_ok (g i) (zero # map snd (ops @ more)) (?lo i) (snd s' i)"
      using inv' by (simp only: system_inv_def)
    with that obtain k where k: "length ops \<le> k" "k \<le> length (ops @ more)"
      "b = (zero # map snd (ops @ more)) ! k" "\<not> snd (g i b)" by auto
    have "one_by_one g zero (take k (ops @ more)) b"
      unfolding k(3) using lin(2) k(2) by (intro one_by_one_take) (auto simp: linearized_def)
    with k(1,4) show ?thesis by auto
  qed
  with lin show ?thesis by blast
qed

text \<open>
  Two goroutines that increment the value once it is below 1: both load nil, the first swaps, the
  second fails, loads again, and declines the 1.
\<close>

definition example_race :: "nat \<Rightarrow> nat \<Rightarrow> nat \<times> bool" where
  "example_race i v = (v + 1, v < 1)"

lemma example_race_run:
  "value_exec (\<lambda>i. pure_fn (example_race i)) [0, 1, 0, 1, 0, 1, 0, 1] (value_start 0 ()) =
     Some (\<lparr>heap = (), cells = [1], root = Some 0\<rparr>, (\<lambda>_. AtLoad 0)(0 := Returned_with 1 True))"
  "value_exec (\<lambda>i. pure_fn (example_race i)) [1, 1, 1]
     (\<lparr>heap = (), cells = [1], root = Some 0\<rparr>, (\<lambda>_. AtLoad 0)(0 := Returned_with 1 True)) =
     Some (\<lparr>heap = (), cells = [1], root = Some 0\<rparr>,
       (\<lambda>_. AtLoad 0)(0 := Returned_with 1 True, 1 := Returned_with 1 False))"
  by (simp_all add: value_start_def example_race_def pure_fn_def CompareAndSwap_def fun_eq_iff)

theorem Apply_linearizable_witness:
  "\<exists>ops s s'. value_exec (\<lambda>i. pure_fn (example_race i)) [0, 1, 0, 1, 0, 1, 0, 1] (value_start 0 ()) = Some s \<and>
     linearized example_race 0 ops s \<and> set ops = {(0, 1)} \<and>
     value_exec (\<lambda>i. pure_fn (example_race i)) [1, 1, 1] s = Some s' \<and>
     snd s' 1 = Returned_with 1 False \<and> (\<exists>more. one_by_one example_race 0 (ops @ more) 1)"
proof -
  let ?s = "(\<lparr>heap = (), cells = [1 :: nat], root = Some 0\<rparr>, (\<lambda>_ :: nat. AtLoad 0)(0 := Returned_with 1 True))"
  have pcs: "snd ?s 1 = AtLoad 0 \<and>
      ((\<lambda>_ :: nat. AtLoad 0)(0 := Returned_with 1 True, 1 := Returned_with 1 False)) 1 = Returned_with (1 :: nat) False" by simp
  obtain ops more where ops: "linearized example_race 0 ops ?s" "\<exists>n. one_by_one example_race 0 (ops @ take n more) 1"
    using Apply_linearizable [OF example_race_run] pcs unfolding snd_conv by blast
  moreover from ops(1) have "set ops = {(0, 1)}" by (auto simp: linearized_def split: if_splits)
  ultimately show ?thesis using example_race_run pcs unfolding snd_conv by (metis snd_conv)
qed

text \<open>
C34: \<open>Value.Apply\<close> is lock-free, whatever the functions do. A call that has not returned can
always take a step, and \<open>n\<close> goroutines that call it once each take at most \<open>4 n (n + 1)\<close> steps
together, in every order.
\<close>

theorem Apply_lock_free:
  assumes "finite I" and "set is \<subseteq> I" and "value_exec fns is (value_start zero h) = Some s"
  shows "length is \<le> 4 * card I * (card I + 1) \<and>
    (\<forall>i. (\<exists>s'. value_exec fns [i] s = Some s') \<or> (\<exists>v m. snd s i = Returned_with v m))"
proof -
  have "length is \<le> 4 * card I * (card I + 1)"
    using work_exec [OF assms] by (simp add: work_start)
  moreover have "(\<exists>s'. value_exec fns [i] s = Some s') \<or> (\<exists>v m. snd s i = Returned_with v m)" for i
    using Apply_step_enabled [of "fns i" "snd s i" "fst s"] by (cases s) (auto split: option.split)
  ultimately show ?thesis by blast
qed

theorem Apply_lock_free_witness:
  "length [0, 1, 0, 1, 0, 1, 0, 1 :: nat] \<le> 4 * card {0, 1 :: nat} * (card {0, 1 :: nat} + 1)"
  using Apply_lock_free [OF _ _ example_race_run(1), of "{0, 1}"] by simp

end
