(* ===== verification/Partitioner.thy ===== *)
theory Partitioner
  imports Ordered_Set
begin

text \<open>
  \<open>internal/cluster/partition.go\<close>: rendezvous hashing of workloads onto nodes. The
  partitioner is an ordered set of node IDs with the \<open>LessComparator\<close>; the order of the
  type of IDs is the order of \<open>UUID.Less\<close>. \<open>nil\<close> is the nil pointer (the zero value
  of the ID type). The xxhash digest and \<open>UUID.AsBytes\<close> are code of other modules: they
  are the arguments \<open>H\<close> and \<open>asBytes\<close>.
\<close>

section \<open>Route\<close>

type_synonym bytes = "8 word list"

record 'd digest_api =
  Reset :: "'d \<Rightarrow> 'd"
  Write :: "'d \<Rightarrow> bytes \<Rightarrow> 'd"
  Sum64 :: "'d \<Rightarrow> u64"

text \<open>The digest as documented: \<open>Reset\<close> returns it to its initial state, whatever was written.\<close>

definition digest_resets :: "'d digest_api \<Rightarrow> bool" where
  "digest_resets H \<longleftrightarrow> (\<forall>d d'. Reset H d = Reset H d')"

text \<open>
  The loop over the members: the same digest is reset and written for each node, and a node
  wins when its score is strictly above the best so far, which starts at 0.
\<close>

fun route_loop ::
  "'d digest_api \<Rightarrow> ('u \<Rightarrow> bytes) \<Rightarrow> 'u \<Rightarrow> 'u list \<Rightarrow> 'd \<Rightarrow> 'u \<Rightarrow> u64 \<Rightarrow> 'u" where
  "route_loop H asBytes workload [] hash winner score = winner"
| "route_loop H asBytes workload (node # nodes) hash winner score =
     (let hash = Reset H hash;
          hash = Write H hash (asBytes node);
          hash = Write H hash (asBytes workload);
          s = Sum64 H hash
      in if s > score then route_loop H asBytes workload nodes hash node s
         else route_loop H asBytes workload nodes hash winner score)"

definition route_members ::
  "'u \<Rightarrow> 'd digest_api \<Rightarrow> ('u \<Rightarrow> bytes) \<Rightarrow> 'd \<Rightarrow> 'u \<Rightarrow> 'u list \<Rightarrow> (unit, 'u) outcome" where
  "route_members nil H asBytes hash workload nodes =
     (if length nodes = 0 then Panic ''partitioner has no nodes''
      else Ok (route_loop H asBytes workload nodes hash nil 0))"

definition AddNode :: "(nat \<Rightarrow> nat \<Rightarrow> nat) \<Rightarrow> 'u \<Rightarrow> 'u::linorder \<Rightarrow> 'u oset \<Rightarrow> 'u oset" where
  "AddNode grow nil = oset_Add grow nil (LessComparator_Compare (<))"

definition RemoveNode :: "'u \<Rightarrow> 'u::linorder \<Rightarrow> 'u oset \<Rightarrow> 'u oset" where
  "RemoveNode nil = oset_Delete nil (LessComparator_Compare (<))"

definition Route ::
  "'u::linorder \<Rightarrow> 'd digest_api \<Rightarrow> ('u \<Rightarrow> bytes) \<Rightarrow> 'd \<Rightarrow> 'u \<Rightarrow> 'u oset \<Rightarrow> (unit, 'u) outcome" where
  "Route nil H asBytes hash workload p = route_members nil H asBytes hash workload (oset_list p)"

section \<open>The score of a node and the winner of a set of nodes\<close>

definition node_score ::
  "'d digest_api \<Rightarrow> ('u \<Rightarrow> bytes) \<Rightarrow> 'd \<Rightarrow> 'u \<Rightarrow> 'u \<Rightarrow> u64" where
  "node_score H asBytes d workload node =
     Sum64 H (Write H (Write H (Reset H d) (asBytes node)) (asBytes workload))"

text \<open>The highest score wins; among equal scores, the lowest ID.\<close>

definition wins :: "('u::linorder \<Rightarrow> u64) \<Rightarrow> 'u set \<Rightarrow> 'u \<Rightarrow> bool" where
  "wins s N x \<longleftrightarrow> x \<in> N \<and> 0 < s x \<and> (\<forall>n \<in> N. s n < s x \<or> s n = s x \<and> x \<le> n)"

lemma wins_unique: "wins s N x \<Longrightarrow> wins s N y \<Longrightarrow> x = y"
  unfolding wins_def by (metis antisym less_irrefl order_less_asym)

lemma wins_remove: "wins s N x \<Longrightarrow> x \<noteq> n \<Longrightarrow> wins s (N - {n}) x"
  unfolding wins_def by blast

lemma wins_nonzero: "wins s N x \<Longrightarrow> \<exists>n \<in> N. s n \<noteq> 0"
  unfolding wins_def by (metis word_gt_0)

lemma wins_add:
  assumes w: "wins s N x"
  shows "wins s (insert n N) x \<or> wins s (insert n N) n"
proof (cases "s n < s x \<or> s n = s x \<and> x \<le> n")
  case True
  with w show ?thesis unfolding wins_def by blast
next
  case False
  then have n: "s x < s n \<or> s n = s x \<and> n \<le> x"
    by (meson linorder_cases nle_le)
  have pos: "0 < s n"
    using w n unfolding wins_def by (metis order_less_trans)
  have "s m < s n \<or> s m = s n \<and> n \<le> m" if "m \<in> N" for m
  proof -
    have "s m < s x \<or> s m = s x \<and> x \<le> m" using w that by (simp add: wins_def)
    with n show ?thesis by (elim disjE conjE) (auto intro: order_less_trans order_trans)
  qed
  with pos have "wins s (insert n N) n" by (simp add: wins_def)
  then show ?thesis ..
qed

text \<open>The loop over the scores alone.\<close>

fun best_of :: "('u \<Rightarrow> u64) \<Rightarrow> 'u list \<Rightarrow> 'u \<Rightarrow> u64 \<Rightarrow> 'u" where
  "best_of s [] winner score = winner"
| "best_of s (node # nodes) winner score =
     (if s node > score then best_of s nodes node (s node) else best_of s nodes winner score)"

lemma route_loop_best_of:
  assumes "digest_resets H"
  shows "route_loop H asBytes workload nodes hash winner score =
    best_of (node_score H asBytes d workload) nodes winner score"
proof (induction nodes arbitrary: hash winner score)
  case (Cons node nodes)
  have r: "Reset H hash = Reset H d" using assms by (simp add: digest_resets_def)
  show ?case
    unfolding route_loop.simps(2) best_of.simps(2) Let_def node_score_def r
    using Cons.IH by (simp add: node_score_def)
qed simp

lemma best_of_zero: "\<forall>n \<in> set nodes. s n = 0 \<Longrightarrow> best_of s nodes winner 0 = winner"
  by (induction nodes) auto

lemma wins_snoc_new:
  assumes "wins s (set seen) winner" "s winner < s node"
  shows "wins s (set (seen @ [node])) node"
proof -
  have "s n < s node" if "n \<in> set seen" for n
    using assms that unfolding wins_def by (metis order_less_trans)
  moreover have "0 < s node" using assms unfolding wins_def by (metis order_less_trans)
  ultimately show ?thesis by (simp add: wins_def)
qed

lemma wins_snoc_old:
  assumes "wins s (set seen) winner" "\<not> s winner < s node" "winner < node"
  shows "wins s (set (seen @ [node])) winner"
proof -
  have "s node < s winner \<or> s node = s winner" using assms(2) by (metis linorder_cases)
  with assms show ?thesis by (auto simp: wins_def)
qed

lemma best_of_winner:
  "sorted_wrt (<) (seen @ nodes) \<Longrightarrow> wins s (set seen) winner \<Longrightarrow>
    wins s (set (seen @ nodes)) (best_of s nodes winner (s winner))"
proof (induction nodes arbitrary: seen winner)
  case (Cons node nodes)
  have srt: "sorted_wrt (<) ((seen @ [node]) @ nodes)" using Cons.prems(1) by simp
  have lt: "winner < node"
    using Cons.prems by (auto simp: sorted_wrt_append wins_def)
  show ?case
  proof (cases "s winner < s node")
    case True
    from Cons.IH [OF srt wins_snoc_new [OF Cons.prems(2) True]] True show ?thesis by simp
  next
    case False
    from Cons.IH [OF srt wins_snoc_old [OF Cons.prems(2) False lt]] False show ?thesis by simp
  qed
qed simp

lemma best_of_first:
  "sorted_wrt (<) (seen @ nodes) \<Longrightarrow> \<forall>n \<in> set seen. s n = 0 \<Longrightarrow> \<exists>n \<in> set nodes. s n \<noteq> 0 \<Longrightarrow>
    wins s (set (seen @ nodes)) (best_of s nodes winner 0)"
proof (induction nodes arbitrary: seen)
  case (Cons node nodes)
  have srt: "sorted_wrt (<) ((seen @ [node]) @ nodes)" using Cons.prems(1) by simp
  show ?case
  proof (cases "s node = 0")
    case True
    with Cons.IH [OF srt] Cons.prems(2,3) show ?thesis by simp
  next
    case False
    then have "0 < s node" by (simp add: word_gt_0)
    with Cons.prems(2) have "wins s (set (seen @ [node])) node" by (auto simp: wins_def)
    from best_of_winner [OF srt this] \<open>0 < s node\<close> show ?thesis by simp
  qed
qed simp

lemma route_members_spec:
  assumes "digest_resets H" "sorted_wrt (<) nodes" "nodes \<noteq> []"
  shows "\<forall>n \<in> set nodes. node_score H asBytes d workload n = 0 \<Longrightarrow>
      route_members nil H asBytes hash workload nodes = Ok nil"
    and "\<exists>n \<in> set nodes. node_score H asBytes d workload n \<noteq> 0 \<Longrightarrow>
      \<exists>x. route_members nil H asBytes hash workload nodes = Ok x \<and>
          wins (node_score H asBytes d workload) (set nodes) x"
proof -
  have eq: "route_members nil H asBytes hash workload nodes =
    Ok (best_of (node_score H asBytes d workload) nodes nil 0)"
    using assms(3) route_loop_best_of [OF assms(1)] by (simp add: route_members_def)
  show "route_members nil H asBytes hash workload nodes = Ok nil"
    if "\<forall>n \<in> set nodes. node_score H asBytes d workload n = 0"
    using eq best_of_zero that by simp
  show "\<exists>x. route_members nil H asBytes hash workload nodes = Ok x \<and>
      wins (node_score H asBytes d workload) (set nodes) x"
    if "\<exists>n \<in> set nodes. node_score H asBytes d workload n \<noteq> 0"
    using eq best_of_first [of "[]" nodes "node_score H asBytes d workload" nil] assms(2) that
    by simp
qed

section \<open>Routing over the set contract\<close>

context node_set
begin

lemma route_winner:
  assumes "digest_resets H" "invar p" "\<exists>n \<in> set (members p). node_score H asBytes d workload n \<noteq> 0"
  shows "\<exists>x. route_members nil H asBytes hash workload (members p) = Ok x \<and>
    wins (node_score H asBytes d workload) (set (members p)) x"
proof -
  have "members p \<noteq> []" using assms(3) by auto
  then show ?thesis using route_members_spec(2) [OF assms(1) members_sorted [OF assms(2)]] assms(3)
    by blast
qed

lemma route_zero:
  assumes "digest_resets H" "invar p" "members p \<noteq> []"
    and "\<forall>n \<in> set (members p). node_score H asBytes d workload n = 0"
  shows "route_members nil H asBytes hash workload (members p) = Ok nil"
  using route_members_spec(1) [OF assms(1) members_sorted [OF assms(2)] assms(3,4)] by blast

lemma route_del_other:
  assumes H: "digest_resets H" and p: "invar p"
    and r: "route_members nil H asBytes hash workload (members p) = Ok x"
    and x: "x \<in> set (members p)" "x \<noteq> n"
  shows "route_members nil H asBytes hash workload (members (del n p)) = Ok x"
proof -
  let ?s = "node_score H asBytes undefined workload"
  have p': "invar (del n p)" and N: "set (members (del n p)) = set (members p) - {n}"
    using p by (simp_all add: invar_del members_del)
  show ?thesis
  proof (cases "\<forall>m \<in> set (members p). ?s m = 0")
    case True
    have ne: "members p \<noteq> []" and ne': "members (del n p) \<noteq> []" using x N by force+
    have Z: "\<forall>m \<in> set (members (del n p)). ?s m = 0" using True N by blast
    from route_zero [OF H p ne True, of nil hash] r have "x = nil" by simp
    with route_zero [OF H p' ne' Z, of nil hash] show ?thesis by simp
  next
    case False
    then have "\<exists>m \<in> set (members p). ?s m \<noteq> 0" by blast
    from route_winner [OF H p this, of nil hash] r
    have w: "wins ?s (set (members p)) x" by (metis outcome.inject(1))
    have w': "wins ?s (set (members (del n p))) x" using wins_remove [OF w x(2)] N by simp
    then have "\<exists>m \<in> set (members (del n p)). ?s m \<noteq> 0" by (rule wins_nonzero)
    from route_winner [OF H p' this, of nil hash] wins_unique [OF w'] show ?thesis by metis
  qed
qed

lemma route_add_node:
  assumes H: "digest_resets H" and p: "invar p" and ne: "members p \<noteq> []"
  shows "route_members nil H asBytes hash workload (members (add n p))
    \<in> {Ok n, route_members nil H asBytes hash workload (members p)}"
proof -
  let ?s = "node_score H asBytes undefined workload"
  have p': "invar (add n p)" and N: "set (members (add n p)) = insert n (set (members p))"
    using p by (simp_all add: invar_add members_add)
  have ne': "members (add n p) \<noteq> []" using N by auto
  show ?thesis
  proof (cases "\<forall>m \<in> set (members (add n p)). ?s m = 0")
    case True
    then have Z: "\<forall>m \<in> set (members p). ?s m = 0" using N by blast
    from route_zero [OF H p' ne' True, of nil hash] route_zero [OF H p ne Z, of nil hash]
    show ?thesis by simp
  next
    case False
    then obtain y where y: "route_members nil H asBytes hash workload (members (add n p)) = Ok y"
      and w: "wins ?s (set (members (add n p))) y"
      using route_winner [OF H p', of asBytes undefined workload nil hash] by metis
    show ?thesis
    proof (cases "y = n")
      case y_other: False
      then have "wins ?s (set (members p)) y"
        using w N unfolding wins_def by blast
      from route_winner [OF H p wins_nonzero [OF this], of nil hash]
      obtain x where x: "route_members nil H asBytes hash workload (members p) = Ok x"
        and wx: "wins ?s (set (members p)) x" by blast
      from wins_add [OF wx, of n] wins_unique [OF w] y_other have "y = x" unfolding N by metis
      with x y show ?thesis by simp
    qed (simp add: y)
  qed
qed

lemma route_del_self:
  assumes H: "digest_resets H" and p: "invar p" and n: "n \<noteq> nil"
  shows "route_members nil H asBytes hash workload (members (del n p)) \<noteq> Ok n"
proof (cases "members (del n p) = []")
  case False
  have p': "invar (del n p)" and N: "n \<notin> set (members (del n p))"
    using p by (simp_all add: invar_del members_del)
  show ?thesis
  proof (cases "\<forall>m \<in> set (members (del n p)). node_score H asBytes undefined workload m = 0")
    case True
    from route_zero [OF H p' False True] n show ?thesis by simp
  next
    case False
    then have "\<exists>m \<in> set (members (del n p)). node_score H asBytes undefined workload m \<noteq> 0"
      by blast
    from route_winner [OF H p' this, of nil hash] N show ?thesis
      unfolding wins_def by (metis outcome.inject(1))
  qed
qed (simp add: route_members_def)

end

section \<open>Sequences of calls\<close>

definition partitioner_ops ::
  "(nat \<Rightarrow> nat \<Rightarrow> nat) \<Rightarrow> 'u \<Rightarrow> (bool \<times> 'u::linorder) list \<Rightarrow> 'u oset \<Rightarrow> 'u oset" where
  "partitioner_ops grow nil = fold (\<lambda>(adding, n). if adding then AddNode grow nil n else RemoveNode nil n)"

lemma partitioner_ops_set:
  "less_cmp.oset_inv (partitioner_ops grow nil ops empty_oset) \<and>
    set (oset_list (partitioner_ops grow nil ops empty_oset)) = set_ops ops {}"
  using oset_ops_set [OF oset_nodes.invar_empty, of grow nil ops]
  unfolding partitioner_ops_def oset_ops_def AddNode_def RemoveNode_def by simp

text \<open>What a digest has hashed before does not matter, because it is reset.\<close>

lemma route_members_hash:
  "digest_resets H \<Longrightarrow>
    route_members nil H asBytes hash workload nodes = route_members nil H asBytes hash' workload nodes"
  by (simp add: route_members_def route_loop_best_of [where d = undefined])

section \<open>Properties\<close>

text \<open>
  A digest for the witnesses: it keeps the bytes written and its sum is their sum.
\<close>

definition sum_digest :: "bytes digest_api" where
  "sum_digest = \<lparr>Reset = \<lambda>_. [], Write = (@), Sum64 = \<lambda>bs. \<Sum>b\<leftarrow>bs. of_nat (unat b)\<rparr>"

lemma sum_digest_resets: "digest_resets sum_digest"
  by (simp add: digest_resets_def sum_digest_def)

text \<open>
C28: When some member's score for the workload is not 0, \<open>Route\<close> returns the member with the
highest score, and among members with equal scores the one with the lowest ID. When there are
members and all have the score 0 it returns the nil identifier, which need not be a member. It
panics exactly when the partitioner has no nodes.
\<close>

theorem Route_winner:
  assumes "digest_resets H" and "less_cmp.oset_inv p"
  shows "(Route nil H asBytes hash workload p = Panic ''partitioner has no nodes'' \<longleftrightarrow> oset_list p = [])
    \<and> ((\<exists>n \<in> set (oset_list p). node_score H asBytes hash workload n \<noteq> 0) \<longrightarrow>
      (\<exists>x. Route nil H asBytes hash workload p = Ok x \<and>
          wins (node_score H asBytes hash workload) (set (oset_list p)) x))
    \<and> (oset_list p \<noteq> [] \<and> (\<forall>n \<in> set (oset_list p). node_score H asBytes hash workload n = 0) \<longrightarrow>
      Route nil H asBytes hash workload p = Ok nil)"
  using oset_nodes.route_winner [OF assms] oset_nodes.route_zero [OF assms] by (simp add: Route_def route_members_def)

theorem Route_winner_witness:
  "Route 0 sum_digest (\<lambda>n. [of_int n]) [] 10 oset_123 = Ok 3 \<and>
   Route (-1) \<lparr>Reset = \<lambda>_. (), Write = \<lambda>_ _. (), Sum64 = \<lambda>_. 0\<rparr> (\<lambda>n. []) () 10 oset_123 = Ok (-1)"
proof (intro conjI)
  have "digest_resets \<lparr>Reset = \<lambda>_. (), Write = \<lambda>_ _. (), Sum64 = \<lambda>_. 0\<rparr>" by (simp add: digest_resets_def)
  from Route_winner [OF this oset_123_inv, of "-1" "\<lambda>n. []" "()" 10]
  show "Route (-1) \<lparr>Reset = \<lambda>_. (), Write = \<lambda>_ _. (), Sum64 = \<lambda>_. 0\<rparr> (\<lambda>n. []) () 10 oset_123 = Ok (-1)"
    by (simp add: oset_123_list node_score_def)
next
  let ?s = "node_score sum_digest (\<lambda>n. [of_int n]) [] (10 :: int)"
  have s: "?s 1 = 11" "?s 2 = 12" "?s 3 = 13" by (simp_all add: node_score_def sum_digest_def)
  obtain x where "Route 0 sum_digest (\<lambda>n. [of_int n]) [] 10 oset_123 = Ok x"
    and "wins ?s {1, 2, 3} x"
    using Route_winner [OF sum_digest_resets oset_123_inv, of 0 "\<lambda>n. [of_int n]" "[]" 10] s
    by (auto simp: oset_123_list)
  then show "Route 0 sum_digest (\<lambda>n. [of_int n]) [] 10 oset_123 = Ok 3" using s by (auto simp: wins_def)
qed

text \<open>
C29: Removing a node does not move workloads between the nodes that stay: if a workload was
routed to another member, it still is. And a removed node is never routed to.
\<close>

theorem Route_RemoveNode:
  assumes "digest_resets H" and "less_cmp.oset_inv p" and "n \<noteq> nil"
  shows "Route nil H asBytes hash workload (RemoveNode nil n p) \<noteq> Ok n \<and>
    (\<forall>x \<in> set (oset_list p) - {n}. Route nil H asBytes hash workload p = Ok x \<longrightarrow>
      Route nil H asBytes hash workload (RemoveNode nil n p) = Ok x)"
  using oset_nodes.route_del_self [OF assms] oset_nodes.route_del_other [OF assms(1,2)]
  by (auto simp: Route_def RemoveNode_def)

theorem Route_RemoveNode_witness:
  "Route 0 sum_digest (\<lambda>n. [of_int n]) [] 10 (RemoveNode 0 3 oset_123) \<noteq> Ok (3 :: int)"
  using Route_RemoveNode [OF sum_digest_resets oset_123_inv, of 3 0] by simp

text \<open>
C30: Adding a node to a partitioner that has nodes moves a workload only to the added node:
every workload stays where it was or goes to the new node.
\<close>

theorem Route_AddNode:
  assumes "digest_resets H" and "less_cmp.oset_inv p" and "oset_list p \<noteq> []"
  shows "Route nil H asBytes hash workload (AddNode grow nil n p)
    \<in> {Ok n, Route nil H asBytes hash workload p}"
  using oset_nodes.route_add_node [OF assms] by (simp add: Route_def AddNode_def)

theorem Route_AddNode_witness:
  "Route 0 sum_digest (\<lambda>n. [of_int n]) [] (10 :: int) (AddNode (\<lambda>c n. 2 * c) 0 7 oset_123)
    \<in> {Ok 7, Route 0 sum_digest (\<lambda>n. [of_int n]) [] 10 oset_123}"
  by (rule Route_AddNode [OF sum_digest_resets oset_123_inv]) (simp add: oset_123_list)

text \<open>
C31: Nodes that agree on the membership agree on the routing: two partitioners that were given
nodes by any sequences of \<open>AddNode\<close> and \<open>RemoveNode\<close> calls route every workload to the same
node when the sequences leave the same nodes, whatever their order and repetitions, the growth
of their slices, and what their digests have hashed before.
\<close>

theorem Route_agrees:
  assumes "digest_resets H" and "set_ops ops {} = set_ops ops' {}"
  shows "Route nil H asBytes hash workload (partitioner_ops grow nil ops empty_oset) =
    Route nil H asBytes hash' workload (partitioner_ops grow' nil ops' empty_oset)"
proof -
  have inv: "less_cmp.oset_inv (partitioner_ops grow nil ops empty_oset)"
    "less_cmp.oset_inv (partitioner_ops grow' nil ops' empty_oset)"
    and same: "set (oset_list (partitioner_ops grow nil ops empty_oset)) =
      set (oset_list (partitioner_ops grow' nil ops' empty_oset))"
    using partitioner_ops_set [of grow nil ops] partitioner_ops_set [of grow' nil ops'] assms(2) by simp_all
  have "oset_list (partitioner_ops grow nil ops empty_oset) = oset_list (partitioner_ops grow' nil ops' empty_oset)"
    by (rule oset_nodes.members_unique [OF inv same])
  then show ?thesis using route_members_hash [OF assms(1)] by (simp add: Route_def)
qed

theorem Route_agrees_witness:
  "Route 0 sum_digest (\<lambda>n. [of_int n]) [] 10
     (partitioner_ops (\<lambda>c n. 2 * c) 0 [(True, 3), (True, 9), (True, 1), (False, 9)] empty_oset) =
   Route 0 sum_digest (\<lambda>n. [of_int n]) [7] 10
     (partitioner_ops (\<lambda>c n. c + n) (0 :: int) [(True, 1), (True, 3)] empty_oset)"
  by (rule Route_agrees [OF sum_digest_resets]) (auto simp: set_ops_def)

text \<open>
The best score starts at 0 and is only replaced by a larger one, so when every member's
score for a workload is 0, \<open>Route\<close> returns the nil ID although the partitioner has nodes.
\<close>

lemma Route_nil_on_zero_scores:
  assumes "digest_resets H" and "less_cmp.oset_inv p" and "oset_list p \<noteq> []"
    and "\<forall>n \<in> set (oset_list p). node_score H asBytes hash workload n = 0"
  shows "Route nil H asBytes hash workload p = Ok nil"
  using oset_nodes.route_zero [OF assms] by (simp add: Route_def)

lemma Route_nil_on_zero_scores_witness:
  "Route (-1) \<lparr>Reset = \<lambda>_. (), Write = \<lambda>_ _. (), Sum64 = \<lambda>_. 0\<rparr> (\<lambda>n. []) () 10 oset_123 = Ok (-1)"
  by (rule Route_nil_on_zero_scores)
    (simp_all add: digest_resets_def oset_123_inv oset_123_list node_score_def)

end
