(* ===== verification/Messaging.thy ===== *)
theory Messaging
  imports Prelude "HOL-Library.Sublist" "HOL-Library.Multiset"
begin

text \<open>
  \<open>internal/signaling\<close> and \<open>internal/messaging\<close>: latches, events, request/response
  exchanges, acknowledged queues and topics, over a model of Go channels.

  A buffered channel is its capacity, its buffer and whether it is closed. An operation
  proceeds, would block, or panics. A \<open>select\<close> is given the case that was ready, as a value.
\<close>

section \<open>Channels\<close>

record 'a chan =
  capacity :: nat
  buffer :: "'a list"
  closed :: bool

datatype 'a chan_op = Proceeds 'a | WouldBlock | ChanPanic string

definition make_chan :: "nat \<Rightarrow> 'a chan" where
  "make_chan n = \<lparr>capacity = n, buffer = [], closed = False\<rparr>"

definition chan_send :: "'a \<Rightarrow> 'a chan \<Rightarrow> 'a chan chan_op" where
  "chan_send v c =
     (if closed c then ChanPanic ''send on closed channel''
      else if length (buffer c) < capacity c then Proceeds (c\<lparr>buffer := buffer c @ [v]\<rparr>)
      else WouldBlock)"

text \<open>Receiving from a closed and empty channel gives the zero value (\<open>None\<close>) at once.\<close>

definition chan_recv :: "'a chan \<Rightarrow> ('a option \<times> 'a chan) chan_op" where
  "chan_recv c =
     (case buffer c of
        v # vs \<Rightarrow> Proceeds (Some v, c\<lparr>buffer := vs\<rparr>)
      | [] \<Rightarrow> if closed c then Proceeds (None, c) else WouldBlock)"

definition chan_close :: "'a chan \<Rightarrow> 'a chan chan_op" where
  "chan_close c =
     (if closed c then ChanPanic ''close of closed channel'' else Proceeds (c\<lparr>closed := True\<rparr>))"

definition readable :: "'a chan \<Rightarrow> bool" where
  "readable c \<longleftrightarrow> chan_recv c \<noteq> WouldBlock"

section \<open>Latches\<close>

text \<open>
  \<open>Signal\<close> is three atomic steps: the compare-and-swap, the (once-only) creation of the
  channel, and the close. A goroutine that loses the compare-and-swap returns at once.
\<close>

record latch =
  latch_sig :: "unit chan option"
  latched :: bool

datatype signal_pc = AtCas | AtSignal | AtClose | Returned_pc | Panicked_pc

definition zero_latch :: latch where
  "zero_latch = \<lparr>latch_sig = None, latched = False\<rparr>"

definition latch_signal :: "latch \<Rightarrow> unit chan \<times> latch" where
  "latch_signal l =
     (case latch_sig l of
        Some c \<Rightarrow> (c, l)
      | None \<Rightarrow> (make_chan 0, l\<lparr>latch_sig := Some (make_chan 0)\<rparr>))"

definition latch_Signaled :: "latch \<Rightarrow> unit chan \<times> latch" where
  "latch_Signaled l = latch_signal l"

fun latch_Signal_step :: "signal_pc \<Rightarrow> latch \<Rightarrow> signal_pc \<times> latch" where
  "latch_Signal_step AtCas l =
     (if latched l then (Returned_pc, l) else (AtSignal, l\<lparr>latched := True\<rparr>))"
| "latch_Signal_step AtSignal l = (AtClose, snd (latch_signal l))"
| "latch_Signal_step AtClose l =
     (case latch_sig l of
        Some c \<Rightarrow> (case chan_close c of
            Proceeds c' \<Rightarrow> (Returned_pc, l\<lparr>latch_sig := Some c'\<rparr>)
          | _ \<Rightarrow> (Panicked_pc, l))
      | None \<Rightarrow> (Panicked_pc, l))"
| "latch_Signal_step pc l = (pc, l)"

definition latch_Signal :: "latch \<Rightarrow> signal_pc \<times> latch" where
  "latch_Signal l =
     (let (pc1, l1) = latch_Signal_step AtCas l; (pc2, l2) = latch_Signal_step pc1 l1
      in latch_Signal_step pc2 l2)"

text \<open>
  Any number of goroutines in \<open>Signal\<close>, and readers in \<open>Signaled\<close>: the thread in the
  label takes its next step.
\<close>

datatype latch_label = LSignal nat | LSignaled

type_synonym latch_world = "latch \<times> (nat \<Rightarrow> signal_pc)"

inductive latch_step :: "latch_world \<Rightarrow> latch_label \<Rightarrow> latch_world \<Rightarrow> bool" where
  signal: "latch_Signal_step (pcs i) l = (pc', l') \<Longrightarrow> latch_step (l, pcs) (LSignal i) (l', pcs(i := pc'))"
| signaled: "latch_Signaled l = (c, l') \<Longrightarrow> latch_step (l, pcs) LSignaled (l', pcs)"

inductive latch_reach :: "latch_world \<Rightarrow> bool" where
  init: "latch_reach (zero_latch, \<lambda>_. AtCas)"
| step: "latch_reach s \<Longrightarrow> latch_step s a s' \<Longrightarrow> latch_reach s'"

inductive_cases latch_stepE: "latch_step s a s'"

text \<open>At most one goroutine is past the compare-and-swap, and the channel is open until then.\<close>

definition active :: "signal_pc \<Rightarrow> bool" where
  "active pc \<longleftrightarrow> pc = AtSignal \<or> pc = AtClose"

definition latch_closed :: "latch \<Rightarrow> bool" where
  "latch_closed l \<longleftrightarrow> (\<exists>c. latch_sig l = Some c \<and> closed c)"

definition latch_inv :: "latch_world \<Rightarrow> bool" where
  "latch_inv s \<longleftrightarrow>
     (\<forall>i. snd s i \<noteq> Panicked_pc) \<and>
     (\<forall>i k. active (snd s i) \<longrightarrow> active (snd s k) \<longrightarrow> i = k) \<and>
     (\<not> latched (fst s) \<longrightarrow> (\<forall>i. snd s i = AtCas) \<and> \<not> latch_closed (fst s)) \<and>
     (\<forall>i. active (snd s i) \<longrightarrow> \<not> latch_closed (fst s)) \<and>
     (latched (fst s) \<longrightarrow> (\<forall>i. \<not> active (snd s i)) \<longrightarrow> latch_closed (fst s)) \<and>
     (\<forall>i. snd s i = AtClose \<longrightarrow> latch_sig (fst s) \<noteq> None) \<and>
     (\<forall>c. latch_sig (fst s) = Some c \<longrightarrow> buffer c = [])"

lemma latch_invI:
  assumes "\<And>i. pcs i \<noteq> Panicked_pc" "\<And>i k. active (pcs i) \<Longrightarrow> active (pcs k) \<Longrightarrow> i = k"
    "\<And>i. \<not> latched l \<Longrightarrow> pcs i = AtCas" "\<not> latched l \<Longrightarrow> \<not> latch_closed l"
    "\<And>i. active (pcs i) \<Longrightarrow> \<not> latch_closed l"
    "latched l \<Longrightarrow> \<forall>i. \<not> active (pcs i) \<Longrightarrow> latch_closed l"
    "\<And>i. pcs i = AtClose \<Longrightarrow> latch_sig l \<noteq> None"
    "\<And>c. latch_sig l = Some c \<Longrightarrow> buffer c = []"
  shows "latch_inv (l, pcs)"
  unfolding latch_inv_def fst_conv snd_conv using assms by blast

lemma latch_invD:
  assumes "latch_inv (l, pcs)"
  shows "pcs i \<noteq> Panicked_pc" "active (pcs i) \<Longrightarrow> active (pcs k) \<Longrightarrow> i = k"
    "\<not> latched l \<Longrightarrow> pcs i = AtCas" "\<not> latched l \<Longrightarrow> \<not> latch_closed l"
    "active (pcs i) \<Longrightarrow> \<not> latch_closed l"
    "latched l \<Longrightarrow> \<forall>i. \<not> active (pcs i) \<Longrightarrow> latch_closed l"
    "pcs i = AtClose \<Longrightarrow> latch_sig l \<noteq> None"
    "latch_sig l = Some c \<Longrightarrow> buffer c = []"
  using assms unfolding latch_inv_def fst_conv snd_conv by blast+

lemma active_simps [simp]:
  "active AtSignal" "active AtClose" "\<not> active AtCas" "\<not> active Returned_pc" "\<not> active Panicked_pc"
  by (simp_all add: active_def)

lemma latch_inv_init: "latch_inv (zero_latch, \<lambda>_. AtCas)"
  by (rule latch_invI) (simp_all add: zero_latch_def latch_closed_def)

lemma latch_inv_signal_created:
  assumes "latch_inv (l, pcs)" and "latch_sig l = None"
  shows "latch_inv (l\<lparr>latch_sig := Some (make_chan 0)\<rparr>, pcs)"
  using assms(2) latch_invD [OF assms(1)] by (intro latch_invI) (auto simp: latch_closed_def make_chan_def)

lemma latch_inv_update:
  assumes inv: "latch_inv (l, pcs)" and "pc' \<noteq> Panicked_pc" and "active pc' \<longleftrightarrow> active (pcs i)"
    and "pc' = AtClose \<Longrightarrow> latch_sig l \<noteq> None" and "latched l"
  shows "latch_inv (l, pcs(i := pc'))"
proof (rule latch_invI)
  have act: "active ((pcs(i := pc')) m) \<longleftrightarrow> active (pcs m)" for m using assms(3) by simp
  show "k = m" if "active ((pcs(i := pc')) k)" "active ((pcs(i := pc')) m)" for k m
    using that latch_invD(2) [OF inv] unfolding act by blast
  show "\<not> latch_closed l" if "active ((pcs(i := pc')) k)" for k
    using that latch_invD(5) [OF inv] unfolding act by blast
  show "latch_closed l" if "\<forall>k. \<not> active ((pcs(i := pc')) k)"
    using that latch_invD(6) [OF inv] assms(5) unfolding act by blast
qed (use assms latch_invD [OF inv] in \<open>auto split: if_splits\<close>)

text \<open>The three steps of \<open>Signal\<close> one by one.\<close>

lemma latch_inv_cas:
  assumes inv: "latch_inv (l, pcs)" and pc: "pcs i = AtCas" and step: "latch_Signal_step AtCas l = (pc', l')"
  shows "latch_inv (l', pcs(i := pc'))"
proof (cases "latched l")
  case True
  with step have eq: "pc' = Returned_pc" "l' = l" by auto
  show ?thesis unfolding eq by (rule latch_inv_update [OF inv]) (simp_all add: pc True)
next
  case False
  with step have eq: "pc' = AtSignal" "l' = l\<lparr>latched := True\<rparr>" by auto
  have all: "pcs k = AtCas" for k using latch_invD(3) [OF inv] False by blast
  show ?thesis unfolding eq
    by (rule latch_invI) (use all latch_invD(4,8) [OF inv] False in \<open>auto simp: latch_closed_def split: if_splits\<close>)
qed

lemma latch_inv_signal:
  assumes inv: "latch_inv (l, pcs)" and pc: "pcs i = AtSignal" and step: "latch_Signal_step AtSignal l = (pc', l')"
  shows "latch_inv (l', pcs(i := pc'))"
proof -
  have lt: "latched l" using latch_invD(3) [OF inv, of i] pc by auto
  show ?thesis
  proof (cases "latch_sig l")
    case None
    with step have eq: "pc' = AtClose" "l' = l\<lparr>latch_sig := Some (make_chan 0)\<rparr>" by (auto simp: latch_signal_def)
    show ?thesis unfolding eq
      by (rule latch_inv_update [OF latch_inv_signal_created [OF inv None]]) (simp_all add: pc lt)
  next
    case (Some c)
    with step have eq: "pc' = AtClose" "l' = l" by (auto simp: latch_signal_def)
    show ?thesis unfolding eq by (rule latch_inv_update [OF inv]) (simp_all add: pc lt Some)
  qed
qed

lemma latch_inv_close:
  assumes inv: "latch_inv (l, pcs)" and pc: "pcs i = AtClose" and step: "latch_Signal_step AtClose l = (pc', l')"
  shows "latch_inv (l', pcs(i := pc'))"
proof -
  obtain c where c: "latch_sig l = Some c" "\<not> closed c"
    using latch_invD(5,7) [OF inv, of i] pc by (auto simp: latch_closed_def)
  then have eq: "pc' = Returned_pc" "l' = l\<lparr>latch_sig := Some (c\<lparr>closed := True\<rparr>)\<rparr>"
    using step by (auto simp: chan_close_def)
  have only: "\<not> active (pcs k)" if "k \<noteq> i" for k using latch_invD(2) [OF inv, of k i] pc that by auto
  have lt: "latched l" using latch_invD(3) [OF inv, of i] pc by auto
  show ?thesis unfolding eq
    by (rule latch_invI) (use only latch_invD(1,8) [OF inv] lt c in \<open>auto simp: latch_closed_def split: if_splits\<close>)
qed

lemma latch_inv_step: "latch_step s a s' \<Longrightarrow> latch_inv s \<Longrightarrow> latch_inv s'"
proof (induction rule: latch_step.induct)
  case (signal pcs i l pc' l')
  show ?case
  proof (cases "pcs i")
    case AtCas
    then show ?thesis using signal.hyps by (intro latch_inv_cas [OF signal.prems]) metis+
  next
    case AtSignal
    then show ?thesis using signal.hyps by (intro latch_inv_signal [OF signal.prems]) metis+
  next
    case AtClose
    then show ?thesis using signal.hyps by (intro latch_inv_close [OF signal.prems]) metis+
  next
    case Returned_pc
    then show ?thesis using signal by (simp add: fun_upd_idem)
  next
    case Panicked_pc
    then show ?thesis using latch_invD(1) [OF signal.prems, of i] by simp
  qed
next
  case (signaled l c l' pcs)
  then show ?case
    using latch_inv_signal_created by (auto simp: latch_Signaled_def latch_signal_def split: option.splits)
qed

lemma latch_reach_inv: "latch_reach s \<Longrightarrow> latch_inv s"
  by (induction rule: latch_reach.induct) (use latch_inv_init latch_inv_step in blast)+

section \<open>Events\<close>

record event =
  event_sig :: "unit chan option"

definition zero_event :: event where
  "zero_event = \<lparr>event_sig = None\<rparr>"

definition event_signal :: "event \<Rightarrow> unit chan \<times> event" where
  "event_signal e =
     (case event_sig e of
        Some c \<Rightarrow> (c, e)
      | None \<Rightarrow> (make_chan 1, e\<lparr>event_sig := Some (make_chan 1)\<rparr>))"

definition event_Signaled :: "event \<Rightarrow> unit chan \<times> event" where
  "event_Signaled e = event_signal e"

text \<open>A send in a \<open>select\<close> with a default case: when it would block nothing happens.\<close>

definition event_Signal :: "event \<Rightarrow> event chan_op" where
  "event_Signal e =
     (let (c, e') = event_signal e
      in case chan_send () c of
           Proceeds c' \<Rightarrow> Proceeds (e'\<lparr>event_sig := Some c'\<rparr>)
         | WouldBlock \<Rightarrow> Proceeds e'
         | ChanPanic t \<Rightarrow> ChanPanic t)"

text \<open>What other goroutines do with an event: signal it, or try to read its channel.\<close>

datatype event_op = ESignal | ERead

fun event_run :: "event_op list \<Rightarrow> event \<Rightarrow> event chan_op" where
  "event_run [] e = Proceeds e"
| "event_run (ESignal # ops) e =
     (case event_Signal e of Proceeds e' \<Rightarrow> event_run ops e' | WouldBlock \<Rightarrow> WouldBlock | ChanPanic t \<Rightarrow> ChanPanic t)"
| "event_run (ERead # ops) e =
     (let (c, e') = event_Signaled e
      in case chan_recv c of
           Proceeds (_, c') \<Rightarrow> event_run ops (e'\<lparr>event_sig := Some c'\<rparr>)
         | _ \<Rightarrow> event_run ops e')"

text \<open>The specification: a flag that a signal sets and a read clears.\<close>

fun event_spec :: "event_op list \<Rightarrow> bool \<Rightarrow> bool" where
  "event_spec [] b = b"
| "event_spec (ESignal # ops) b = event_spec ops True"
| "event_spec (ERead # ops) b = event_spec ops False"

definition event_abs :: "event \<Rightarrow> bool \<Rightarrow> bool" where
  "event_abs e b \<longleftrightarrow> (case event_sig e of
     None \<Rightarrow> \<not> b | Some c \<Rightarrow> c = \<lparr>capacity = 1, buffer = (if b then [()] else []), closed = False\<rparr>)"

lemma event_run_abs: "event_abs e b \<Longrightarrow> \<exists>e'. event_run ops e = Proceeds e' \<and> event_abs e' (event_spec ops b)"
proof (induction ops arbitrary: e b)
  case Nil
  then show ?case by simp
next
  case (Cons op ops)
  show ?case
  proof (cases op)
    case ESignal
    have "\<exists>e'. event_Signal e = Proceeds e' \<and> event_abs e' True"
      using Cons.prems
      by (auto simp: event_Signal_def event_signal_def event_abs_def chan_send_def make_chan_def
          split: option.splits)
    then show ?thesis using Cons.IH ESignal by auto
  next
    case ERead
    have "event_run (ERead # ops) e = event_run ops e \<and> event_abs e False \<or>
        (\<exists>e'. event_run (ERead # ops) e = event_run ops e' \<and> event_abs e' False)"
      using Cons.prems
      by (auto simp: event_Signaled_def event_signal_def event_abs_def chan_recv_def make_chan_def
          split: option.splits if_splits)
    then show ?thesis using Cons.IH ERead by (metis event_spec.simps(3))
  qed
qed

section \<open>Exchanges\<close>

text \<open>
  A \<open>Failable\<close> has both fields; the methods of an exchange send one on the response channel.
  The zero value of the result type is a parameter.
\<close>

record ('v, 'x) Failable =
  f_value :: 'v
  f_err :: "'x option"

definition Failable_Get :: "('v, 'x) Failable \<Rightarrow> 'v \<times> 'x option" where
  "Failable_Get f = (f_value f, f_err f)"

record ('q, 'v, 'x) Exchange =
  Request :: 'q
  Response :: "('v, 'x) Failable chan"

definition Exchange_New :: "'q \<Rightarrow> ('q, 'v, 'x) Exchange" where
  "Exchange_New req = \<lparr>Request = req, Response = make_chan 1\<rparr>"

definition Exchange_Ok :: "'v \<Rightarrow> ('q, 'v, 'x) Exchange \<Rightarrow> ('v, 'x) Failable chan chan_op" where
  "Exchange_Ok res e = chan_send \<lparr>f_value = res, f_err = None\<rparr> (Response e)"

definition Exchange_Zero :: "'v \<Rightarrow> ('q, 'v, 'x) Exchange \<Rightarrow> ('v, 'x) Failable chan chan_op" where
  "Exchange_Zero zero e = chan_send \<lparr>f_value = zero, f_err = None\<rparr> (Response e)"

definition Exchange_Err :: "'v \<Rightarrow> 'x \<Rightarrow> ('q, 'v, 'x) Exchange \<Rightarrow> ('v, 'x) Failable chan chan_op" where
  "Exchange_Err zero x e = chan_send \<lparr>f_value = zero, f_err = Some x\<rparr> (Response e)"

text \<open>
  \<open>Do\<close>: a \<open>select\<close> between the context and the (unbuffered) queue, then one between the
  context and the response. \<open>handler\<close> is what the receiver of the exchange does with the
  response channel before the second one.
\<close>

datatype 'x select_do = DoDone 'x | DoProceed

definition Exchange_Do ::
  "'v \<Rightarrow> 'x select_do \<Rightarrow> 'x select_do \<Rightarrow>
   (('q, 'v, 'x) Exchange \<Rightarrow> ('v, 'x) Failable chan chan_op) \<Rightarrow> 'q \<Rightarrow> ('v \<times> 'x option) chan_op" where
  "Exchange_Do zero sel1 sel2 handler req =
     (let ex = Exchange_New req
      in case sel1 of
           DoDone x \<Rightarrow> Proceeds (zero, Some x)
         | DoProceed \<Rightarrow>
             (case sel2 of
                DoDone x \<Rightarrow> Proceeds (zero, Some x)
              | DoProceed \<Rightarrow>
                  (case handler ex of
                     Proceeds c \<Rightarrow>
                       (case chan_recv c of
                          Proceeds (Some f, _) \<Rightarrow> Proceeds (Failable_Get f)
                        | Proceeds (None, _) \<Rightarrow> Proceeds (zero, None)
                        | WouldBlock \<Rightarrow> WouldBlock
                        | ChanPanic t \<Rightarrow> ChanPanic t)
                   | WouldBlock \<Rightarrow> WouldBlock
                   | ChanPanic t \<Rightarrow> ChanPanic t)))"

section \<open>Acknowledged queues\<close>

datatype ack_error = ErrNack

record 'v ack_request =
  Value :: 'v
  Acknowledgement :: "ack_error option chan"

definition Queue_New :: "'v \<Rightarrow> 'v ack_request" where
  "Queue_New v = \<lparr>Value = v, Acknowledgement = make_chan 1\<rparr>"

definition Ack :: "'v ack_request \<Rightarrow> ack_error option chan chan_op" where
  "Ack r = chan_send None (Acknowledgement r)"

definition Nack :: "'v ack_request \<Rightarrow> ack_error option chan chan_op" where
  "Nack r = chan_send (Some ErrNack) (Acknowledgement r)"

datatype 'x push_error = PushCtx 'x | PushAck ack_error

definition Push ::
  "'x select_do \<Rightarrow> 'x select_do \<Rightarrow> ('v ack_request \<Rightarrow> ack_error option chan chan_op) \<Rightarrow> 'v \<Rightarrow>
   'x push_error option chan_op" where
  "Push sel1 sel2 handler v =
     (let req = Queue_New v
      in case sel1 of
           DoDone x \<Rightarrow> Proceeds (Some (PushCtx x))
         | DoProceed \<Rightarrow>
             (case sel2 of
                DoDone x \<Rightarrow> Proceeds (Some (PushCtx x))
              | DoProceed \<Rightarrow>
                  (case handler req of
                     Proceeds c \<Rightarrow>
                       (case chan_recv c of
                          Proceeds (Some a, _) \<Rightarrow> Proceeds (map_option PushAck a)
                        | Proceeds (None, _) \<Rightarrow> Proceeds None
                        | WouldBlock \<Rightarrow> WouldBlock
                        | ChanPanic t \<Rightarrow> ChanPanic t)
                   | WouldBlock \<Rightarrow> WouldBlock
                   | ChanPanic t \<Rightarrow> ChanPanic t)))"

text \<open>
  The channel of a queue is made when it is first needed, by \<open>Recv\<close> or \<open>Send\<close>
  (\<open>None\<close>: not yet).
\<close>

definition ack_channel :: "'v ack_request chan option \<Rightarrow> 'v ack_request chan \<times> 'v ack_request chan option" where
  "ack_channel q = (case q of None \<Rightarrow> (make_chan 0, Some (make_chan 0)) | Some c \<Rightarrow> (c, q))"

definition ack_Recv :: "'v ack_request chan option \<Rightarrow> 'v ack_request chan \<times> 'v ack_request chan option" where
  "ack_Recv q = ack_channel q"

definition ack_Send :: "'v ack_request chan option \<Rightarrow> 'v ack_request chan \<times> 'v ack_request chan option" where
  "ack_Send q = ack_channel q"

definition getQueue ::
  "('q, 'v, 'x) Exchange chan option \<Rightarrow> ('q, 'v, 'x) Exchange chan \<times> ('q, 'v, 'x) Exchange chan option" where
  "getQueue q = (case q of None \<Rightarrow> (make_chan 0, Some (make_chan 0)) | Some c \<Rightarrow> (c, q))"

definition exchange_Recv ::
  "('q, 'v, 'x) Exchange chan option \<Rightarrow> ('q, 'v, 'x) Exchange chan \<times> ('q, 'v, 'x) Exchange chan option" where
  "exchange_Recv q = getQueue q"

definition exchange_Send ::
  "('q, 'v, 'x) Exchange chan option \<Rightarrow> ('q, 'v, 'x) Exchange chan \<times> ('q, 'v, 'x) Exchange chan option" where
  "exchange_Send q = getQueue q"

lemma queues_same_channel:
  "fst (ack_Send (snd (ack_Recv q))) = fst (ack_Recv q)" "fst (ack_Recv (snd (ack_Send q))) = fst (ack_Send q)"
  "fst (exchange_Send (snd (exchange_Recv r))) = fst (exchange_Recv r)"
  "fst (exchange_Recv (snd (exchange_Send r))) = fst (exchange_Send r)"
  by (auto simp: ack_Recv_def ack_Send_def ack_channel_def exchange_Recv_def exchange_Send_def getQueue_def
    split: option.split)

lemmas chan_defs = make_chan_def chan_send_def chan_recv_def chan_close_def

lemma Push_outcome:
  "Push DoProceed DoProceed Ack v = Proceeds None"
  "Push DoProceed DoProceed Nack v = Proceeds (Some (PushAck ErrNack))"
  by (simp_all add: Push_def Ack_def Nack_def Queue_New_def chan_defs)

section \<open>Topics\<close>

text \<open>
  Channels are numbers here, \<open>None\<close> is nil. \<open>unsubscribed\<close> names the channels of that
  role that have been closed, and \<open>fresh\<close> the next channel that \<open>make\<close> returns.
\<close>

record subscriber =
  messages :: "nat option"
  unsubscribed :: "nat option"

record topic =
  subscribers :: "subscriber list"
  closed_chans :: "nat list"
  fresh :: nat

definition zero_subscriber :: subscriber where
  "zero_subscriber = \<lparr>messages = None, unsubscribed = None\<rparr>"

definition Subscribe :: "nat option \<Rightarrow> topic \<Rightarrow> topic" where
  "Subscribe ch t = t\<lparr>
     subscribers := subscribers t @ [\<lparr>messages = ch, unsubscribed = Some (fresh t)\<rparr>],
     fresh := Suc (fresh t)\<rparr>"

text \<open>
  The loop of \<open>Unsubscribe\<close> ranges over the slice as it was (\<open>n0\<close> elements), reads each
  element from the array that the loop itself changes, and shortens the slice to \<open>n\<close>.
\<close>

function unsubscribe_loop ::
  "nat option \<Rightarrow> nat \<Rightarrow> nat \<Rightarrow> subscriber list \<Rightarrow> nat \<Rightarrow> nat list \<Rightarrow> (subscriber list \<times> nat list) chan_op" where
  "unsubscribe_loop ch n0 i arr n cs =
     (if n0 \<le> i then Proceeds (take n arr, cs)
      else let sub = arr ! i
      in if messages sub = ch
         then if n \<le> i then ChanPanic ''index out of range''
              else (let arr' = (arr[i := arr ! (n - 1)])[n - 1 := zero_subscriber]
                    in case unsubscribed sub of
                         None \<Rightarrow> ChanPanic ''close of nil channel''
                       | Some c \<Rightarrow> if c \<in> set cs then ChanPanic ''close of closed channel''
                           else unsubscribe_loop ch n0 (Suc i) arr' (n - 1) (c # cs))
         else unsubscribe_loop ch n0 (Suc i) arr n cs)"
  by pat_completeness auto

termination unsubscribe_loop
  by (relation "measure (\<lambda>(ch, n0, i, arr, n, cs). n0 - i)") auto

declare unsubscribe_loop.simps [simp del]

definition Unsubscribe :: "nat option \<Rightarrow> topic \<Rightarrow> topic chan_op" where
  "Unsubscribe ch t =
     (let n = length (subscribers t)
      in case unsubscribe_loop ch n 0 (subscribers t) n (closed_chans t) of
           Proceeds (subs, cs) \<Rightarrow> Proceeds (t\<lparr>subscribers := subs, closed_chans := cs\<rparr>)
         | WouldBlock \<Rightarrow> WouldBlock
         | ChanPanic p \<Rightarrow> ChanPanic p)"

text \<open>
  One message of \<open>run\<close>, sent to a clone of the subscribers: each \<open>select\<close> is told whether
  the send was taken, or the closed channel. \<open>None\<close>: that case was not ready.
\<close>

fun topic_deliver :: "nat list \<Rightarrow> 'm \<Rightarrow> subscriber list \<Rightarrow> bool list \<Rightarrow> (nat option \<times> 'm) list option" where
  "topic_deliver cs m [] sels = Some []"
| "topic_deliver cs m (sub # subs) [] = None"
| "topic_deliver cs m (sub # subs) (sent # sels) =
     (if sent then map_option (\<lambda>l. (messages sub, m) # l) (topic_deliver cs m subs sels)
      else if unsubscribed sub \<in> Some ` set cs then topic_deliver cs m subs sels
      else None)"

text \<open>
  The goroutine of a topic, over the messages that it receives until the channel is closed. With
  each come the clone of the subscribers that it makes, the channels that are closed while it
  delivers, and the cases of the \<open>select\<close>s.
\<close>

fun topic_run :: "('m \<times> subscriber list \<times> nat list \<times> bool list) list \<Rightarrow> (nat option \<times> 'm) list option" where
  "topic_run [] = Some []"
| "topic_run ((m, subs, cs, sels) # ms) =
     (case topic_deliver cs m subs sels of
        None \<Rightarrow> None
      | Some sent \<Rightarrow> map_option (\<lambda>l. sent @ l) (topic_run ms))"

text \<open>
  The other side: \<open>Publish\<close> makes the channel and starts the goroutine unless the channel
  has been made before, and \<open>Close\<close> makes it without starting the goroutine.
\<close>

record 'm topic_chan =
  topic_pub :: "'m chan option"
  goroutines :: nat

definition Publish :: "'m topic_chan \<Rightarrow> 'm chan \<times> 'm topic_chan" where
  "Publish t =
     (case topic_pub t of
        None \<Rightarrow> (make_chan 0, t\<lparr>topic_pub := Some (make_chan 0), goroutines := Suc (goroutines t)\<rparr>)
      | Some c \<Rightarrow> (c, t))"

definition Close :: "'m topic_chan \<Rightarrow> 'm topic_chan chan_op" where
  "Close t =
     (let c = (case topic_pub t of None \<Rightarrow> make_chan 0 | Some c \<Rightarrow> c)
      in case chan_close c of
           Proceeds c' \<Rightarrow> Proceeds (t\<lparr>topic_pub := Some c'\<rparr>)
         | WouldBlock \<Rightarrow> WouldBlock
         | ChanPanic p \<Rightarrow> ChanPanic p)"

datatype topic_op = TopicPublish | TopicClose

fun topic_ops :: "topic_op list \<Rightarrow> 'm topic_chan \<Rightarrow> 'm topic_chan chan_op" where
  "topic_ops [] t = Proceeds t"
| "topic_ops (TopicPublish # ops) t = topic_ops ops (snd (Publish t))"
| "topic_ops (TopicClose # ops) t =
     (case Close t of Proceeds t' \<Rightarrow> topic_ops ops t' | WouldBlock \<Rightarrow> WouldBlock | ChanPanic p \<Rightarrow> ChanPanic p)"

lemma topic_ops_opened:
  "topic_pub t = Some c \<Longrightarrow>
     (case topic_ops ops t of
        Proceeds t' \<Rightarrow> goroutines t' = goroutines t \<and>
          topic_pub t' = Some (c\<lparr>closed := closed c \<or> TopicClose \<in> set ops\<rparr>) \<and>
          count_list ops TopicClose \<le> (if closed c then 0 else 1)
      | WouldBlock \<Rightarrow> False
      | ChanPanic p \<Rightarrow> (if closed c then 0 else 1) < count_list ops TopicClose)"
proof (induction ops arbitrary: t c)
  case (Cons x ops)
  show ?case
  proof (cases x)
    case TopicPublish
    with Cons show ?thesis by (simp add: Publish_def cong: chan_op.case_cong)
  next
    case TopicClose
    with Cons.prems Cons.IH [of "t\<lparr>topic_pub := Some (c\<lparr>closed := True\<rparr>)\<rparr>" "c\<lparr>closed := True\<rparr>"] show ?thesis
      by (auto simp: Close_def chan_close_def split: chan_op.splits)
  qed
qed simp

text \<open>
  However a topic is published to and closed, at most one goroutine is started, only one close
  succeeds, and a topic that is closed before it is published to never delivers: the channel is
  closed and there is no goroutine.
\<close>

lemma topic_lifecycle:
  assumes "topic_pub t = None" and "goroutines t = 0" and "ops \<noteq> []"
  shows "case topic_ops ops t of
     Proceeds t' \<Rightarrow> goroutines t' = (if hd ops = TopicPublish then 1 else 0) \<and>
       topic_pub t' = Some ((make_chan 0)\<lparr>closed := TopicClose \<in> set ops\<rparr>) \<and> count_list ops TopicClose \<le> 1
   | WouldBlock \<Rightarrow> False
   | ChanPanic p \<Rightarrow> 1 < count_list ops TopicClose"
proof (cases ops)
  case (Cons x ops')
  show ?thesis
  proof (cases x)
    case TopicPublish
    with Cons assms topic_ops_opened [of "t\<lparr>topic_pub := Some (make_chan 0), goroutines := 1\<rparr>" "make_chan 0" ops']
    show ?thesis by (auto simp: Publish_def make_chan_def split: chan_op.splits)
  next
    case TopicClose
    with Cons assms topic_ops_opened [of "t\<lparr>topic_pub := Some ((make_chan 0)\<lparr>closed := True\<rparr>)\<rparr>"
        "(make_chan 0)\<lparr>closed := True\<rparr>" ops']
    show ?thesis by (auto simp: Close_def chan_close_def make_chan_def split: chan_op.splits)
  qed
qed (use assms in simp)

definition topic_wf :: "topic \<Rightarrow> bool" where
  "topic_wf t \<longleftrightarrow>
     (\<forall>s \<in> set (subscribers t). messages s \<noteq> None \<and>
        (\<exists>c. unsubscribed s = Some c \<and> c < fresh t \<and> c \<notin> set (closed_chans t))) \<and>
     distinct (map unsubscribed (subscribers t)) \<and> (\<forall>c \<in> set (closed_chans t). c < fresh t)"

lemma unsubscribe_loop_skip:
  "\<forall>k. i \<le> k \<longrightarrow> k < n0 \<longrightarrow> messages (arr ! k) \<noteq> ch \<Longrightarrow> unsubscribe_loop ch n0 i arr n cs = Proceeds (take n arr, cs)"
proof (induction "n0 - i" arbitrary: i)
  case 0
  then show ?case by (subst unsubscribe_loop.simps) simp
next
  case (Suc d)
  then have "unsubscribe_loop ch n0 (Suc i) arr n cs = Proceeds (take n arr, cs)" by simp
  moreover have "messages (arr ! i) \<noteq> ch" "\<not> n0 \<le> i" using Suc by auto
  ultimately show ?case by (subst unsubscribe_loop.simps) (simp add: Let_def)
qed

lemma unsubscribe_loop_seek:
  assumes "i \<le> k" "k \<le> n0" and "\<forall>m. i \<le> m \<longrightarrow> m < k \<longrightarrow> messages (arr ! m) \<noteq> ch"
  shows "unsubscribe_loop ch n0 i arr n cs = unsubscribe_loop ch n0 k arr n cs"
  using assms
proof (induction "k - i" arbitrary: i)
  case 0
  then show ?case by simp
next
  case (Suc d)
  then have "unsubscribe_loop ch n0 (Suc i) arr n cs = unsubscribe_loop ch n0 k arr n cs" by simp
  moreover have "messages (arr ! i) \<noteq> ch" "\<not> n0 \<le> i" using Suc by auto
  ultimately show ?case by (subst unsubscribe_loop.simps) (simp add: Let_def)
qed

definition swap_remove :: "nat \<Rightarrow> 'a list \<Rightarrow> 'a list" where
  "swap_remove k xs = butlast (xs[k := last xs])"

lemma swap_remove_array:
  assumes "k < length xs"
  shows "take (length xs - 1) ((xs[k := xs ! (length xs - 1)])[length xs - 1 := z]) = swap_remove k xs"
proof -
  have ne: "xs \<noteq> []" using assms by auto
  show ?thesis
    unfolding swap_remove_def butlast_conv_take last_conv_nth [OF ne]
    by (simp add: take_update_cancel)
qed

lemma mset_swap_remove:
  assumes "k < length xs"
  shows "mset (swap_remove k xs) = mset xs - {#xs ! k#}"
proof (cases "k = length xs - 1")
  case True
  have ne: "xs \<noteq> []" using assms by auto
  then have "xs = butlast xs @ [last xs]" by simp
  then have "mset xs = mset (butlast xs) + {#last xs#}" by (metis mset_append mset_single_iff_right)
  moreover have "swap_remove k xs = butlast xs"
    using True ne by (simp add: swap_remove_def last_conv_nth)
  ultimately show ?thesis using True ne by (simp add: last_conv_nth)
next
  case False
  have ne: "xs \<noteq> []" using assms by auto
  have "swap_remove k xs = (butlast xs)[k := last xs]"
    using False assms by (simp add: swap_remove_def butlast_list_update)
  moreover have "butlast xs ! k = xs ! k" "k < length (butlast xs)"
    using False assms by (simp_all add: nth_butlast)
  moreover have "mset xs = mset (butlast xs) + {#last xs#}"
    using ne by (metis append_butlast_last_id mset_append mset.simps(1) mset.simps(2) add_mset_add_single)
  moreover have "xs ! k \<in># mset (butlast xs)"
    using calculation(2,3) by (metis nth_mem set_mset_mset)
  ultimately show ?thesis
    by (simp add: mset_update)
qed

lemma Unsubscribe_present:
  assumes k: "k < length (subscribers t)" "messages (subscribers t ! k) = Some m"
    "unsubscribed (subscribers t ! k) = Some c" "c \<notin> set (closed_chans t)"
    and d: "distinct (map messages (subscribers t))"
  shows "Unsubscribe (Some m) t = Proceeds (t\<lparr>subscribers := swap_remove k (subscribers t),
    closed_chans := c # closed_chans t\<rparr>)"
proof -
  let ?s = "subscribers t" and ?n = "length (subscribers t)"
  let ?a = "(?s[k := ?s ! (?n - 1)])[?n - 1 := zero_subscriber]"
  have other: "messages (?s ! i) \<noteq> Some m" if "i < ?n" "i \<noteq> k" for i
    using nth_eq_iff_index_eq [OF d, of i k] that k(1,2) by auto
  have "unsubscribe_loop (Some m) ?n 0 ?s ?n (closed_chans t) = unsubscribe_loop (Some m) ?n k ?s ?n (closed_chans t)"
    by (rule unsubscribe_loop_seek) (use k other in auto)
  also have "\<dots> = unsubscribe_loop (Some m) ?n (Suc k) ?a (?n - 1) (c # closed_chans t)"
    by (subst unsubscribe_loop.simps) (use k in \<open>simp add: Let_def not_le\<close>)
  also have "\<dots> = Proceeds (take (?n - 1) ?a, c # closed_chans t)"
  proof (rule unsubscribe_loop_skip, intro allI impI)
    fix i assume i: "Suc k \<le> i" "i < ?n"
    then show "messages (?a ! i) \<noteq> Some m"
      using other [of i] by (cases "i = ?n - 1") (auto simp: zero_subscriber_def)
  qed
  also have "take (?n - 1) ?a = swap_remove k ?s" by (rule swap_remove_array [OF k(1)])
  finally show ?thesis by (simp add: Unsubscribe_def Let_def)
qed

lemma Unsubscribe_absent:
  assumes "Some m \<notin> set (map messages (subscribers t))"
  shows "Unsubscribe (Some m) t = Proceeds t"
proof -
  have "messages (subscribers t ! k) \<noteq> Some m" if "k < length (subscribers t)" for k
    using assms that by (metis in_set_conv_nth length_map nth_map)
  then have "unsubscribe_loop (Some m) (length (subscribers t)) 0 (subscribers t) (length (subscribers t))
      (closed_chans t) = Proceeds (subscribers t, closed_chans t)"
    by (subst unsubscribe_loop_skip) simp_all
  then show ?thesis by (simp add: Unsubscribe_def Let_def)
qed

text \<open>
  A published message goes to the subscribers of that moment in the order of their subscriptions,
  at most once to each, and is skipped only for those that have unsubscribed.
\<close>

lemma topic_deliver_subseq:
  "topic_deliver cs m subs sels = Some log \<Longrightarrow>
     subseq log (map (\<lambda>s. (messages s, m)) subs) \<and>
     subseq (map (\<lambda>s. (messages s, m)) (filter (\<lambda>s. unsubscribed s \<notin> Some ` set cs) subs)) log"
proof (induction cs m subs sels arbitrary: log rule: topic_deliver.induct)
  case (3 cs m sub subs sent sels)
  then show ?case by (auto split: if_splits)
qed auto

lemma distinct_removed:
  assumes "mset ys = mset xs - {#x#}" "x \<in> set xs" "distinct (map f xs)"
  shows "distinct (map f ys)" "f x \<notin> set (map f ys)"
proof -
  have "mset (map f xs) = add_mset (f x) (mset (map f ys))" using assms(1,2) by (simp add: image_mset_Diff)
  then have "distinct (f x # map f ys)" using assms(3) by (metis mset.simps(2) mset_eq_imp_distinct_iff)
  then show "distinct (map f ys)" "f x \<notin> set (map f ys)" by simp_all
qed

lemma topic_wf_removed:
  assumes wf: "topic_wf t" and s: "s \<in> set (subscribers t)" and c: "unsubscribed s = Some c" "c < fresh t" "c \<notin> set (closed_chans t)"
    and ms: "mset (subscribers t') = mset (subscribers t) - {#s#}"
    and t': "closed_chans t' = c # closed_chans t" "fresh t' = fresh t"
  shows "topic_wf t'"
  unfolding topic_wf_def
proof (intro conjI)
  have "distinct (map unsubscribed (subscribers t))" using wf by (simp add: topic_wf_def)
  note d = distinct_removed [OF ms s this]
  show "distinct (map unsubscribed (subscribers t'))" by (rule d(1))
  show "\<forall>c\<in>set (closed_chans t'). c < fresh t'" using wf c(2) by (simp add: topic_wf_def t')
  have sub: "set (subscribers t') \<subseteq> set (subscribers t)" using ms by (metis set_mset_mset in_diffD subsetI)
  show "\<forall>r\<in>set (subscribers t'). messages r \<noteq> None \<and>
      (\<exists>c. unsubscribed r = Some c \<and> c < fresh t' \<and> c \<notin> set (closed_chans t'))"
  proof
    fix r assume r: "r \<in> set (subscribers t')"
    then have "unsubscribed r \<noteq> Some c" using d(2) c(1) by force
    with r show "messages r \<noteq> None \<and> (\<exists>c. unsubscribed r = Some c \<and> c < fresh t' \<and> c \<notin> set (closed_chans t'))"
      using wf sub by (auto simp: topic_wf_def t')
  qed
qed

section \<open>Properties\<close>

text \<open>
C36: However the goroutines that signal and read a latch interleave, its channel is closed at
most once (no goroutine panics), and it is readable exactly when some goroutine has latched it
and none is still between the compare-and-swap and the close.
\<close>

theorem latch_Signal_safe:
  assumes "latch_reach (l, pcs)"
  shows "pcs i \<noteq> Panicked_pc \<and>
    (readable (fst (latch_Signaled l)) \<longleftrightarrow> latched l \<and> (\<forall>k. pcs k \<noteq> AtSignal \<and> pcs k \<noteq> AtClose))"
proof -
  note inv = latch_invD [OF latch_reach_inv [OF assms]]
  have "readable (fst (latch_Signaled l)) \<longleftrightarrow> latch_closed l"
    using inv(8) by (auto simp: latch_Signaled_def latch_signal_def latch_closed_def readable_def chan_defs
        split: option.splits)
  moreover have "latch_closed l \<longleftrightarrow> latched l \<and> (\<forall>k. \<not> active (pcs k))"
    using inv(4-6) by blast
  ultimately show ?thesis using inv(1) by (simp add: active_def)
qed

theorem latch_Signal_safe_witness:
  "\<exists>l pcs. latch_reach (l, pcs) \<and> pcs 0 = Returned_pc \<and> readable (fst (latch_Signaled l))"
proof -
  let ?c = "make_chan 0 :: unit chan"
  have "latch_reach (zero_latch, \<lambda>_. AtCas)" by (rule latch_reach.init)
  then have "latch_reach (zero_latch\<lparr>latched := True\<rparr>, (\<lambda>_. AtCas)(0 := AtSignal))"
    by (rule latch_reach.step [where a = "LSignal 0"]) (rule latch_step.signal, simp add: zero_latch_def)
  then have "latch_reach (\<lparr>latch_sig = Some ?c, latched = True\<rparr>, (\<lambda>_. AtCas)(0 := AtSignal, 0 := AtClose))"
    by (rule latch_reach.step [where a = "LSignal 0"])
      (rule latch_step.signal, simp add: zero_latch_def latch_signal_def)
  then have r: "latch_reach (\<lparr>latch_sig = Some (?c\<lparr>closed := True\<rparr>), latched = True\<rparr>,
      (\<lambda>_. AtCas)(0 := AtSignal, 0 := AtClose, 0 := Returned_pc))"
    by (rule latch_reach.step [where a = "LSignal 0"])
      (rule latch_step.signal, simp add: make_chan_def chan_close_def)
  then have "readable (fst (latch_Signaled \<lparr>latch_sig = Some (?c\<lparr>closed := True\<rparr>), latched = True\<rparr>))"
    using latch_Signal_safe [OF r, of 0] by simp
  with r show ?thesis by (metis fun_upd_same)
qed

text \<open>
C37: An event is a flag: after any sequence of signals and reads, none of which blocks a
signaller or panics, its channel is readable exactly if there was a signal since the last read.
\<close>

theorem event_run_refines_flag:
  "case event_run ops zero_event of
     Proceeds e \<Rightarrow> readable (fst (event_Signaled e)) \<longleftrightarrow> event_spec ops False
   | WouldBlock \<Rightarrow> False | ChanPanic t \<Rightarrow> False"
proof -
  have "event_abs zero_event False" by (simp add: event_abs_def zero_event_def)
  from event_run_abs [OF this, of ops] show ?thesis
    by (auto simp: event_abs_def event_Signaled_def event_signal_def readable_def chan_defs split: option.splits)
qed

text \<open>
Unsubscribing a channel that is subscribed once removes exactly its subscription, closes
exactly that subscription's channel and keeps the topic well formed, so that no message is lost
for the others and a second \<open>Unsubscribe\<close> changes nothing.
\<close>

lemma Unsubscribe_removes:
  assumes "topic_wf t" and "distinct (map messages (subscribers t))"
    and "s \<in> set (subscribers t)" and "messages s = Some m"
  shows "\<exists>t'. Unsubscribe (Some m) t = Proceeds t' \<and>
    mset (subscribers t') = mset (subscribers t) - {#s#} \<and>
    Some ` set (closed_chans t') = insert (unsubscribed s) (Some ` set (closed_chans t)) \<and>
    topic_wf t' \<and> Unsubscribe (Some m) t' = Proceeds t'"
proof -
  obtain k where k: "k < length (subscribers t)" "subscribers t ! k = s"
    using assms(3) by (metis in_set_conv_nth)
  obtain c where c: "unsubscribed s = Some c" "c < fresh t" "c \<notin> set (closed_chans t)"
    using assms(1,3) by (auto simp: topic_wf_def)
  define t' where "t' = t\<lparr>subscribers := swap_remove k (subscribers t), closed_chans := c # closed_chans t\<rparr>"
  have u: "Unsubscribe (Some m) t = Proceeds t'"
    unfolding t'_def by (rule Unsubscribe_present) (use k c assms in auto)
  have ms: "mset (subscribers t') = mset (subscribers t) - {#s#}"
    using mset_swap_remove [OF k(1)] k(2) by (simp add: t'_def)
  have wf: "topic_wf t'" by (rule topic_wf_removed [OF assms(1,3) c ms]) (simp_all add: t'_def)
  have "Unsubscribe (Some m) t' = Proceeds t'"
    using distinct_removed [OF ms assms(3,2)] assms(4) by (intro Unsubscribe_absent) simp
  with u ms wf c(1) show ?thesis by (auto simp: t'_def)
qed

definition topic_example :: topic where
  "topic_example = Subscribe (Some 8) (Subscribe (Some 7)
     \<lparr>subscribers = [], closed_chans = [], fresh = 0\<rparr>)"

lemma Unsubscribe_removes_witness:
  "\<exists>t'. Unsubscribe (Some 7) topic_example = Proceeds t' \<and> length (subscribers t') = 1"
proof -
  let ?s = "\<lparr>messages = Some 7, unsubscribed = Some 0\<rparr>"
  have "topic_wf topic_example" "distinct (map messages (subscribers topic_example))"
    "?s \<in> set (subscribers topic_example)" "messages ?s = Some 7"
    by (simp_all add: topic_example_def Subscribe_def topic_wf_def)
  from Unsubscribe_removes [OF this] obtain t' where
    t': "Unsubscribe (Some 7) topic_example = Proceeds t'"
    "mset (subscribers t') = mset (subscribers topic_example) - {#?s#}" by blast
  then have "size (mset (subscribers t')) = 1" by (simp add: topic_example_def Subscribe_def)
  with t'(1) show ?thesis by auto
qed

text \<open>
A channel subscribed twice is not unsubscribed: the element swapped into the freed place
is not looked at again, so the topic keeps sending to the channel.
\<close>

lemma Unsubscribe_keeps_duplicate:
  "\<exists>t'. Unsubscribe (Some m) (Subscribe (Some m) (Subscribe (Some m)
       \<lparr>subscribers = [], closed_chans = [], fresh = 0\<rparr>)) = Proceeds t' \<and>
     map messages (subscribers t') = [Some m]"
  by (simp add: Subscribe_def Unsubscribe_def unsubscribe_loop.simps Let_def zero_subscriber_def)

end
