(* ===== verification/Fsm.thy ===== *)
theory Fsm
  imports Prelude
begin

text \<open>
  \<open>internal/fsm\<close>: the state machine runner that drives the supervisors and workers.

  A state of the Go code is a closure; here it is a name (\<open>'q\<close>, with the arguments bound by
  \<open>With\<close> as constructor arguments), and the machine is given by a function \<open>run\<close> that says
  what the state with that name does to the world \<open>'s\<close>: it returns an action, panics, or
  never returns because every channel it waits on stays silent. The error of the context
  (\<open>ctx.Err()\<close>) is read from the world.
\<close>

section \<open>Actions\<close>

text \<open>\<open>NoAction\<close> is the zero value of \<open>Action\<close>, whose \<open>apply\<close> is nil.\<close>

datatype ('q, 'e) action = Stop | Fail 'e | StayInCurrentState | EnterState 'q | NoAction

record ('q, 'e) fsm =
  current :: "'q option"
  final :: "'q option"
  err :: "'e option"

fun apply_action :: "'e option \<Rightarrow> ('q, 'e) action \<Rightarrow> ('q, 'e) fsm \<Rightarrow> ('q, 'e) fsm" where
  "apply_action ctxErr Stop m =
     m\<lparr>current := None, err := (case err m of None \<Rightarrow> ctxErr | Some e \<Rightarrow> Some e)\<rparr>"
| "apply_action ctxErr (Fail e) m = m\<lparr>current := None, err := Some e\<rparr>"
| "apply_action ctxErr StayInCurrentState m = m"
| "apply_action ctxErr (EnterState q) m = m\<lparr>current := Some q\<rparr>"
| "apply_action ctxErr NoAction m = m"

text \<open>
  \<open>With\<close> and \<open>With2\<close> bind a state to its arguments: the state that is entered is the
  one named with these arguments.
\<close>

definition With :: "'a \<Rightarrow> ('a \<Rightarrow> 'q) \<Rightarrow> ('q, 'e) action" where
  "With v1 s = EnterState (s v1)"

definition With2 :: "'a \<Rightarrow> 'b \<Rightarrow> ('a \<Rightarrow> 'b \<Rightarrow> 'q) \<Rightarrow> ('q, 'e) action" where
  "With2 v1 v2 s = EnterState (s v1 v2)"

section \<open>Running a machine\<close>

datatype ('q, 'e, 's) state_result = Done "('q, 'e) action" 's | Panics string 's | Blocks 's

datatype ('e, 's) run_result = Returned "'e option" 's | Panicked string 's | Blocked 's

fun run_world :: "('e, 's) run_result \<Rightarrow> 's" where
  "run_world (Returned e s) = s"
| "run_world (Panicked t s) = s"
| "run_world (Blocked s) = s"

type_synonym ('q, 'e, 's) machine = "'q \<Rightarrow> 's \<Rightarrow> ('q, 'e, 's) state_result"

definition execute ::
  "('q, 'e, 's) machine \<Rightarrow> ('s \<Rightarrow> 'e option) \<Rightarrow> 'q \<Rightarrow> ('q, 'e) fsm \<Rightarrow> 's \<Rightarrow>
   ('e, 's) run_result + ('q, 'e) fsm \<times> 's" where
  "execute run ctxErr q m s =
     (case run q s of
        Done NoAction s' \<Rightarrow> Inl (Panicked ''state must return a valid action'' s')
      | Done act s' \<Rightarrow> Inr (apply_action (ctxErr s') act m, s')
      | Panics t s' \<Rightarrow> Inl (Panicked t s')
      | Blocks s' \<Rightarrow> Inl (Blocked s'))"

text \<open>
  One turn of the loop of \<open>Start\<close>: the current state, and the final state too when the
  machine has just stopped. The loop itself need not end, so it is a partial function:
  \<open>None\<close> means that it runs forever.
\<close>

definition fsm_turn ::
  "('q, 'e, 's) machine \<Rightarrow> ('s \<Rightarrow> 'e option) \<Rightarrow> ('q, 'e) fsm \<Rightarrow> 's \<Rightarrow>
   ('e, 's) run_result + ('q, 'e) fsm \<times> 's" where
  "fsm_turn run ctxErr m s =
     (case current m of
        None \<Rightarrow> Inl (Returned (err m) s)
      | Some q \<Rightarrow>
          (case execute run ctxErr q m s of
             Inl r \<Rightarrow> Inl r
           | Inr (m', s') \<Rightarrow>
               (case (current m', final m') of
                  (None, Some f) \<Rightarrow> execute run ctxErr f m' s'
                | _ \<Rightarrow> Inr (m', s'))))"

partial_function (option) fsm_loop ::
  "('q, 'e, 's) machine \<Rightarrow> ('s \<Rightarrow> 'e option) \<Rightarrow> ('q, 'e) fsm \<Rightarrow> 's \<Rightarrow> ('e, 's) run_result option" where
  "fsm_loop run ctxErr m s =
     (case fsm_turn run ctxErr m s of
        Inl r \<Rightarrow> Some r
      | Inr (m', s') \<Rightarrow> fsm_loop run ctxErr m' s')"

definition Start ::
  "('q, 'e, 's) machine \<Rightarrow> ('s \<Rightarrow> 'e option) \<Rightarrow> 'q \<Rightarrow> 'q option \<Rightarrow> 's \<Rightarrow> ('e, 's) run_result option" where
  "Start run ctxErr initial finalState s =
     fsm_loop run ctxErr \<lparr>current = Some initial, final = finalState, err = None\<rparr> s"

lemma fsm_loop_turns:
  "fsm_turn run ctxErr m s = Inl r \<Longrightarrow> fsm_loop run ctxErr m s = Some r"
  "fsm_turn run ctxErr m s = Inr (m', s') \<Longrightarrow> fsm_loop run ctxErr m s = fsm_loop run ctxErr m' s'"
  by (subst fsm_loop.simps, simp)+

text \<open>Induction over the turns of a run that ends.\<close>

lemma fsm_loop_induct [consumes 1, case_names last turn]:
  assumes ret: "fsm_loop run ctxErr m s = Some r"
    and last: "\<And>m s. fsm_turn run ctxErr m s = Inl r \<Longrightarrow> P m s"
    and turn: "\<And>m s m' s'. fsm_turn run ctxErr m s = Inr (m', s') \<Longrightarrow> P m' s' \<Longrightarrow> P m s"
  shows "P m s"
proof -
  have "run = run \<longrightarrow> ctxErr = ctxErr \<longrightarrow> r = r \<longrightarrow> P m s"
  proof (rule fsm_loop.raw_induct [where P = "\<lambda>run' ctxErr' m s r'.
        run' = run \<longrightarrow> ctxErr' = ctxErr \<longrightarrow> r' = r \<longrightarrow> P m s", OF _ ret])
    fix loop run' ctxErr' m s r'
    assume IH: "\<And>run' ctxErr' m s r'. loop run' ctxErr' m s = Some r' \<Longrightarrow>
        run' = run \<longrightarrow> ctxErr' = ctxErr \<longrightarrow> r' = r \<longrightarrow> P m s"
      and eq: "(case fsm_turn run' ctxErr' m s of Inl r \<Rightarrow> Some r
        | Inr (m', s') \<Rightarrow> loop run' ctxErr' m' s') = Some r'"
    show "run' = run \<longrightarrow> ctxErr' = ctxErr \<longrightarrow> r' = r \<longrightarrow> P m s"
      using eq IH last turn by (auto split: sum.splits)
  qed
  then show ?thesis by simp
qed

text \<open>What one turn does, by the action of the current state; without a final state.\<close>

lemma fsm_turn_stopped [simp]: "current m = None \<Longrightarrow> fsm_turn run ctxErr m s = Inl (Returned (err m) s)"
  by (simp add: fsm_turn_def)

lemma execute_cases:
  "execute run ctxErr q m s = Inr (m', s') \<longleftrightarrow>
     (\<exists>act. run q s = Done act s' \<and> act \<noteq> NoAction \<and> m' = apply_action (ctxErr s') act m)"
  by (auto simp: execute_def split: state_result.splits action.splits)

lemma apply_action_final [simp]: "final (apply_action e act m) = final m"
  by (cases act) auto

lemma apply_action_err: "err m = Some x \<Longrightarrow> \<exists>y. err (apply_action e act m) = Some y"
  by (cases act) auto

lemma fsm_turn_err:
  "fsm_turn run ctxErr m s = Inr (m', s') \<Longrightarrow> err m = Some x \<Longrightarrow> \<exists>y. err m' = Some y"
  by (auto simp: fsm_turn_def execute_cases split: option.splits sum.splits prod.splits)
    (metis apply_action_err)+

text \<open>A change of the world that the machine does not notice is not noticed by a run.\<close>

lemma fsm_turn_map:
  assumes "\<And>q s. run q (f s) = map_state_result id id f (run q s)" and "\<And>s. ctxErr (f s) = ctxErr s"
  shows "fsm_turn run ctxErr m (f s) = map_sum (map_run_result id f) (map_prod id f) (fsm_turn run ctxErr m s)"
proof -
  have ex: "execute run ctxErr q m (f s) = map_sum (map_run_result id f) (map_prod id f) (execute run ctxErr q m s)"
    for q m s
  proof (cases "run q s")
    case (Done act s')
    then show ?thesis by (cases act) (simp_all add: execute_def assms split: option.split)
  qed (simp_all add: execute_def assms)
  show ?thesis
  proof (cases "current m")
    case (Some q)
    show ?thesis
    proof (cases "execute run ctxErr q m s")
      case (Inr p)
      with Some show ?thesis by (cases p) (simp add: fsm_turn_def ex split: option.split)
    qed (simp add: fsm_turn_def ex Some)
  qed (simp add: option.map_id)
qed

lemma fsm_loop_map:
  assumes "fsm_loop run ctxErr m s = Some r"
    and "\<And>q s. run q (f s) = map_state_result id id f (run q s)" and "\<And>s. ctxErr (f s) = ctxErr s"
  shows "fsm_loop run ctxErr m (f s) = Some (map_run_result id f r)"
  using assms(1)
proof (induction rule: fsm_loop_induct)
  case (last m s)
  then have "fsm_turn run ctxErr m (f s) = Inl (map_run_result id f r)"
    by (simp add: fsm_turn_map [of run f ctxErr, OF assms(2,3)])
  then show ?case by (rule fsm_loop_turns(1))
next
  case (turn m s m' s')
  then have "fsm_turn run ctxErr m (f s) = Inr (m', f s')"
    by (simp add: fsm_turn_map [of run f ctxErr, OF assms(2,3)])
  from fsm_loop_turns(2) [OF this] turn.IH show ?case by simp
qed

section \<open>Contracts of machines\<close>

text \<open>
  A machine without a final state that keeps an invariant: \<open>inv q s\<close> holds whenever the
  state \<open>q\<close> is entered, \<open>post\<close> of the error and the world when the machine stops,
  \<open>paused\<close> where it blocks, \<open>panicked\<close> where it panics, and it returns no invalid action.
\<close>

locale fsm_contract =
  fixes run :: "('q, 'e, 's) machine" and ctxErr :: "'s \<Rightarrow> 'e option"
    and inv :: "'q \<Rightarrow> 's \<Rightarrow> bool" and post :: "'e option \<Rightarrow> 's \<Rightarrow> bool" and paused :: "'s \<Rightarrow> bool"
    and panicked :: "string \<Rightarrow> 's \<Rightarrow> bool"
  assumes law_Stop: "inv q s \<Longrightarrow> run q s = Done Stop s' \<Longrightarrow> post (ctxErr s') s'"
    and law_Fail: "inv q s \<Longrightarrow> run q s = Done (Fail e) s' \<Longrightarrow> post (Some e) s'"
    and law_Stay: "inv q s \<Longrightarrow> run q s = Done StayInCurrentState s' \<Longrightarrow> inv q s'"
    and law_Enter: "inv q s \<Longrightarrow> run q s = Done (EnterState q') s' \<Longrightarrow> inv q' s'"
    and law_NoAction: "inv q s \<Longrightarrow> run q s \<noteq> Done NoAction s'"
    and law_Panics: "inv q s \<Longrightarrow> run q s = Panics t s' \<Longrightarrow> panicked t s'"
    and law_Blocks: "inv q s \<Longrightarrow> run q s = Blocks s' \<Longrightarrow> paused s'"
begin

definition run_ok :: "('e, 's) run_result \<Rightarrow> bool" where
  "run_ok r \<longleftrightarrow> (case r of Returned e s \<Rightarrow> post e s | Panicked t s \<Rightarrow> panicked t s | Blocked s \<Rightarrow> paused s)"

definition fsm_inv :: "('q, 'e) fsm \<Rightarrow> 's \<Rightarrow> bool" where
  "fsm_inv m s \<longleftrightarrow> final m = None \<and>
     (case current m of None \<Rightarrow> post (err m) s | Some q \<Rightarrow> inv q s \<and> err m = None)"

lemma execute_ok:
  assumes q: "inv q s" and m: "current m = Some q" "err m = None"
  shows "execute run ctxErr q m s = Inl r \<Longrightarrow>
      (\<exists>s'. r = Blocked s' \<and> paused s') \<or> (\<exists>t s'. r = Panicked t s' \<and> panicked t s')"
    and "execute run ctxErr q m s = Inr (m', s') \<Longrightarrow> final m' = final m \<and>
      (case current m' of None \<Rightarrow> post (err m') s' | Some q' \<Rightarrow> inv q' s' \<and> err m' = None)"
proof -
  show "(\<exists>s'. r = Blocked s' \<and> paused s') \<or> (\<exists>t s'. r = Panicked t s' \<and> panicked t s')" if x: "execute run ctxErr q m s = Inl r"
  proof (cases "run q s")
    case (Done act s1)
    with x law_NoAction [OF q, of s1] show ?thesis by (cases act) (auto simp: execute_def)
  next
    case (Panics t s1)
    with x law_Panics [OF q, of t s1] show ?thesis by (auto simp: execute_def)
  next
    case (Blocks s1)
    with x law_Blocks [OF q, of s1] show ?thesis by (auto simp: execute_def)
  qed
  show "final m' = final m \<and>
      (case current m' of None \<Rightarrow> post (err m') s' | Some q' \<Rightarrow> inv q' s' \<and> err m' = None)"
    if x: "execute run ctxErr q m s = Inr (m', s')"
  proof -
    from x obtain act where r: "run q s = Done act s'" and m': "m' = apply_action (ctxErr s') act m"
      by (auto simp: execute_cases)
    show ?thesis
      using r m' m law_Stop [OF q] law_Fail [OF q] law_Stay [OF q] law_Enter [OF q] law_NoAction [OF q]
      by (cases act) auto
  qed
qed

lemma turn_inv:
  assumes "fsm_inv m s"
  shows "fsm_turn run ctxErr m s = Inl r \<Longrightarrow> run_ok r"
    and "fsm_turn run ctxErr m s = Inr (m', s') \<Longrightarrow> fsm_inv m' s'"
proof -
  have "(fsm_turn run ctxErr m s = Inl r \<longrightarrow> run_ok r) \<and>
      (fsm_turn run ctxErr m s = Inr (m', s') \<longrightarrow> fsm_inv m' s')"
  proof (cases "current m")
    case None
    with assms show ?thesis by (auto simp: fsm_inv_def run_ok_def)
  next
    case (Some q)
    with assms have q: "inv q s" "err m = None" "final m = None" by (simp_all add: fsm_inv_def)
    show ?thesis
    proof (cases "execute run ctxErr q m s")
      case (Inl r')
      with Some execute_ok(1) [OF q(1) Some q(2) Inl] show ?thesis
        by (auto simp: fsm_turn_def run_ok_def)
    next
      case (Inr p)
      obtain m1 s1 where p: "p = (m1, s1)" by fastforce
      with execute_ok(2) [OF q(1) Some q(2)] Inr have "fsm_inv m1 s1" "final m1 = None"
        using q(3) by (auto simp: fsm_inv_def)
      with Some Inr p show ?thesis by (auto simp: fsm_turn_def split: option.splits)
    qed
  qed
  then show "fsm_turn run ctxErr m s = Inl r \<Longrightarrow> run_ok r"
    "fsm_turn run ctxErr m s = Inr (m', s') \<Longrightarrow> fsm_inv m' s'" by blast+
qed

lemma loop_ok: "fsm_loop run ctxErr m s = Some r \<Longrightarrow> fsm_inv m s \<Longrightarrow> run_ok r"
proof (induction rule: fsm_loop_induct)
  case (last m s)
  then show ?case using turn_inv(1) by blast
next
  case (turn m s m' s')
  then show ?case using turn_inv(2) by blast
qed

lemma Start_ok: "inv q s \<Longrightarrow> Start run ctxErr q None s = Some r \<Longrightarrow> run_ok r"
  unfolding Start_def by (rule loop_ok) (auto simp: fsm_inv_def)

end

text \<open>
  The same with a final state \<open>fin\<close>, which only stops: \<open>stopped\<close> holds between the last
  ordinary state and the final state, and \<open>post\<close> when \<open>Start\<close> returns.
\<close>

locale fsm_final_contract = fsm_contract run ctxErr inv stopped paused panicked
  for run :: "('q, 'e, 's) machine" and ctxErr :: "'s \<Rightarrow> 'e option"
    and inv :: "'q \<Rightarrow> 's \<Rightarrow> bool" and stopped :: "'e option \<Rightarrow> 's \<Rightarrow> bool" and paused :: "'s \<Rightarrow> bool"
    and panicked :: "string \<Rightarrow> 's \<Rightarrow> bool" +
  fixes fin :: 'q and post :: "'e option \<Rightarrow> 's \<Rightarrow> bool"
  assumes final_Done: "stopped e s \<Longrightarrow> run fin s = Done act s' \<Longrightarrow>
      act = Stop \<and> post (case e of None \<Rightarrow> ctxErr s' | Some x \<Rightarrow> Some x) s'"
    and final_Panics: "stopped e s \<Longrightarrow> run fin s = Panics t s' \<Longrightarrow> panicked t s'"
    and final_Blocks: "stopped e s \<Longrightarrow> run fin s = Blocks s' \<Longrightarrow> paused s'"
begin

definition final_ok :: "('e, 's) run_result \<Rightarrow> bool" where
  "final_ok r \<longleftrightarrow> (case r of Returned e s \<Rightarrow> post e s | Panicked t s \<Rightarrow> panicked t s | Blocked s \<Rightarrow> paused s)"

definition final_inv :: "('q, 'e) fsm \<Rightarrow> 's \<Rightarrow> bool" where
  "final_inv m s \<longleftrightarrow> final m = Some fin \<and>
     (case current m of None \<Rightarrow> post (err m) s | Some q \<Rightarrow> inv q s \<and> err m = None)"

lemma execute_final:
  assumes st: "stopped (err m) s" and m: "current m = None" "final m = Some fin"
  shows "case execute run ctxErr fin m s of Inl r \<Rightarrow> final_ok r | Inr (m', s') \<Rightarrow> final_inv m' s'"
proof (cases "run fin s")
  case (Done act s1)
  with final_Done [OF st Done] m show ?thesis
    by (auto simp: execute_def final_inv_def split: option.splits)
next
  case (Panics t s1)
  with final_Panics [OF st Panics] show ?thesis by (simp add: execute_def final_ok_def)
next
  case (Blocks s1)
  with final_Blocks [OF st Blocks] show ?thesis by (simp add: execute_def final_ok_def)
qed

lemma final_turn:
  assumes "final_inv m s"
  shows "case fsm_turn run ctxErr m s of Inl r \<Rightarrow> final_ok r | Inr (m', s') \<Rightarrow> final_inv m' s'"
proof (cases "current m")
  case None
  with assms show ?thesis by (simp add: final_inv_def final_ok_def)
next
  case (Some q)
  with assms have q: "inv q s" "err m = None" "final m = Some fin" by (simp_all add: final_inv_def)
  show ?thesis
  proof (cases "execute run ctxErr q m s")
    case (Inl r)
    with Some execute_ok(1) [OF q(1) Some q(2) Inl] show ?thesis
      by (auto simp: fsm_turn_def final_ok_def)
  next
    case (Inr p)
    obtain m1 s1 where p: "p = (m1, s1)" by fastforce
    with execute_ok(2) [OF q(1) Some q(2)] Inr q(3) have m1: "final m1 = Some fin"
      "case current m1 of None \<Rightarrow> stopped (err m1) s1 | Some q' \<Rightarrow> inv q' s1 \<and> err m1 = None" by auto
    show ?thesis
    proof (cases "current m1")
      case None
      with m1 execute_final [of m1 s1] Some Inr p show ?thesis by (simp add: fsm_turn_def)
    next
      case (Some q')
      with m1 \<open>current m = Some q\<close> Inr p show ?thesis by (simp add: fsm_turn_def final_inv_def)
    qed
  qed
qed

lemma final_loop_ok: "fsm_loop run ctxErr m s = Some r \<Longrightarrow> final_inv m s \<Longrightarrow> final_ok r"
proof (induction rule: fsm_loop_induct)
  case (last m s)
  then show ?case using final_turn [OF last.prems] by simp
next
  case (turn m s m' s')
  then show ?case using final_turn [OF turn.prems] by simp
qed

lemma Start_final_ok: "inv q s \<Longrightarrow> Start run ctxErr q (Some fin) s = Some r \<Longrightarrow> final_ok r"
  unfolding Start_def by (rule final_loop_ok) (auto simp: final_inv_def)

end

text \<open>
  A machine that consumes something whenever it moves on returns (or blocks): its
  \<open>Start\<close> is defined.
\<close>

locale fsm_progress =
  fixes run :: "('q, 'e, 's) machine" and ctxErr :: "'s \<Rightarrow> 'e option"
    and meas :: "'q \<Rightarrow> 's \<Rightarrow> nat"
  assumes meas_Stay: "run q s = Done StayInCurrentState s' \<Longrightarrow> meas q s' < meas q s"
    and meas_Enter: "run q s = Done (EnterState q') s' \<Longrightarrow> meas q' s' < meas q s"
begin

lemma loop_returns: "final m = None \<Longrightarrow> \<exists>r. fsm_loop run ctxErr m s = Some r"
proof (induction "case current m of None \<Rightarrow> 0 | Some q \<Rightarrow> Suc (meas q s)" arbitrary: m s rule: less_induct)
  case less
  show ?case
  proof (cases "fsm_turn run ctxErr m s")
    case (Inl r)
    then show ?thesis using fsm_loop_turns(1) [OF Inl] by blast
  next
    case (Inr p)
    obtain m' s' where p: "p = (m', s')" by fastforce
    then obtain q where q: "current m = Some q"
      using Inr by (cases "current m") auto
    from Inr p q less.prems have "execute run ctxErr q m s = Inr (m', s')"
      by (auto simp: fsm_turn_def execute_cases split: sum.splits option.splits prod.splits)
    then obtain act where r: "run q s = Done act s'" and m': "m' = apply_action (ctxErr s') act m"
      and act: "act \<noteq> NoAction"
      by (auto simp: execute_cases)
    have "(case current m' of None \<Rightarrow> 0 | Some q \<Rightarrow> Suc (meas q s')) <
        (case current m of None \<Rightarrow> 0 | Some q \<Rightarrow> Suc (meas q s))"
      using r m' q act meas_Stay meas_Enter by (cases act) auto
    moreover have "final m' = None" using m' less.prems by simp
    ultimately obtain r where "fsm_loop run ctxErr m' s' = Some r" using less.hyps by blast
    then show ?thesis using fsm_loop_turns(2) Inr p by metis
  qed
qed

lemma Start_returns: "\<exists>r. Start run ctxErr q None s = Some r"
  unfolding Start_def by (rule loop_returns) simp

end

text \<open>With a final state that only stops or fails, such a machine returns as well.\<close>

locale fsm_final_progress = fsm_progress run ctxErr meas
  for run :: "('q, 'e, 's) machine" and ctxErr :: "'s \<Rightarrow> 'e option" and meas :: "'q \<Rightarrow> 's \<Rightarrow> nat" +
  fixes fin :: 'q
  assumes final_ends: "run fin s = Done act s' \<Longrightarrow> act = Stop \<or> (\<exists>e. act = Fail e) \<or> act = NoAction"
begin

lemma final_loop_returns: "final m = Some fin \<Longrightarrow> \<exists>r. fsm_loop run ctxErr m s = Some r"
proof (induction "case current m of None \<Rightarrow> 0 | Some q \<Rightarrow> Suc (meas q s)" arbitrary: m s rule: less_induct)
  case less
  show ?case
  proof (cases "fsm_turn run ctxErr m s")
    case (Inl r)
    then show ?thesis using fsm_loop_turns(1) [OF Inl] by blast
  next
    case (Inr p)
    obtain m' s' where p: "p = (m', s')" by fastforce
    then obtain q where q: "current m = Some q" using Inr by (cases "current m") auto
    obtain m1 s1 where ex: "execute run ctxErr q m s = Inr (m1, s1)"
      using Inr q by (auto simp: fsm_turn_def split: sum.splits)
    then obtain act where r: "run q s = Done act s1" and m1: "m1 = apply_action (ctxErr s1) act m"
      and act: "act \<noteq> NoAction"
      by (auto simp: execute_cases)
    have f1: "final m1 = Some fin" using m1 less.prems by simp
    have "(case current m' of None \<Rightarrow> 0 | Some q \<Rightarrow> Suc (meas q s')) <
        (case current m of None \<Rightarrow> 0 | Some q \<Rightarrow> Suc (meas q s)) \<and> final m' = Some fin"
    proof (cases "current m1")
      case None
      with Inr p q ex f1 have "execute run ctxErr fin m1 s1 = Inr (m', s')" by (simp add: fsm_turn_def)
      then obtain act' where "run fin s1 = Done act' s'" "act' \<noteq> NoAction"
        and m': "m' = apply_action (ctxErr s') act' m1"
        by (auto simp: execute_cases)
      with final_ends [of s1 act' s'] have "current m' = None" by auto
      with q m' f1 show ?thesis by simp
    next
      case (Some q1)
      with Inr p q ex f1 have "m' = m1" "s' = s1" by (simp_all add: fsm_turn_def)
      with r m1 q act f1 meas_Stay meas_Enter show ?thesis by (cases act) auto
    qed
    with less.hyps obtain r where "fsm_loop run ctxErr m' s' = Some r" by blast
    then show ?thesis using fsm_loop_turns(2) Inr p by metis
  qed
qed

lemma Start_final_returns: "\<exists>r. Start run ctxErr q (Some fin) s = Some r"
  unfolding Start_def by (rule final_loop_returns) simp

end

section \<open>Properties\<close>

text \<open>
  What a run of \<open>Start\<close> executes, as a list: each state with the action it returned and the
  world it left. A state that stops or fails is followed by the final state, if there is one;
  the final state ends the run unless it enters another state.
\<close>

fun stops :: "('q, 'e) action \<Rightarrow> bool" where
  "stops Stop = True"
| "stops (Fail e) = True"
| "stops _ = False"

inductive fsm_run ::
  "('q, 'e, 's) machine \<Rightarrow> 'q option \<Rightarrow> 'q option \<Rightarrow> 's \<Rightarrow> ('q \<times> ('q, 'e) action \<times> 's) list \<Rightarrow> 's \<Rightarrow> bool"
  for run fin where
  ended: "fsm_run run fin None s [] s"
| enters: "run q s = Done (EnterState q') s1 \<Longrightarrow> fsm_run run fin (Some q') s1 tr s' \<Longrightarrow>
    fsm_run run fin (Some q) s ((q, EnterState q', s1) # tr) s'"
| stays: "run q s = Done StayInCurrentState s1 \<Longrightarrow> fsm_run run fin (Some q) s1 tr s' \<Longrightarrow>
    fsm_run run fin (Some q) s ((q, StayInCurrentState, s1) # tr) s'"
| stopped: "run q s = Done act s1 \<Longrightarrow> stops act \<Longrightarrow> fin = None \<Longrightarrow> fsm_run run fin (Some q) s [(q, act, s1)] s1"
| finalised: "run q s = Done act s1 \<Longrightarrow> stops act \<Longrightarrow> fin = Some f \<Longrightarrow> run f s1 = Done act' s2 \<Longrightarrow> act' \<noteq> NoAction \<Longrightarrow>
    fsm_run run fin (case act' of EnterState q' \<Rightarrow> Some q' | _ \<Rightarrow> None) s2 tr s' \<Longrightarrow>
    fsm_run run fin (Some q) s ((q, act, s1) # (f, act', s2) # tr) s'"

text \<open>The errors that the states failed with, and those of the context when they stopped.\<close>

fun failed_with :: "'q \<times> ('q, 'e) action \<times> 's \<Rightarrow> 'e list" where
  "failed_with (q, Fail e, s) = [e]"
| "failed_with _ = []"

fun stopped_with :: "('s \<Rightarrow> 'e option) \<Rightarrow> 'q \<times> ('q, 'e) action \<times> 's \<Rightarrow> 'e list" where
  "stopped_with ctxErr (q, Stop, s) = (case ctxErr s of Some e \<Rightarrow> [e] | None \<Rightarrow> [])"
| "stopped_with ctxErr _ = []"

definition result_of :: "('s \<Rightarrow> 'e option) \<Rightarrow> ('q \<times> ('q, 'e) action \<times> 's) list \<Rightarrow> 'e option" where
  "result_of ctxErr tr =
     (if concat (map failed_with tr) \<noteq> [] then Some (last (concat (map failed_with tr)))
      else (case concat (map (stopped_with ctxErr) tr) of [] \<Rightarrow> None | e # _ \<Rightarrow> Some e))"

definition err_step :: "('s \<Rightarrow> 'e option) \<Rightarrow> 'e option \<Rightarrow> 'q \<times> ('q, 'e) action \<times> 's \<Rightarrow> 'e option" where
  "err_step ctxErr e p = (case p of (q, act, s) \<Rightarrow> err (apply_action (ctxErr s) act \<lparr>current = Some q, final = None, err = e\<rparr>))"

lemma err_step_simps [simp]:
  "err_step ctxErr e (q, Fail x, s) = Some x"
  "err_step ctxErr e (q, Stop, s) = (case e of None \<Rightarrow> ctxErr s | Some x \<Rightarrow> Some x)"
  "err_step ctxErr e (q, EnterState q', s) = e" "err_step ctxErr e (q, StayInCurrentState, s) = e"
  "err_step ctxErr e (q, NoAction, s) = e"
  by (simp_all add: err_step_def)

lemma err_apply_action: "err (apply_action (ctxErr s) act m) = err_step ctxErr (err m) (q, act, s)"
  by (cases act) simp_all

lemma foldl_err_step:
  "foldl (err_step ctxErr) e tr =
     (if concat (map failed_with tr) \<noteq> [] then Some (last (concat (map failed_with tr)))
      else (case e of Some x \<Rightarrow> Some x
        | None \<Rightarrow> (case concat (map (stopped_with ctxErr) tr) of [] \<Rightarrow> None | x # _ \<Rightarrow> Some x)))"
proof (induction tr arbitrary: e)
  case (Cons p tr)
  obtain q act s where p: "p = (q, act, s)" by (metis prod_cases3)
  show ?case
    by (cases act) (simp_all add: p Cons.IH split: option.split)
qed (simp split: option.split)

lemma fsm_run_loop:
  assumes "fsm_run run fin cur s tr s'"
  shows "fsm_loop run ctxErr \<lparr>current = cur, final = fin, err = e\<rparr> s = Some (Returned (foldl (err_step ctxErr) e tr) s')"
  using assms
proof (induction arbitrary: e rule: fsm_run.induct)
  case (ended s)
  show ?case by (simp add: fsm_loop_turns(1) [OF fsm_turn_stopped])
next
  case (enters q s q' s1 tr s')
  then have "fsm_turn run ctxErr \<lparr>current = Some q, final = fin, err = e\<rparr> s =
      Inr (\<lparr>current = Some q', final = fin, err = e\<rparr>, s1)"
    by (simp add: fsm_turn_def execute_def)
  from fsm_loop_turns(2) [OF this] enters.IH show ?case by simp
next
  case (stays q s s1 tr s')
  then have "fsm_turn run ctxErr \<lparr>current = Some q, final = fin, err = e\<rparr> s =
      Inr (\<lparr>current = Some q, final = fin, err = e\<rparr>, s1)"
    by (simp add: fsm_turn_def execute_def)
  from fsm_loop_turns(2) [OF this] stays.IH show ?case by simp
next
  case (stopped q s act s1)
  then have "fsm_turn run ctxErr \<lparr>current = Some q, final = fin, err = e\<rparr> s =
      Inr (\<lparr>current = None, final = fin, err = err_step ctxErr e (q, act, s1)\<rparr>, s1)"
    by (cases act) (simp_all add: fsm_turn_def execute_def err_step_def)
  from fsm_loop_turns(2) [OF this] show ?case by (simp add: fsm_loop_turns(1) [OF fsm_turn_stopped])
next
  case (finalised q s act s1 f act' s2 tr s')
  then have "fsm_turn run ctxErr \<lparr>current = Some q, final = fin, err = e\<rparr> s =
      Inr (\<lparr>current = (case act' of EnterState q' \<Rightarrow> Some q' | _ \<Rightarrow> None), final = fin,
        err = err_step ctxErr (err_step ctxErr e (q, act, s1)) (f, act', s2)\<rparr>, s2)"
    by (cases act; cases act') (simp_all add: fsm_turn_def execute_def err_step_def)
  from fsm_loop_turns(2) [OF this] finalised.IH show ?case by simp
qed

lemma fsm_loop_run:
  assumes "fsm_loop run ctxErr m s = Some (Returned e s')"
  shows "\<exists>tr. fsm_run run (final m) (current m) s tr s' \<and> e = foldl (err_step ctxErr) (err m) tr"
  using assms
proof (induction rule: fsm_loop_induct)
  case (last m s)
  then have "current m = None" "e = err m" "s' = s"
    by (auto simp: fsm_turn_def execute_def
        split: option.splits sum.splits prod.splits state_result.splits action.splits)
  then show ?case using fsm_run.ended by fastforce
next
  case (turn m s m' s1)
  then obtain tr where tr: "fsm_run run (final m') (current m') s1 tr s'" "e = foldl (err_step ctxErr) (err m') tr" by blast
  from turn(1) obtain q where q: "current m = Some q" by (cases "current m") auto
  obtain m1 s2 where ex: "execute run ctxErr q m s = Inr (m1, s2)"
    using turn(1) q by (auto simp: fsm_turn_def split: sum.splits)
  then obtain act where r: "run q s = Done act s2" "act \<noteq> NoAction" and m1: "m1 = apply_action (ctxErr s2) act m"
    by (auto simp: execute_cases)
  show ?case
  proof (cases "stops act")
    case False
    then have "m' = m1" "s1 = s2" using turn(1) q ex r m1 by (cases act; simp add: fsm_turn_def)+
    with False r m1 tr q show ?thesis
      by (cases act) (auto intro!: exI [of _ "(q, act, s2) # tr"] fsm_run.intros)
  next
    case st: True
    then have c: "current m1 = None" using m1 by (cases act) auto
    show ?thesis
    proof (cases "final m")
      case None
      with m1 have "final m1 = None" by simp
      with turn(1) q ex c have "m' = m1" "s1 = s2" by (simp_all add: fsm_turn_def)
      with tr c have "tr = []" "s' = s2" by (auto elim: fsm_run.cases)
      with None st r m1 tr(2) \<open>m' = m1\<close> q show ?thesis
        using fsm_run.stopped [of run q s act s2 "final m"] err_apply_action [of ctxErr s2 act m q] by fastforce
    next
      case (Some f)
      with turn(1) q ex c m1 have "execute run ctxErr f m1 s2 = Inr (m', s1)" by (simp add: fsm_turn_def)
      then obtain act' where r': "run f s2 = Done act' s1" "act' \<noteq> NoAction"
        and m': "m' = apply_action (ctxErr s1) act' m1" by (auto simp: execute_cases)
      have cur: "current m' = (case act' of EnterState q' \<Rightarrow> Some q' | _ \<Rightarrow> None)"
        using m' c by (cases act') auto
      have "fsm_run run (final m) (Some q) s ((q, act, s2) # (f, act', s1) # tr) s'"
        using fsm_run.finalised [OF r(1) st Some r'] tr(1) m' m1 unfolding cur by simp
      moreover have "e = foldl (err_step ctxErr) (err m) ((q, act, s2) # (f, act', s1) # tr)"
        using tr(2) m' m1 err_apply_action [of ctxErr s2 act m q] err_apply_action [of ctxErr s1 act' m1 f] by simp
      ultimately show ?thesis using q by metis
    qed
  qed
qed

lemma fsm_run_final_last:
  "fsm_run run fin cur s tr s' \<Longrightarrow> tr \<noteq> [] \<Longrightarrow> (case fin of None \<Rightarrow> True | Some f \<Rightarrow> fst (last tr) = f)"
proof (induction rule: fsm_run.induct)
  case (enters q s q' s1 tr s')
  from enters(2) have "tr \<noteq> []" by (auto elim: fsm_run.cases)
  with enters show ?case by (simp split: option.splits)
next
  case (stays q s s1 tr s')
  from stays(2) have "tr \<noteq> []" by (auto elim: fsm_run.cases)
  with stays show ?case by (simp split: option.splits)
next
  case (finalised q s act s1 f act' s2 tr s')
  then show ?case by (cases tr) auto
qed simp_all

text \<open>
C35: What \<open>Start\<close> returns, for every machine. It returns exactly when the machine has a run that
ends: the states execute one after another as their actions say, the final state executes right
after every state that stops or fails, and it is the last that executes. The result is the error
of the last state that failed, the final state included, however many stopped before or after;
if none failed it is the first error of the context that was there when a state stopped, else nil.
\<close>

theorem Start_result:
  fixes run :: "('q, 'e, 's) machine"
  shows "Start run ctxErr q fin s = Some (Returned e s') \<longleftrightarrow>
     (\<exists>tr. fsm_run run fin (Some q) s tr s' \<and> (case fin of None \<Rightarrow> True | Some f \<Rightarrow> fst (last tr) = f) \<and>
        e = result_of ctxErr tr)"
proof -
  have ne: "tr \<noteq> []" if "fsm_run run fin (Some q) s tr s'" for tr using that by (auto elim: fsm_run.cases)
  have fold: "result_of ctxErr tr = foldl (err_step ctxErr) None tr" for tr :: "('q \<times> ('q, 'e) action \<times> 's) list"
    by (simp add: result_of_def foldl_err_step)
  show ?thesis
    unfolding Start_def fold
    using fsm_loop_run [of run ctxErr "\<lparr>current = Some q, final = fin, err = None\<rparr>" s e s'] fsm_run_loop [of run fin "Some q" s _ s' ctxErr None]
      fsm_run_final_last ne by (metis (no_types, lifting) fsm.select_convs option.inject run_result.inject(1))
qed

text \<open>
  A machine for the example. State 0 fails with ``e'', the final state 1 vetoes the stop the
  first time (the world counts its runs) and enters state 2, which stops.
\<close>

fun veto_machine :: "nat \<Rightarrow> nat \<Rightarrow> (nat, string, nat) state_result" where
  "veto_machine 0 s = Done (Fail ''e'') s"
| "veto_machine (Suc 0) s = (if s = 0 then Done (EnterState 2) 1 else Done Stop s)"
| "veto_machine (Suc (Suc 0)) s = Done Stop s"
| "veto_machine _ s = Done NoAction s"

theorem Start_result_witness:
  "fsm_run veto_machine (Some 1) (Some 0) 0 [(0, Fail ''e'', 0), (1, EnterState 2, 1), (2, Stop, 1), (1, Stop, 1)] 1 \<and>
   Start veto_machine (\<lambda>_. Some ''ctx'') 0 (Some 1) 0 = Some (Returned (Some ''e'') 1)"
proof -
  have two: "fsm_run veto_machine (Some 1) (Some 2) 1 [(2, Stop, 1), (1, Stop, 1)] 1"
    by (rule fsm_run.finalised) (auto simp: numeral_2_eq_2 intro: fsm_run.ended)
  have r: "fsm_run veto_machine (Some 1) (Some 0) 0 [(0, Fail ''e'', 0), (1, EnterState 2, 1), (2, Stop, 1), (1, Stop, 1)] 1"
    by (rule fsm_run.finalised [where ?s2.0 = 1]) (use two in simp_all)
  then show ?thesis
    using Start_result [of veto_machine "\<lambda>_. Some ''ctx''" 0 "Some 1" 0 "Some ''e''" 1]
    by (auto simp: result_of_def intro!: exI)
qed

text \<open>
An error is never lost: once a state of the machine has failed, \<open>Start\<close> cannot return
nil, even when the final state prevents the stop by entering another state and that state then
stops without an error.
\<close>

lemma Start_keeps_error:
  assumes "run q s = Done (Fail x) s1" and "Start run ctxErr q finalState s = Some (Returned e s2)"
  shows "e \<noteq> None"
proof -
  let ?m = "\<lparr>current = Some q, final = finalState, err = None\<rparr>"
  have later: "\<forall>x. err m = Some x \<longrightarrow> e \<noteq> None"
    if "fsm_loop run ctxErr m s = Some (Returned e s2)" for m s
    using that
  proof (induction rule: fsm_loop_induct)
    case (last m s)
    then show ?case
      by (auto simp: fsm_turn_def execute_def
          split: option.splits sum.splits prod.splits state_result.splits action.splits)
  next
    case (turn m s m' s')
    then show ?case using fsm_turn_err [OF turn(1)] by blast
  qed
  have ret: "fsm_loop run ctxErr ?m s = Some (Returned e s2)"
    using assms(2) by (simp add: Start_def)
  show ?thesis
  proof (cases "fsm_turn run ctxErr ?m s")
    case (Inl r)
    then have "r = Returned e s2" using ret fsm_loop_turns(1) by fastforce
    with Inl show ?thesis using assms(1)
      by (auto simp: fsm_turn_def execute_def
          split: option.splits sum.splits prod.splits state_result.splits action.splits)
  next
    case (Inr p)
    obtain m' s' where p: "p = (m', s')" by fastforce
    have "\<exists>x. err m' = Some x"
      using Inr assms(1) unfolding p
      by (auto simp: fsm_turn_def execute_def split: option.splits state_result.splits action.splits)
    with later ret fsm_loop_turns(2) [OF Inr [unfolded p]] show ?thesis by metis
  qed
qed

lemma Start_keeps_error_witness:
  "\<exists>e. Start veto_machine (\<lambda>_. None) 0 (Some 1) 0 = Some (Returned e 1) \<and> e \<noteq> None"
proof -
  have "Start veto_machine (\<lambda>_. None) 0 (Some 1) 0 = Some (Returned (Some ''e'') 1)"
    by (simp add: Start_def fsm_loop.simps fsm_turn_def execute_def numeral_2_eq_2)
  with Start_keeps_error [of veto_machine 0 0 "''e''" 0 "\<lambda>_. None" "Some 1"] show ?thesis by blast
qed

end
