(* ===== verification/Journal_API.thy ===== *)
theory Journal_API
  imports Prelude
begin

text \<open>
  The journal of \<open>persistencekit\<close>, as a parameter. The source of the module is not part of
  this repository: a \<open>journal_api\<close> is the operations the code calls, on an abstract state
  \<open>'j\<close> that also decides which calls fail, and \<open>journal_laws\<close> is their documented
  behaviour. A call that fails may or may not have taken effect, which is what the repository's
  own tests induce with \<open>FailBeforeJournalAppend\<close> and \<open>FailAfterJournalAppend\<close>.
  Theory \<open>Mem_Journal\<close> has a journal with an explicit fault schedule that satisfies the
  laws; the witnesses use it.
\<close>

section \<open>Operations\<close>

type_synonym pos = u64

record ('j, 'r, 'x) journal_api =
  j_Bounds :: "'j \<Rightarrow> ('x, pos \<times> pos) outcome \<times> 'j"
  j_Range :: "'j \<Rightarrow> pos \<Rightarrow> ((pos \<times> 'r) list \<times> 'x option) \<times> 'j"
  j_Append :: "'j \<Rightarrow> pos \<Rightarrow> 'r \<Rightarrow> 'x option \<times> 'j"
  j_Truncate :: "'j \<Rightarrow> pos \<Rightarrow> 'x option \<times> 'j"
  j_LastRecord :: "'j \<Rightarrow> ('x, (pos \<times> 'r) option) outcome \<times> 'j"
  j_ScanFromSearchResult :: "'j \<Rightarrow> pos \<times> pos \<Rightarrow> (pos \<Rightarrow> 'r \<Rightarrow> int) \<Rightarrow>
     (pos \<Rightarrow> 'r \<Rightarrow> ('x, 'r option \<times> bool) outcome) \<Rightarrow> ('x, 'r option) outcome \<times> 'j"
  j_IsNotFound :: "'x \<Rightarrow> bool"

text \<open>
  \<open>Range\<close> calls its function for the listed records, in order, and then returns the error.
  A scan calls its function until it reports a value.
\<close>

datatype ('x, 'v) scan_result = Found 'v | NotFound | ScanErr 'x | ScanPanic string

fun scan_records ::
  "(pos \<Rightarrow> 'r \<Rightarrow> ('x, 'v \<times> bool) outcome) \<Rightarrow> (pos \<times> 'r) list \<Rightarrow> ('x, 'v) scan_result" where
  "scan_records f [] = NotFound"
| "scan_records f ((p, r) # rs) =
     (case f p r of
        Ok (v, ok) \<Rightarrow> if ok then Found v else scan_records f rs
      | Err x \<Rightarrow> ScanErr x
      | Panic t \<Rightarrow> ScanPanic t)"

section \<open>Documented behaviour\<close>

text \<open>
  \<open>hist j\<close> is every record ever appended, at its position, and \<open>base j\<close> the number of
  them that truncation has removed: the readable records are at the positions from
  \<open>base j\<close> up to (excluding) \<open>length (hist j)\<close>.
\<close>

definition positioned :: "nat \<Rightarrow> 'r list \<Rightarrow> (pos \<times> 'r) list" where
  "positioned k rs = map (\<lambda>i. (of_nat i, rs ! i)) [k..<length rs]"

lemma map_snd_positioned: "map snd (positioned k rs) = drop k rs"
  by (auto simp: positioned_def intro!: nth_equalityI)

lemma scan_records_find:
  assumes "\<forall>(p, r) \<in> set ps. f p r = Ok (g r, P r)"
  shows "scan_records f ps = (case find P (map snd ps) of Some r \<Rightarrow> Found (g r) | None \<Rightarrow> NotFound)"
  using assms by (induction f ps rule: scan_records.induct) auto

definition law_size :: "('j \<Rightarrow> nat) \<Rightarrow> ('j \<Rightarrow> 'r list) \<Rightarrow> bool" where
  "law_size base hist \<longleftrightarrow> (\<forall>j. base j \<le> length (hist j) \<and> length (hist j) < 2 ^ 64)"

definition law_Bounds ::
  "('j, 'r, 'x, 'z) journal_api_scheme \<Rightarrow> ('j \<Rightarrow> nat) \<Rightarrow> ('j \<Rightarrow> 'r list) \<Rightarrow> bool" where
  "law_Bounds J base hist \<longleftrightarrow> (\<forall>j res j'. j_Bounds J j = (res, j') \<longrightarrow>
     hist j' = hist j \<and> base j' = base j \<and>
     (case res of Ok (b, e) \<Rightarrow> unat b = base j \<and> unat e = length (hist j)
      | Err _ \<Rightarrow> True | Panic _ \<Rightarrow> False))"

definition law_Range ::
  "('j, 'r, 'x, 'z) journal_api_scheme \<Rightarrow> ('j \<Rightarrow> nat) \<Rightarrow> ('j \<Rightarrow> 'r list) \<Rightarrow> bool" where
  "law_Range J base hist \<longleftrightarrow> (\<forall>j p rs e j'. j_Range J j p = ((rs, e), j') \<longrightarrow>
     hist j' = hist j \<and> base j' = base j \<and>
     (base j \<le> unat p \<longrightarrow> unat p < length (hist j) \<longrightarrow>
      (if e = None then rs = positioned (unat p) (hist j)
       else \<exists>n. rs = take n (positioned (unat p) (hist j)))))"

definition law_Append ::
  "('j, 'r, 'x, 'z) journal_api_scheme \<Rightarrow> ('j \<Rightarrow> nat) \<Rightarrow> ('j \<Rightarrow> 'r list) \<Rightarrow> bool" where
  "law_Append J base hist \<longleftrightarrow> (\<forall>j p r e j'. j_Append J j p r = (e, j') \<longrightarrow>
     unat p \<le> length (hist j) \<longrightarrow> base j' = base j \<and>
     (if e = None then unat p = length (hist j) \<and> hist j' = hist j @ [r]
      else hist j' = hist j \<or> unat p = length (hist j) \<and> hist j' = hist j @ [r]))"

definition law_Truncate ::
  "('j, 'r, 'x, 'z) journal_api_scheme \<Rightarrow> ('j \<Rightarrow> nat) \<Rightarrow> ('j \<Rightarrow> 'r list) \<Rightarrow> bool" where
  "law_Truncate J base hist \<longleftrightarrow> (\<forall>j p e j'. j_Truncate J j p = (e, j') \<longrightarrow>
     unat p \<le> length (hist j) \<longrightarrow> hist j' = hist j \<and>
     base j \<le> base j' \<and> base j' \<le> max (base j) (unat p) \<and>
     (e = None \<longrightarrow> base j' = max (base j) (unat p)))"

definition law_LastRecord ::
  "('j, 'r, 'x, 'z) journal_api_scheme \<Rightarrow> ('j \<Rightarrow> nat) \<Rightarrow> ('j \<Rightarrow> 'r list) \<Rightarrow> bool" where
  "law_LastRecord J base hist \<longleftrightarrow> (\<forall>j res j'. j_LastRecord J j = (res, j') \<longrightarrow>
     hist j' = hist j \<and> base j' = base j \<and>
     (case res of Ok None \<Rightarrow> base j = length (hist j)
      | Ok (Some (p, r)) \<Rightarrow> base j < length (hist j) \<and> unat p = length (hist j) - 1 \<and> r = last (hist j)
      | Err _ \<Rightarrow> True | Panic _ \<Rightarrow> False))"

text \<open>
  \<open>ScanFromSearchResult\<close>: a binary search for the record on which \<open>cmp\<close> is 0, where
  the records of the interval before it compare below and those after it above, then a scan of
  the journal from that record. It fails with ``not found'' only if the scan found nothing.
\<close>

definition search_hit :: "(pos \<Rightarrow> 'r \<Rightarrow> int) \<Rightarrow> 'r list \<Rightarrow> nat \<Rightarrow> nat \<Rightarrow> bool" where
  "search_hit cmp rs b k \<longleftrightarrow> b \<le> k \<and> k < length rs \<and> cmp (of_nat k) (rs ! k) = 0 \<and>
     (\<forall>i. b \<le> i \<longrightarrow> i < k \<longrightarrow> cmp (of_nat i) (rs ! i) < 0) \<and>
     (\<forall>i. k < i \<longrightarrow> i < length rs \<longrightarrow> 0 < cmp (of_nat i) (rs ! i))"

definition law_Scan ::
  "('j, 'r, 'x, 'z) journal_api_scheme \<Rightarrow> ('j \<Rightarrow> nat) \<Rightarrow> ('j \<Rightarrow> 'r list) \<Rightarrow> bool" where
  "law_Scan J base hist \<longleftrightarrow> (\<forall>j b e cmp f res j'. j_ScanFromSearchResult J j (b, e) cmp f = (res, j') \<longrightarrow>
     hist j' = hist j \<and> base j' = base j \<and>
     (\<forall>k. base j \<le> unat b \<longrightarrow> unat e \<le> length (hist j) \<longrightarrow>
       search_hit cmp (take (unat e) (hist j)) (unat b) k \<longrightarrow>
       (case res of
          Ok v \<Rightarrow> scan_records f (positioned k (hist j)) = Found v
        | Err x \<Rightarrow> j_IsNotFound J x \<longrightarrow> scan_records f (positioned k (hist j)) = NotFound
        | Panic t \<Rightarrow> scan_records f (positioned k (hist j)) = ScanPanic t)))"

definition journal_laws ::
  "('j, 'r, 'x, 'z) journal_api_scheme \<Rightarrow> ('j \<Rightarrow> nat) \<Rightarrow> ('j \<Rightarrow> 'r list) \<Rightarrow> bool" where
  "journal_laws J base hist \<longleftrightarrow>
     law_size base hist \<and> law_Bounds J base hist \<and> law_Range J base hist \<and> law_Append J base hist \<and>
     law_Truncate J base hist \<and> law_LastRecord J base hist \<and> law_Scan J base hist"

lemma journal_laws_parts:
  assumes "journal_laws J base hist"
  shows "law_size base hist" "law_Bounds J base hist" "law_Range J base hist" "law_Append J base hist"
    "law_Truncate J base hist" "law_LastRecord J base hist" "law_Scan J base hist"
  using assms by (simp_all add: journal_laws_def)

lemma journal_size:
  assumes "journal_laws J base hist"
  shows "base j \<le> length (hist j)" and "length (hist j) < 2 ^ 64"
  using journal_laws_parts(1) [OF assms] by (simp_all add: law_size_def)

lemma journal_Append:
  assumes "journal_laws J base hist" "j_Append J j p r = (e, j')" "unat p \<le> length (hist j)"
  shows "base j' = base j"
    and "e = None \<Longrightarrow> unat p = length (hist j) \<and> hist j' = hist j @ [r]"
    and "hist j' = hist j \<or> unat p = length (hist j) \<and> hist j' = hist j @ [r]"
proof -
  have l: "base j' = base j \<and>
     (if e = None then unat p = length (hist j) \<and> hist j' = hist j @ [r]
      else hist j' = hist j \<or> unat p = length (hist j) \<and> hist j' = hist j @ [r])"
    using journal_laws_parts(4) [OF assms(1)] assms(2,3) unfolding law_Append_def by simp
  then show "base j' = base j" by simp
  show "unat p = length (hist j) \<and> hist j' = hist j @ [r]" if "e = None"
    using l that by simp
  show "hist j' = hist j \<or> unat p = length (hist j) \<and> hist j' = hist j @ [r]"
    using l by (simp split: if_splits)
qed

lemma journal_Truncate:
  assumes "journal_laws J base hist" "j_Truncate J j p = (e, j')" "unat p \<le> length (hist j)"
  shows "hist j' = hist j \<and> base j \<le> base j' \<and> base j' \<le> max (base j) (unat p) \<and>
     (e = None \<longrightarrow> base j' = max (base j) (unat p))"
  using journal_laws_parts(5) [OF assms(1)] assms(2,3) unfolding law_Truncate_def by simp

lemma journal_Bounds:
  assumes "journal_laws J base hist" "j_Bounds J j = (res, j')"
  shows "hist j' = hist j" "base j' = base j" "res \<noteq> Panic t"
    and "res = Ok (b, e) \<Longrightarrow> unat b = base j \<and> unat e = length (hist j)"
proof -
  have l: "hist j' = hist j \<and> base j' = base j \<and>
     (case res of Ok (b, e) \<Rightarrow> unat b = base j \<and> unat e = length (hist j)
      | Err _ \<Rightarrow> True | Panic _ \<Rightarrow> False)"
    using journal_laws_parts(2) [OF assms(1)] assms(2) unfolding law_Bounds_def by simp
  then show "hist j' = hist j" "base j' = base j" "res \<noteq> Panic t"
    and "res = Ok (b, e) \<Longrightarrow> unat b = base j \<and> unat e = length (hist j)"
    by auto
qed

lemma journal_Range:
  assumes "journal_laws J base hist" "j_Range J j p = ((rs, e), j')"
  shows "hist j' = hist j" "base j' = base j"
    and "base j \<le> unat p \<Longrightarrow> unat p < length (hist j) \<Longrightarrow> e = None \<Longrightarrow> rs = positioned (unat p) (hist j)"
    and "base j \<le> unat p \<Longrightarrow> unat p < length (hist j) \<Longrightarrow> \<exists>n. rs = take n (positioned (unat p) (hist j))"
proof -
  have l: "hist j' = hist j \<and> base j' = base j \<and>
     (base j \<le> unat p \<longrightarrow> unat p < length (hist j) \<longrightarrow>
      (if e = None then rs = positioned (unat p) (hist j)
       else \<exists>n. rs = take n (positioned (unat p) (hist j))))"
    using journal_laws_parts(3) [OF assms(1)] assms(2) unfolding law_Range_def by blast
  then show "hist j' = hist j" "base j' = base j" by auto
  show "rs = positioned (unat p) (hist j)"
    if "base j \<le> unat p" "unat p < length (hist j)" "e = None" using l that by simp
  show "\<exists>n. rs = take n (positioned (unat p) (hist j))"
    if "base j \<le> unat p" "unat p < length (hist j)"
    using l that by (metis take_all order_refl)
qed

lemma journal_LastRecord:
  assumes "journal_laws J base hist" "j_LastRecord J j = (res, j')"
  shows "hist j' = hist j" "base j' = base j" "res \<noteq> Panic t"
    and "res = Ok None \<Longrightarrow> base j = length (hist j)"
    and "res = Ok (Some (p, r)) \<Longrightarrow>
      base j < length (hist j) \<and> unat p = length (hist j) - 1 \<and> r = last (hist j)"
proof -
  have l: "hist j' = hist j \<and> base j' = base j \<and>
     (case res of Ok None \<Rightarrow> base j = length (hist j)
      | Ok (Some (p, r)) \<Rightarrow> base j < length (hist j) \<and> unat p = length (hist j) - 1 \<and> r = last (hist j)
      | Err _ \<Rightarrow> True | Panic _ \<Rightarrow> False)"
    using journal_laws_parts(6) [OF assms(1)] assms(2) unfolding law_LastRecord_def by simp
  then show "hist j' = hist j" "base j' = base j" "res \<noteq> Panic t"
    and "res = Ok None \<Longrightarrow> base j = length (hist j)"
    and "res = Ok (Some (p, r)) \<Longrightarrow>
      base j < length (hist j) \<and> unat p = length (hist j) - 1 \<and> r = last (hist j)"
    by auto
qed

lemma journal_Scan:
  assumes "journal_laws J base hist" "j_ScanFromSearchResult J j (b, e) cmp f = (res, j')"
  shows "hist j' = hist j" "base j' = base j"
    and "base j \<le> unat b \<Longrightarrow> unat e \<le> length (hist j) \<Longrightarrow>
       search_hit cmp (take (unat e) (hist j)) (unat b) k \<Longrightarrow>
       (case res of
          Ok v \<Rightarrow> scan_records f (positioned k (hist j)) = Found v
        | Err x \<Rightarrow> j_IsNotFound J x \<longrightarrow> scan_records f (positioned k (hist j)) = NotFound
        | Panic t \<Rightarrow> scan_records f (positioned k (hist j)) = ScanPanic t)"
  using journal_laws_parts(7) [OF assms(1)] assms(2) unfolding law_Scan_def by blast+

text \<open>The laws are about the operations, not about what a record of dependencies adds to them.\<close>

lemma journal_laws_fields:
  assumes "journal_laws K base hist"
    and "j_Bounds J = j_Bounds K" "j_Range J = j_Range K" "j_Append J = j_Append K"
    "j_Truncate J = j_Truncate K" "j_LastRecord J = j_LastRecord K"
    "j_ScanFromSearchResult J = j_ScanFromSearchResult K" "j_IsNotFound J = j_IsNotFound K"
  shows "journal_laws J base hist"
  using assms(1)
  unfolding journal_laws_def law_Bounds_def law_Range_def law_Append_def law_Truncate_def
    law_LastRecord_def law_Scan_def assms(2-) .

end
