(* ===== verification/Mem_Journal.thy ===== *)
theory Mem_Journal
  imports Journal_API
begin

text \<open>
  A journal held in a list, with a schedule of faults: each call takes the next fault, and
  fails before or after it has taken effect. It satisfies the laws of the journal interface;
  the witnesses run the modelled code on it.
\<close>

datatype fault = Healthy | FailBefore | FailAfter

datatype mem_err = ErrNotFound | ErrConflict | ErrInduced

record 'r mem_journal =
  mbase :: nat
  mhist :: "'r list"
  mfaults :: "fault list"

definition mem_hist :: "'r mem_journal \<Rightarrow> 'r list" where
  "mem_hist j = take (2 ^ 64 - 1) (mhist j)"

definition mem_base :: "'r mem_journal \<Rightarrow> nat" where
  "mem_base j = min (mbase j) (length (mem_hist j))"

definition mem_fault :: "'r mem_journal \<Rightarrow> fault" where
  "mem_fault j = (case mfaults j of [] \<Rightarrow> Healthy | f # _ \<Rightarrow> f)"

definition mem_next :: "'r mem_journal \<Rightarrow> 'r mem_journal" where
  "mem_next j = j\<lparr>mfaults := tl (mfaults j)\<rparr>"

definition mem_Append :: "'r mem_journal \<Rightarrow> pos \<Rightarrow> 'r \<Rightarrow> mem_err option \<times> 'r mem_journal" where
  "mem_Append j p r =
     (let j' = (mem_next j)\<lparr>mhist := mem_hist j @ [r], mbase := mem_base j\<rparr>
      in if unat p \<noteq> length (mem_hist j) \<or> length (mem_hist j) = 2 ^ 64 - 1
         then (Some ErrConflict, mem_next j)
         else (case mem_fault j of Healthy \<Rightarrow> (None, j') | FailBefore \<Rightarrow> (Some ErrInduced, mem_next j)
               | FailAfter \<Rightarrow> (Some ErrInduced, j')))"

definition mem_Truncate :: "'r mem_journal \<Rightarrow> pos \<Rightarrow> mem_err option \<times> 'r mem_journal" where
  "mem_Truncate j p =
     (let j' = (mem_next j)\<lparr>mbase := max (mem_base j) (min (unat p) (length (mem_hist j)))\<rparr>
      in case mem_fault j of Healthy \<Rightarrow> (None, j') | FailBefore \<Rightarrow> (Some ErrInduced, mem_next j)
         | FailAfter \<Rightarrow> (Some ErrInduced, j'))"

definition mem_Bounds :: "'r mem_journal \<Rightarrow> (mem_err, pos \<times> pos) outcome \<times> 'r mem_journal" where
  "mem_Bounds j =
     ((if mem_fault j = Healthy then Ok (of_nat (mem_base j), of_nat (length (mem_hist j)))
       else Err ErrInduced), mem_next j)"

definition mem_Range :: "'r mem_journal \<Rightarrow> pos \<Rightarrow> ((pos \<times> 'r) list \<times> mem_err option) \<times> 'r mem_journal" where
  "mem_Range j p =
     (if unat p < mem_base j \<or> length (mem_hist j) \<le> unat p then (([], Some ErrNotFound), mem_next j)
      else ((case mem_fault j of
               Healthy \<Rightarrow> (positioned (unat p) (mem_hist j), None)
             | FailBefore \<Rightarrow> ([], Some ErrInduced)
             | FailAfter \<Rightarrow> (positioned (unat p) (mem_hist j), Some ErrInduced)), mem_next j))"

definition mem_LastRecord ::
  "'r mem_journal \<Rightarrow> (mem_err, (pos \<times> 'r) option) outcome \<times> 'r mem_journal" where
  "mem_LastRecord j =
     ((if mem_fault j \<noteq> Healthy then Err ErrInduced
       else if mem_base j = length (mem_hist j) then Ok None
       else Ok (Some (of_nat (length (mem_hist j) - 1), last (mem_hist j)))), mem_next j)"

definition mem_Scan ::
  "'r mem_journal \<Rightarrow> pos \<times> pos \<Rightarrow> (pos \<Rightarrow> 'r \<Rightarrow> int) \<Rightarrow>
   (pos \<Rightarrow> 'r \<Rightarrow> (mem_err, 'r option \<times> bool) outcome) \<Rightarrow> (mem_err, 'r option) outcome \<times> 'r mem_journal" where
  "mem_Scan j i cmp f =
     ((if mem_fault j \<noteq> Healthy then Err ErrInduced
       else (case find (\<lambda>k. cmp (of_nat k) (mem_hist j ! k) = 0)
                    [unat (fst i)..<min (unat (snd i)) (length (mem_hist j))] of
               None \<Rightarrow> Err ErrNotFound
             | Some k \<Rightarrow> (case scan_records f (positioned k (mem_hist j)) of
                 Found v \<Rightarrow> Ok v | NotFound \<Rightarrow> Err ErrNotFound | ScanErr x \<Rightarrow> Err ErrInduced
               | ScanPanic t \<Rightarrow> Panic t))), mem_next j)"

definition mem_journal_api :: "('r mem_journal, 'r, mem_err) journal_api" where
  "mem_journal_api = \<lparr>j_Bounds = mem_Bounds, j_Range = mem_Range, j_Append = mem_Append,
     j_Truncate = mem_Truncate, j_LastRecord = mem_LastRecord,
     j_ScanFromSearchResult = mem_Scan, j_IsNotFound = (\<lambda>x. x = ErrNotFound)\<rparr>"

lemmas mem_journal_defs = mem_Append_def mem_Truncate_def mem_Bounds_def mem_Range_def
  mem_LastRecord_def mem_Scan_def mem_journal_api_def mem_fault_def mem_next_def

lemma mem_hist_next [simp]: "mem_hist (mem_next j) = mem_hist j" "mem_base (mem_next j) = mem_base j"
  by (simp_all add: mem_next_def mem_hist_def mem_base_def)

lemma mem_hist_small [simp]: "length (mhist j) < 2 ^ 64 \<Longrightarrow> mem_hist j = mhist j"
  by (simp add: mem_hist_def)

lemma mem_size: "mem_base j \<le> length (mem_hist j)" "length (mem_hist j) \<le> 2 ^ 64 - 1"
  unfolding mem_base_def mem_hist_def by (rule min.cobounded2, simp)

lemma mem_hist_snoc:
  assumes "length (mem_hist j) \<noteq> 2 ^ 64 - 1"
  shows "mem_hist (j'\<lparr>mhist := mem_hist j @ [r], mbase := mem_base j\<rparr>) = mem_hist j @ [r]"
    and "mem_base (j'\<lparr>mhist := mem_hist j @ [r], mbase := mem_base j\<rparr>) = mem_base j"
proof -
  have len: "length (mem_hist j) < 2 ^ 64 - 1" using assms mem_size(2) [of j] by linarith
  then have h: "take (2 ^ 64 - 1) (mem_hist j @ [r]) = mem_hist j @ [r]" by simp
  then show "mem_hist (j'\<lparr>mhist := mem_hist j @ [r], mbase := mem_base j\<rparr>) = mem_hist j @ [r]"
    unfolding mem_hist_def [of "j'\<lparr>mhist := _, mbase := _\<rparr>"] by simp
  then show "mem_base (j'\<lparr>mhist := mem_hist j @ [r], mbase := mem_base j\<rparr>) = mem_base j"
    using mem_size(1) [of j] unfolding mem_base_def [of "j'\<lparr>mhist := _, mbase := _\<rparr>"] by simp
qed

lemma mem_base_set:
  assumes "n \<le> length (mem_hist j)"
  shows "mem_hist ((mem_next j)\<lparr>mbase := n\<rparr>) = mem_hist j" "mem_base ((mem_next j)\<lparr>mbase := n\<rparr>) = n"
  using assms by (simp_all add: mem_hist_def mem_base_def mem_next_def)

lemma unat_of_nat_u64: "n < 2 ^ 64 \<Longrightarrow> unat (of_nat n :: u64) = n"
  by (simp add: unat_of_nat take_bit_eq_mod)

lemma mem_law_Append: "law_Append mem_journal_api mem_base mem_hist"
  unfolding law_Append_def
  by (auto simp: mem_journal_api_def mem_Append_def mem_hist_snoc Let_def split: if_splits fault.splits)

lemma mem_law_size: "law_size mem_base mem_hist"
  unfolding law_size_def
proof (intro allI conjI)
  fix j :: "'a mem_journal"
  show "mem_base j \<le> length (mem_hist j)" by (rule mem_size(1))
  show "length (mem_hist j) < 2 ^ 64" by (rule le_less_trans [OF mem_size(2)]) simp
qed

lemma unat_mem [simp]:
  "unat (of_nat (mem_base j) :: u64) = mem_base j"
  "unat (of_nat (length (mem_hist j)) :: u64) = length (mem_hist j)"
  using mem_law_size [unfolded law_size_def, rule_format, of j] by (simp_all add: unat_of_nat_u64)

lemma unat_mem_last:
  "unat (of_nat (length (mem_hist j) - 1) :: u64) = length (mem_hist j) - 1"
proof (rule unat_of_nat_u64)
  have "length (mem_hist j) < 2 ^ 64" using mem_law_size [unfolded law_size_def, rule_format, of j] by simp
  then show "length (mem_hist j) - 1 < 2 ^ 64" by (rule less_imp_diff_less)
qed

lemma mem_law_Truncate: "law_Truncate mem_journal_api mem_base mem_hist"
  unfolding law_Truncate_def
proof (intro allI impI)
  fix j :: "'a mem_journal" and p :: u64 and e j'
  assume t: "j_Truncate mem_journal_api j p = (e, j')" and p: "unat p \<le> length (mem_hist j)"
  define m where "m = max (mem_base j) (unat p)"
  have m: "m \<le> length (mem_hist j)" using p mem_size(1) [of j] unfolding m_def by simp
  have t': "mem_Truncate j p = (e, j')" using t by (simp add: mem_journal_api_def)
  have "(e = None \<and> j' = (mem_next j)\<lparr>mbase := m\<rparr>) \<or> (e \<noteq> None \<and> j' = mem_next j) \<or>
      (e \<noteq> None \<and> j' = (mem_next j)\<lparr>mbase := m\<rparr>)"
    using t' unfolding mem_Truncate_def Let_def min_absorb1 [OF p] m_def
    by (cases "mem_fault j") auto
  then have "mem_hist j' = mem_hist j \<and> (mem_base j' = m \<or> e \<noteq> None \<and> mem_base j' = mem_base j)"
    using mem_base_set [OF m] by auto
  then show "mem_hist j' = mem_hist j \<and> mem_base j \<le> mem_base j' \<and> mem_base j' \<le> max (mem_base j) (unat p) \<and>
     (e = None \<longrightarrow> mem_base j' = max (mem_base j) (unat p))"
    unfolding m_def by auto
qed

lemma mem_law_Bounds: "law_Bounds mem_journal_api mem_base mem_hist"
  by (auto simp: law_Bounds_def mem_journal_api_def mem_Bounds_def)

lemma mem_law_Range: "law_Range mem_journal_api mem_base mem_hist"
  unfolding law_Range_def
proof (intro allI impI)
  fix j :: "'a mem_journal" and p :: u64 and rs e j'
  assume r: "j_Range mem_journal_api j p = ((rs, e), j')"
  have "\<exists>n. rs = take n (positioned (unat p) (mem_hist j))" if "rs = positioned (unat p) (mem_hist j)"
    using that by (metis take_all order_refl)
  with r show "mem_hist j' = mem_hist j \<and> mem_base j' = mem_base j \<and>
     (mem_base j \<le> unat p \<longrightarrow> unat p < length (mem_hist j) \<longrightarrow>
      (if e = None then rs = positioned (unat p) (mem_hist j)
       else \<exists>n. rs = take n (positioned (unat p) (mem_hist j))))"
    unfolding mem_journal_api_def mem_Range_def by (auto split: if_splits fault.splits)
qed

lemma mem_law_LastRecord: "law_LastRecord mem_journal_api mem_base mem_hist"
  unfolding law_LastRecord_def
proof (intro allI impI)
  fix j :: "'a mem_journal" and res j'
  define p :: u64 where "p = of_nat (length (mem_hist j) - 1)"
  have p: "unat p = length (mem_hist j) - 1" unfolding p_def by (rule unat_mem_last)
  assume "j_LastRecord mem_journal_api j = (res, j')"
  then have "mem_LastRecord j = (res, j')" by (simp add: mem_journal_api_def)
  then show "mem_hist j' = mem_hist j \<and> mem_base j' = mem_base j \<and>
     (case res of Ok None \<Rightarrow> mem_base j = length (mem_hist j)
      | Ok (Some (p, r)) \<Rightarrow> mem_base j < length (mem_hist j) \<and> unat p = length (mem_hist j) - 1 \<and>
          r = last (mem_hist j)
      | Err _ \<Rightarrow> True | Panic _ \<Rightarrow> False)"
    using mem_size(1) [of j] p unfolding mem_LastRecord_def p_def [symmetric]
    by (auto simp: order_less_le split: if_splits)
qed

text \<open>The scan starts at the record on which the comparison is 0.\<close>

lemma find_upt:
  "b \<le> k \<Longrightarrow> k < e \<Longrightarrow> P k \<Longrightarrow> \<forall>i. b \<le> i \<longrightarrow> i < k \<longrightarrow> \<not> P i \<Longrightarrow> find P [b..<e] = Some k"
proof (induction "k - b" arbitrary: b)
  case 0
  then show ?case by (simp add: upt_conv_Cons)
next
  case (Suc n)
  then have "find P [Suc b..<e] = Some k" by simp
  with Suc show ?case by (simp add: upt_conv_Cons)
qed

lemma mem_law_Scan: "law_Scan mem_journal_api mem_base mem_hist"
  unfolding law_Scan_def
proof (intro allI conjI impI)
  fix j :: "'a mem_journal" and b e :: u64 and cmp f res j'
  assume s: "j_ScanFromSearchResult mem_journal_api j (b, e) cmp f = (res, j')"
  then show "mem_hist j' = mem_hist j" "mem_base j' = mem_base j"
    by (auto simp: mem_journal_api_def mem_Scan_def)
  fix k
  assume e: "unat e \<le> length (mem_hist j)"
    and hit: "search_hit cmp (take (unat e) (mem_hist j)) (unat b) k"
  have "find (\<lambda>k. cmp (of_nat k) (mem_hist j ! k) = 0) [unat b..<unat e] = Some k"
    by (rule find_upt) (use hit e in \<open>auto simp: search_hit_def\<close>)
  with s e show "case res of
          Ok v \<Rightarrow> scan_records f (positioned k (mem_hist j)) = Found v
        | Err x \<Rightarrow> j_IsNotFound mem_journal_api x \<longrightarrow> scan_records f (positioned k (mem_hist j)) = NotFound
        | Panic t \<Rightarrow> scan_records f (positioned k (mem_hist j)) = ScanPanic t"
    by (auto simp: mem_journal_api_def mem_Scan_def min_absorb1 split: if_splits scan_result.splits)
qed

lemma mem_journal_laws: "journal_laws mem_journal_api mem_base mem_hist"
  unfolding journal_laws_def
  by (intro conjI mem_law_size mem_law_Bounds mem_law_Range mem_law_Append mem_law_Truncate
      mem_law_LastRecord mem_law_Scan)

end
