(* ===== verification/Stream_Journal.thy ===== *)
theory Stream_Journal
  imports Prelude
begin

text \<open>
  \<open>internal/eventstream/internal/eventstreamjournal\<close>: the records of an event stream's
  journal, the generated accessors and builders, the name of the journal and the comparison
  that its search uses.

  A protobuf message is a record of its fields (without the bookkeeping of \<open>protoimpl\<close>), a
  \<open>oneof\<close> an optional value of a datatype with a constructor for each wrapper struct, and
  a pointer to a message is an \<open>option\<close> wherever the code allows it to be nil. The
  envelopes of the events come from another module: they are a type parameter. Messages are
  values: the modelled code never changes a message that it has handed on.
\<close>

section \<open>Messages\<close>

record 'ev events_appended =
  Events :: "'ev list"

datatype 'ev stream_operation = Record_EventsAppended "'ev events_appended option"

record 'ev stream_record =
  StreamOffsetBefore :: u64
  StreamOffsetAfter :: u64
  Operation :: "'ev stream_operation option"

definition zero_stream_record :: "'ev stream_record" where
  "zero_stream_record = \<lparr>StreamOffsetBefore = 0, StreamOffsetAfter = 0, Operation = None\<rparr>"

definition zero_events_appended :: "'ev events_appended" where
  "zero_events_appended = \<lparr>Events = []\<rparr>"

section \<open>Accessors\<close>

fun GetStreamOffsetBefore :: "'ev stream_record option \<Rightarrow> u64" where
  "GetStreamOffsetBefore (Some x) = StreamOffsetBefore x"
| "GetStreamOffsetBefore None = 0"

fun GetStreamOffsetAfter :: "'ev stream_record option \<Rightarrow> u64" where
  "GetStreamOffsetAfter (Some x) = StreamOffsetAfter x"
| "GetStreamOffsetAfter None = 0"

fun GetOperation :: "'ev stream_record option \<Rightarrow> 'ev stream_operation option" where
  "GetOperation (Some x) = Operation x"
| "GetOperation None = None"

fun GetEventsAppended :: "'ev stream_record option \<Rightarrow> 'ev events_appended option" where
  "GetEventsAppended (Some x) = (case Operation x of Some (Record_EventsAppended v) \<Rightarrow> v | None \<Rightarrow> None)"
| "GetEventsAppended None = None"

fun GetEvents :: "'ev events_appended option \<Rightarrow> 'ev list" where
  "GetEvents (Some x) = Events x"
| "GetEvents None = []"

definition TryGetEventsAppended :: "'ev stream_record option \<Rightarrow> 'ev events_appended option \<times> bool" where
  "TryGetEventsAppended x =
     (case GetOperation x of Some (Record_EventsAppended v) \<Rightarrow> (v, True) | None \<Rightarrow> (None, False))"

text \<open>The functions passed to the switches change the state \<open>'s\<close> of the caller.\<close>

definition MustSwitch_stream_Operation ::
  "'ev stream_record option \<Rightarrow> ('ev events_appended option \<Rightarrow> 's \<Rightarrow> 's) \<Rightarrow> 's \<Rightarrow> ('e, 's) outcome" where
  "MustSwitch_stream_Operation x caseEventsAppended s =
     (case GetOperation x of
        Some (Record_EventsAppended v) \<Rightarrow> Ok (caseEventsAppended v s)
      | None \<Rightarrow> Panic ''MustSwitch_Record_Operation: x.Operation is nil'')"

definition Switch_stream_Operation ::
  "'ev stream_record option \<Rightarrow> ('ev events_appended option \<Rightarrow> 's \<Rightarrow> 's) \<Rightarrow> ('s \<Rightarrow> 's) \<Rightarrow> 's \<Rightarrow> 's" where
  "Switch_stream_Operation x caseEventsAppended none s =
     (case GetOperation x of
        Some (Record_EventsAppended v) \<Rightarrow> caseEventsAppended v s
      | None \<Rightarrow> none s)"

definition MustMap_stream_Operation ::
  "'ev stream_record option \<Rightarrow> ('ev events_appended option \<Rightarrow> 't) \<Rightarrow> ('e, 't) outcome" where
  "MustMap_stream_Operation x caseEventsAppended =
     (case GetOperation x of
        Some (Record_EventsAppended v) \<Rightarrow> Ok (caseEventsAppended v)
      | None \<Rightarrow> Panic ''MustMap_Record_Operation: x.Operation is nil'')"

definition Map_stream_Operation ::
  "'ev stream_record option \<Rightarrow> ('ev events_appended option \<Rightarrow> 't) \<Rightarrow> 't \<Rightarrow> 't" where
  "Map_stream_Operation x caseEventsAppended none =
     (case GetOperation x of
        Some (Record_EventsAppended v) \<Rightarrow> caseEventsAppended v
      | None \<Rightarrow> none)"

section \<open>Setters and builders\<close>

text \<open>
  The setters change the message they are called on, and the methods of a builder its
  prototype; each returns the changed value here. \<open>From\<close> dereferences its argument.
\<close>

definition SetStreamOffsetBefore :: "u64 \<Rightarrow> 'ev stream_record \<Rightarrow> 'ev stream_record" where
  "SetStreamOffsetBefore v x = x\<lparr>StreamOffsetBefore := v\<rparr>"

definition SetStreamOffsetAfter :: "u64 \<Rightarrow> 'ev stream_record \<Rightarrow> 'ev stream_record" where
  "SetStreamOffsetAfter v x = x\<lparr>StreamOffsetAfter := v\<rparr>"

definition SetEventsAppended :: "'ev events_appended option \<Rightarrow> 'ev stream_record \<Rightarrow> 'ev stream_record" where
  "SetEventsAppended v x = x\<lparr>Operation := Some (Record_EventsAppended v)\<rparr>"

definition SetEvents :: "'ev list \<Rightarrow> 'ev events_appended \<Rightarrow> 'ev events_appended" where
  "SetEvents v x = x\<lparr>Events := v\<rparr>"

datatype 'ev stream_record_builder = RecordBuilder (prototype: "'ev stream_record")

definition NewRecordBuilder :: "'ev stream_record_builder" where
  "NewRecordBuilder = RecordBuilder zero_stream_record"

fun RecordBuilder_From ::
  "'ev stream_record_builder \<Rightarrow> 'ev stream_record option \<Rightarrow> ('e, 'ev stream_record_builder) outcome" where
  "RecordBuilder_From (RecordBuilder p) (Some x) =
     Ok (RecordBuilder (p\<lparr>StreamOffsetBefore := StreamOffsetBefore x,
       StreamOffsetAfter := StreamOffsetAfter x, Operation := Operation x\<rparr>))"
| "RecordBuilder_From b None = Panic ''invalid memory address or nil pointer dereference''"

fun RecordBuilder_Build :: "'ev stream_record_builder \<Rightarrow> 'ev stream_record" where
  "RecordBuilder_Build (RecordBuilder p) = \<lparr>StreamOffsetBefore = StreamOffsetBefore p,
     StreamOffsetAfter = StreamOffsetAfter p, Operation = Operation p\<rparr>"

fun WithStreamOffsetBefore :: "u64 \<Rightarrow> 'ev stream_record_builder \<Rightarrow> 'ev stream_record_builder" where
  "WithStreamOffsetBefore v (RecordBuilder p) = RecordBuilder (p\<lparr>StreamOffsetBefore := v\<rparr>)"

fun WithStreamOffsetAfter :: "u64 \<Rightarrow> 'ev stream_record_builder \<Rightarrow> 'ev stream_record_builder" where
  "WithStreamOffsetAfter v (RecordBuilder p) = RecordBuilder (p\<lparr>StreamOffsetAfter := v\<rparr>)"

fun WithEventsAppended ::
  "'ev events_appended option \<Rightarrow> 'ev stream_record_builder \<Rightarrow> 'ev stream_record_builder" where
  "WithEventsAppended v (RecordBuilder p) =
     RecordBuilder (p\<lparr>Operation := Some (Record_EventsAppended v)\<rparr>)"

datatype 'ev events_appended_builder = EventsAppendedBuilder "'ev events_appended"

definition NewEventsAppendedBuilder :: "'ev events_appended_builder" where
  "NewEventsAppendedBuilder = EventsAppendedBuilder zero_events_appended"

fun EventsAppendedBuilder_From ::
  "'ev events_appended_builder \<Rightarrow> 'ev events_appended option \<Rightarrow> ('e, 'ev events_appended_builder) outcome" where
  "EventsAppendedBuilder_From (EventsAppendedBuilder p) (Some x) =
     Ok (EventsAppendedBuilder (p\<lparr>Events := Events x\<rparr>))"
| "EventsAppendedBuilder_From b None = Panic ''invalid memory address or nil pointer dereference''"

fun EventsAppendedBuilder_Build :: "'ev events_appended_builder \<Rightarrow> 'ev events_appended" where
  "EventsAppendedBuilder_Build (EventsAppendedBuilder p) = \<lparr>Events = Events p\<rparr>"

fun WithEvents :: "'ev list \<Rightarrow> 'ev events_appended_builder \<Rightarrow> 'ev events_appended_builder" where
  "WithEvents v (EventsAppendedBuilder p) = EventsAppendedBuilder (p\<lparr>Events := v\<rparr>)"

lemmas stream_record_defs = zero_stream_record_def zero_events_appended_def NewRecordBuilder_def
  NewEventsAppendedBuilder_def SetStreamOffsetBefore_def SetStreamOffsetAfter_def
  SetEventsAppended_def SetEvents_def

lemma stream_record_eqI:
  fixes x y :: "'ev stream_record"
  assumes "StreamOffsetBefore x = StreamOffsetBefore y" "StreamOffsetAfter x = StreamOffsetAfter y"
    "Operation x = Operation y"
  shows "x = y"
  using assms by simp

section \<open>Name and search\<close>

definition Name :: "('u \<Rightarrow> string) \<Rightarrow> 'u \<Rightarrow> string" where
  "Name AsString streamID = ''eventstream:'' @ AsString streamID"

definition SearchByOffset :: "u64 \<Rightarrow> u64 \<Rightarrow> 'ev stream_record \<Rightarrow> int" where
  "SearchByOffset off pos rec =
     (if StreamOffsetBefore rec > off then 1
      else if StreamOffsetAfter rec \<le> off then - 1
      else 0)"

lemma SearchByOffset_sgn:
  "SearchByOffset off pos rec = 0 \<longleftrightarrow> StreamOffsetBefore rec \<le> off \<and> off < StreamOffsetAfter rec"
  "SearchByOffset off pos rec > 0 \<longleftrightarrow> off < StreamOffsetBefore rec"
  "SearchByOffset off pos rec < 0 \<longleftrightarrow> StreamOffsetBefore rec \<le> off \<and> StreamOffsetAfter rec \<le> off"
  by (auto simp: SearchByOffset_def)

section \<open>Properties\<close>

text \<open>
The record that the worker builds is the one it asked for, whatever order the fields are
set in, and the builder can be reused: a message built from a prototype is that prototype.
\<close>

lemma RecordBuilder_roundtrip:
  "case RecordBuilder_From NewRecordBuilder (Some x) of
     Ok b \<Rightarrow> RecordBuilder_Build b = x \<and>
       RecordBuilder_Build (WithStreamOffsetBefore o1 (WithStreamOffsetAfter o2 (WithEventsAppended v b))) =
         SetEventsAppended v (SetStreamOffsetAfter o2 (SetStreamOffsetBefore o1 x)) \<and>
       TryGetEventsAppended (Some (RecordBuilder_Build (WithEventsAppended v b))) = (v, True) \<and>
       GetEventsAppended (Some (RecordBuilder_Build (WithEventsAppended v b))) = v
   | Err _ \<Rightarrow> False | Panic _ \<Rightarrow> False"
  by (simp add: stream_record_defs TryGetEventsAppended_def)

end
