(* ===== verification/Servers.thy ===== *)
theory Servers
  imports Prelude "HOL-Library.Multiset"
begin

text \<open>
  The contract between a goroutine that serves requests and those that send them. What a server
  is given is the requests that reach it; a good one replies to each of them once, in order, and
  truthfully. The workers of the event streams and the supervisor of an integration are servers
  of this kind; their clients are the event stream supervisor and the command executor.
\<close>

definition sent_to :: "nat \<Rightarrow> (nat \<times> 'q) list \<Rightarrow> 'q list" where
  "sent_to i log = map snd (filter (\<lambda>p. fst p = i) log)"

lemma sent_to_simps [simp]:
  "sent_to i [] = []" "sent_to i ((k, q) # log) = (if k = i then q # sent_to i log else sent_to i log)"
  by (simp_all add: sent_to_def)

lemma sent_to_sum:
  "\<forall>p \<in> set log. fst p < n \<Longrightarrow> mset (map snd log) = (\<Sum>i<n. mset (sent_to i log))"
proof (induction log)
  case (Cons p log)
  obtain k q where p: "p = (k, q)" by fastforce
  have "(\<Sum>i<n. mset (sent_to i (p # log))) = (\<Sum>i<n. mset (sent_to i log) + (if i = k then {#q#} else {#}))"
    by (rule sum.cong) (auto simp: p)
  also have "\<dots> = (\<Sum>i<n. mset (sent_to i log)) + {#q#}"
    using Cons.prems by (simp add: sum.distrib p)
  finally show ?case using Cons by (simp add: p)
qed simp

text \<open>
  What a run received: of the requests \<open>pend\<close> that it could read at its start those that were not
  left, \<open>left\<close>, at its end. Its replies are what it put in the channel of each.
\<close>

definition received :: "'q list \<Rightarrow> 'q list \<Rightarrow> 'q list" where
  "received pend left = take (length pend - length left) pend"

lemma received_prefix: "xs @ left = pend \<Longrightarrow> received pend left = xs"
  by (auto simp: received_def)

definition replies_on :: "('e \<Rightarrow> 'q) \<Rightarrow> ('e \<Rightarrow> 'r list) \<Rightarrow> 'e list \<Rightarrow> ('q \<times> 'r) list" where
  "replies_on req buf es = concat (map (\<lambda>e. map (Pair (req e)) (buf e)) es)"

lemma replies_on_once:
  "list_all (\<lambda>e. \<exists>r. buf e = [r] \<and> P e r) es \<Longrightarrow> map fst (replies_on req buf es) = map req es"
  by (induction es) (auto simp: replies_on_def)

lemma replies_on_mem:
  "list_all (\<lambda>e. \<exists>r. buf e = [r] \<and> P e r) es \<Longrightarrow> (q, r) \<in> set (replies_on req buf es) \<Longrightarrow>
   \<exists>e \<in> set es. q = req e \<and> buf e = [r] \<and> P e r"
  by (fastforce simp: replies_on_def list_all_iff)

locale server =
  fixes good :: "'w \<Rightarrow> bool" and asked :: "'w \<Rightarrow> 'q list" and replies :: "'w \<Rightarrow> ('q \<times> 'r) list"
    and truthful :: "'w \<Rightarrow> 'q \<Rightarrow> 'r \<Rightarrow> bool"
  assumes replies_asked: "good w \<Longrightarrow> map fst (replies w) = asked w"
    and replies_true: "good w \<Longrightarrow> (q, r) \<in> set (replies w) \<Longrightarrow> truthful w q r"
begin

lemma reply_to:
  assumes "good w" "q \<in> set (asked w)"
  shows "\<exists>r. (q, r) \<in> set (replies w) \<and> truthful w q r"
proof -
  have "q \<in> fst ` set (replies w)" using assms replies_asked [OF assms(1)] by (metis set_map)
  then obtain r where r: "(q, r) \<in> set (replies w)" by force
  then show ?thesis using replies_true [OF assms(1)] by blast
qed

text \<open>The reply to the \<open>n\<close>-th request that reached it is its \<open>n\<close>-th reply.\<close>

lemma nth_reply:
  assumes "good w" "n < length (replies w)"
  shows "n < length (asked w)" "fst (replies w ! n) = asked w ! n" "truthful w (asked w ! n) (snd (replies w ! n))"
proof -
  note eq = replies_asked [OF assms(1), symmetric]
  show "n < length (asked w)" "fst (replies w ! n) = asked w ! n" using assms(2) by (simp_all add: eq)
  then have "(asked w ! n, snd (replies w ! n)) \<in> set (replies w)" using nth_mem [OF assms(2)] by (metis prod.collapse)
  then show "truthful w (asked w ! n) (snd (replies w ! n))" by (rule replies_true [OF assms(1)])
qed

text \<open>Requests that are spread over servers all get their reply, each from the one it was sent to.\<close>

lemma dispatched:
  assumes "\<And>i. i < n \<Longrightarrow> good (ws i)" and "\<And>i. i < n \<Longrightarrow> asked (ws i) = sent_to i log"
    and "\<forall>p \<in> set log. fst p < n"
  shows "mset (map snd log) = (\<Sum>i<n. mset (map fst (replies (ws i))))"
    and "(i, q) \<in> set log \<Longrightarrow> \<exists>r. (q, r) \<in> set (replies (ws i)) \<and> truthful (ws i) q r"
proof -
  show "mset (map snd log) = (\<Sum>i<n. mset (map fst (replies (ws i))))"
    using sent_to_sum [OF assms(3)] replies_asked [OF assms(1)] assms(2) by simp
  assume iq: "(i, q) \<in> set log"
  then have "i < n" "q \<in> set (sent_to i log)" using assms(3) by (force simp: sent_to_def)+
  then show "\<exists>r. (q, r) \<in> set (replies (ws i)) \<and> truthful (ws i) q r"
    using reply_to [OF assms(1)] assms(2) by auto
qed

end

end
