(* ===== verification/Stream_Worker.thy ===== *)
theory Stream_Worker
  imports Stream_Journal Mem_Journal Messaging Fsm Servers
begin

text \<open>
  \<open>internal/eventstream/worker.go\<close> and \<open>append.go\<close>: the worker that owns one event
  stream, appends events to its journal and recognises the requests that a prior attempt has
  already appended.

  The code that is not part of the repository is a \<open>stream_deps\<close>: the journal, and of the
  events the accessor of the message identifier and the equality of identifiers.
\<close>

section \<open>Requests, responses and the worker\<close>

record ('j, 'ev, 'id, 'x) stream_deps = "('j, 'ev stream_record, 'x) journal_api" +
  MessageId :: "'ev \<Rightarrow> 'id"
  id_Equal :: "'id \<Rightarrow> 'id \<Rightarrow> bool"

record ('u, 'ev) AppendRequest =
  StreamID :: 'u
  req_Events :: "'ev list"
  OffsetHint :: u64

record AppendResponse =
  BeginOffset :: u64
  EndOffset :: u64
  AppendedByPriorAttempt :: bool

definition zero_AppendResponse :: AppendResponse where
  "zero_AppendResponse = \<lparr>BeginOffset = 0, EndOffset = 0, AppendedByPriorAttempt = False\<rparr>"

record worker =
  wpos :: pos
  woff :: u64

definition zero_worker :: worker where
  "zero_worker = \<lparr>wpos = 0, woff = 0\<rparr>"

section \<open>Appending events\<close>

definition mightBeDuplicates :: "('u, 'ev) AppendRequest \<Rightarrow> worker \<Rightarrow> bool" where
  "mightBeDuplicates req w \<longleftrightarrow> OffsetHint req < woff w"

definition find_append ::
  "('j, 'ev, 'id, 'x) stream_deps \<Rightarrow> ('u, 'ev) AppendRequest \<Rightarrow> pos \<Rightarrow> 'ev stream_record \<Rightarrow>
   ('x, 'ev stream_record option \<times> bool) outcome" where
  "find_append D req p rec =
     (case GetEventsAppended (Some rec) of
        Some op \<Rightarrow>
          (case req_Events req of
             [] \<Rightarrow> Panic ''index out of range''
           | target # _ \<Rightarrow>
               (case Events op of
                  [] \<Rightarrow> Panic ''index out of range''
                | candidate # _ \<Rightarrow>
                    Ok (Some rec, id_Equal D (MessageId D candidate) (MessageId D target))))
      | None \<Rightarrow> Ok (None, False))"

definition findAppendRecord ::
  "('j, 'ev, 'id, 'x) stream_deps \<Rightarrow> ('u, 'ev) AppendRequest \<Rightarrow> worker \<Rightarrow> 'j \<Rightarrow>
   ('x, 'ev stream_record option) outcome \<times> 'j" where
  "findAppendRecord D req w j =
     j_ScanFromSearchResult D j (0, wpos w) (SearchByOffset (OffsetHint req)) (find_append D req)"

text \<open>The part of \<open>appendEvents\<close> after the check for duplicates.\<close>

definition append_record :: "u64 \<Rightarrow> u64 \<Rightarrow> 'ev list \<Rightarrow> 'ev stream_record" where
  "append_record before after events =
     RecordBuilder_Build (WithEventsAppended (Some \<lparr>Events = events\<rparr>)
       (WithStreamOffsetAfter after (WithStreamOffsetBefore before NewRecordBuilder)))"

definition appendToJournal ::
  "('j, 'ev, 'id, 'x) stream_deps \<Rightarrow> ('u, 'ev) AppendRequest \<Rightarrow> worker \<Rightarrow> 'j \<Rightarrow>
   ('x, AppendResponse) outcome \<times> worker \<times> 'j" where
  "appendToJournal D req w j =
     (let before = woff w;
          after = woff w + of_nat (length (req_Events req))
      in case j_Append D j (wpos w) (append_record before after (req_Events req)) of
           (Some x, j') \<Rightarrow> (Err x, w, j')
         | (None, j') \<Rightarrow>
             (Ok \<lparr>BeginOffset = before, EndOffset = after, AppendedByPriorAttempt = False\<rparr>,
              w\<lparr>wpos := wpos w + 1, woff := after\<rparr>, j'))"

definition appendEvents ::
  "('j, 'ev, 'id, 'x) stream_deps \<Rightarrow> ('u, 'ev) AppendRequest \<Rightarrow> worker \<Rightarrow> 'j \<Rightarrow>
   ('x, AppendResponse) outcome \<times> worker \<times> 'j" where
  "appendEvents D req w j =
     (if mightBeDuplicates req w
      then (case findAppendRecord D req w j of
              (Ok (Some rec), j') \<Rightarrow>
                (Ok \<lparr>BeginOffset = StreamOffsetBefore rec, EndOffset = StreamOffsetAfter rec,
                   AppendedByPriorAttempt = True\<rparr>, w, j')
            | (Ok None, j') \<Rightarrow> (Panic ''invalid memory address or nil pointer dereference'', w, j')
            | (Err x, j') \<Rightarrow> if j_IsNotFound D x then appendToJournal D req w j' else (Err x, w, j')
            | (Panic t, j') \<Rightarrow> (Panic t, w, j'))
      else appendToJournal D req w j)"

section \<open>The worker's machine\<close>

type_synonym ('u, 'ev, 'x) append_exchange = "(('u, 'ev) AppendRequest, AppendResponse, 'x) Exchange"

text \<open>
  The cases of the \<open>select\<close> in \<open>idleState\<close>, in the order in which the worker's
  environment makes them happen; the worker waits forever when there are none left.
  \<open>answered\<close> are the exchanges the worker has sent a response on, with their channels.
\<close>

datatype ('u, 'ev, 'x) idle_case =
  CtxDone 'x | ShutdownSignaled | IdleTimedOut | Received "('u, 'ev, 'x) append_exchange"

record ('j, 'u, 'ev, 'x) worker_world =
  wk :: worker
  jr :: 'j
  idle_cases :: "('u, 'ev, 'x) idle_case list"
  answered :: "('u, 'ev, 'x) append_exchange list"
  ctx_err :: "'x option"

datatype ('u, 'ev, 'x) worker_state = IdleState | HandleAppendState "('u, 'ev, 'x) append_exchange"

definition defaultIdleTimeout :: int where
  "defaultIdleTimeout = 5 * 60 * 10 ^ 9"

definition idle_timeout :: "int \<Rightarrow> int" where
  "idle_timeout IdleTimeout = (if IdleTimeout \<le> 0 then defaultIdleTimeout else IdleTimeout)"

type_synonym ('j, 'u, 'ev, 'x) worker_result =
  "(('u, 'ev, 'x) worker_state, 'x, ('j, 'u, 'ev, 'x) worker_world) state_result"

definition worker_idleState :: "('j, 'u, 'ev, 'x) worker_world \<Rightarrow> ('j, 'u, 'ev, 'x) worker_result" where
  "worker_idleState s =
     (case idle_cases s of
        [] \<Rightarrow> Blocks s
      | CtxDone x # cs \<Rightarrow> Done Stop (s\<lparr>idle_cases := cs, ctx_err := Some x\<rparr>)
      | ShutdownSignaled # cs \<Rightarrow> Done Stop (s\<lparr>idle_cases := cs\<rparr>)
      | IdleTimedOut # cs \<Rightarrow> Done Stop (s\<lparr>idle_cases := cs\<rparr>)
      | Received ex # cs \<Rightarrow> Done (With ex HandleAppendState) (s\<lparr>idle_cases := cs\<rparr>))"

text \<open>Sending a response: the action follows if the send proceeds.\<close>

definition respond ::
  "('u, 'ev, 'x) append_exchange \<Rightarrow> (AppendResponse, 'x) Failable chan chan_op \<Rightarrow>
   (('u, 'ev, 'x) worker_state, 'x) action \<Rightarrow> ('j, 'u, 'ev, 'x) worker_world \<Rightarrow> ('j, 'u, 'ev, 'x) worker_result" where
  "respond ex sent act s =
     (case sent of
        Proceeds c \<Rightarrow> Done act (s\<lparr>answered := answered s @ [ex\<lparr>Response := c\<rparr>]\<rparr>)
      | WouldBlock \<Rightarrow> Blocks s
      | ChanPanic t \<Rightarrow> Panics t s)"

definition handleAppendState ::
  "('j, 'ev, 'id, 'x) stream_deps \<Rightarrow> ('u, 'ev, 'x) append_exchange \<Rightarrow>
   ('j, 'u, 'ev, 'x) worker_world \<Rightarrow> ('j, 'u, 'ev, 'x) worker_result" where
  "handleAppendState D ex s =
     (if length (req_Events (Request ex)) = 0 then Panics ''cannot record zero events'' s
      else
        (case appendEvents D (Request ex) (wk s) (jr s) of
           (res, w', j') \<Rightarrow>
             (let s' = s\<lparr>wk := w', jr := j'\<rparr>
              in case res of
                   Err x \<Rightarrow> respond ex (Exchange_Err zero_AppendResponse x ex) (Fail x) s'
                 | Panic t \<Rightarrow> Panics t s'
                 | Ok r \<Rightarrow>
                     respond ex (Exchange_Ok r ex)
                       (if AppendedByPriorAttempt r then EnterState IdleState else EnterState IdleState) s')))"

fun worker_machine ::
  "('j, 'ev, 'id, 'x) stream_deps \<Rightarrow>
   (('u, 'ev, 'x) worker_state, 'x, ('j, 'u, 'ev, 'x) worker_world) machine" where
  "worker_machine D IdleState s = worker_idleState s"
| "worker_machine D (HandleAppendState ex) s = handleAppendState D ex s"

text \<open>The position and offset after the last record of the journal.\<close>

definition worker_at :: "(pos \<times> 'ev stream_record) option \<Rightarrow> worker \<Rightarrow> worker" where
  "worker_at latest w =
     (case latest of
        Some (p, rec) \<Rightarrow> w\<lparr>wpos := p + 1, woff := StreamOffsetAfter rec\<rparr>
      | None \<Rightarrow> w)"

definition worker_Run ::
  "('j, 'ev, 'id, 'x) stream_deps \<Rightarrow> ('j, 'u, 'ev, 'x) worker_world \<Rightarrow>
   ('x, ('j, 'u, 'ev, 'x) worker_world) run_result option" where
  "worker_Run D s =
     (case j_LastRecord D (jr s) of
        (Err x, j') \<Rightarrow> Some (Returned (Some x) (s\<lparr>jr := j'\<rparr>))
      | (Panic t, j') \<Rightarrow> Some (Panicked t (s\<lparr>jr := j'\<rparr>))
      | (Ok latest, j') \<Rightarrow>
          Start (worker_machine D) ctx_err IdleState None (s\<lparr>jr := j', wk := worker_at latest (wk s)\<rparr>))"

section \<open>Well-formed streams\<close>

definition record_events :: "'ev stream_record \<Rightarrow> 'ev list" where
  "record_events r = GetEvents (GetEventsAppended (Some r))"

definition first_id :: "('j, 'ev, 'id, 'x) stream_deps \<Rightarrow> 'ev stream_record \<Rightarrow> 'id option" where
  "first_id D r = (case record_events r of [] \<Rightarrow> None | e # _ \<Rightarrow> Some (MessageId D e))"

definition stream_events :: "'ev stream_record list \<Rightarrow> 'ev list" where
  "stream_events rs = concat (map record_events rs)"

definition stream_off :: "'ev stream_record list \<Rightarrow> nat" where
  "stream_off rs = length (stream_events rs)"

text \<open>
  The records of a stream carry non-empty batches of events, and the offsets of each are the
  numbers of events before and after it.
\<close>

definition record_wf :: "nat \<Rightarrow> 'ev stream_record \<Rightarrow> bool" where
  "record_wf off r \<longleftrightarrow>
     Operation r = Some (Record_EventsAppended (Some \<lparr>Events = record_events r\<rparr>)) \<and>
     record_events r \<noteq> [] \<and> unat (StreamOffsetBefore r) = off \<and>
     unat (StreamOffsetAfter r) = off + length (record_events r)"

definition stream_wf :: "'ev stream_record list \<Rightarrow> bool" where
  "stream_wf rs \<longleftrightarrow> (\<forall>k < length rs. record_wf (stream_off (take k rs)) (rs ! k))"

definition worker_ok :: "'ev stream_record list \<Rightarrow> worker \<Rightarrow> bool" where
  "worker_ok rs w \<longleftrightarrow> unat (wpos w) \<le> length rs \<and> unat (woff w) = stream_off (take (unat (wpos w)) rs)"

lemma stream_off_simps [simp]:
  "stream_off [] = 0" "stream_off (rs @ [r]) = stream_off rs + length (record_events r)"
  "stream_off (r # rs) = length (record_events r) + stream_off rs"
  by (simp_all add: stream_off_def stream_events_def)

lemma stream_off_append: "stream_off (rs @ rs') = stream_off rs + stream_off rs'"
  by (simp add: stream_off_def stream_events_def)

lemma stream_off_take_mono: "k \<le> n \<Longrightarrow> stream_off (take k rs) \<le> stream_off (take n rs)"
proof -
  assume "k \<le> n"
  then have "take n rs = take k rs @ take (n - k) (drop k rs)"
    by (metis le_add_diff_inverse take_add)
  then show ?thesis by (simp add: stream_off_append)
qed

lemma stream_off_take_le: "stream_off (take k rs) \<le> stream_off rs"
  by (metis nle_le stream_off_take_mono take_all)

lemma stream_off_Suc:
  "k < length rs \<Longrightarrow> stream_off (take (Suc k) rs) = stream_off (take k rs) + length (record_events (rs ! k))"
  by (simp add: take_Suc_conv_app_nth)

lemma stream_wf_nth:
  assumes "stream_wf rs" "k < length rs"
  shows "Operation (rs ! k) = Some (Record_EventsAppended (Some \<lparr>Events = record_events (rs ! k)\<rparr>))"
    and "record_events (rs ! k) \<noteq> []"
    and "unat (StreamOffsetBefore (rs ! k)) = stream_off (take k rs)"
    and "unat (StreamOffsetAfter (rs ! k)) = stream_off (take (Suc k) rs)"
proof -
  have "record_wf (stream_off (take k rs)) (rs ! k)" using assms by (simp add: stream_wf_def)
  then show "Operation (rs ! k) = Some (Record_EventsAppended (Some \<lparr>Events = record_events (rs ! k)\<rparr>))"
    "record_events (rs ! k) \<noteq> []" "unat (StreamOffsetBefore (rs ! k)) = stream_off (take k rs)"
    "unat (StreamOffsetAfter (rs ! k)) = stream_off (take (Suc k) rs)"
    by (simp_all add: record_wf_def stream_off_Suc [OF assms(2)])
qed

lemma stream_wf_Nil [simp]: "stream_wf []"
  by (simp add: stream_wf_def)

lemma stream_wf_snoc: "stream_wf (rs @ [r]) \<longleftrightarrow> stream_wf rs \<and> record_wf (stream_off rs) r"
  unfolding stream_wf_def by (auto simp: nth_append less_Suc_eq)

lemma stream_wf_take: "stream_wf rs \<Longrightarrow> stream_wf (take n rs)"
  by (simp add: stream_wf_def min_def)

lemma stream_wf_last:
  assumes "stream_wf rs" "rs \<noteq> []"
  shows "unat (StreamOffsetAfter (last rs)) = stream_off rs"
  using stream_wf_nth(4) [OF assms(1), of "length rs - 1"] assms(2) by (simp add: last_conv_nth)

text \<open>The search by offset hits the record that contains the offset.\<close>

lemma stream_search:
  assumes wf: "stream_wf rs" and off: "unat off < stream_off rs"
  shows "\<exists>k. search_hit (SearchByOffset off) rs 0 k \<and> k < length rs \<and> stream_off (take k rs) \<le> unat off"
proof -
  define k where "k = (LEAST k. unat off < stream_off (take (Suc k) rs))"
  have ne: "rs \<noteq> []" using off by auto
  then have ex: "unat off < stream_off (take (Suc (length rs - 1)) rs)" using off by simp
  then have after: "unat off < stream_off (take (Suc k) rs)" unfolding k_def by (rule LeastI)
  have "k \<le> length rs - 1" unfolding k_def using ex by (rule Least_le)
  moreover have "0 < length rs" using ne by simp
  ultimately have k: "k < length rs" by linarith
  have below: "stream_off (take (Suc i) rs) \<le> unat off" if "i < k" for i
    using not_less_Least [of i "\<lambda>k. unat off < stream_off (take (Suc k) rs)"] that unfolding k_def by simp
  have before: "stream_off (take k rs) \<le> unat off"
    using below [of "k - 1"] by (cases k) simp_all
  have "search_hit (SearchByOffset off) rs 0 k"
    unfolding search_hit_def SearchByOffset_sgn
  proof (intro conjI allI impI)
    show "StreamOffsetBefore (rs ! k) \<le> off" "off < StreamOffsetAfter (rs ! k)"
      using stream_wf_nth(3,4) [OF wf k] before after by (simp_all add: word_le_nat_alt word_less_nat_alt)
    fix i assume i: "i < k"
    then have "stream_off (take i rs) \<le> unat off"
      using below [OF i] stream_off_take_mono [of i "Suc i" rs] by linarith
    with i show "StreamOffsetBefore (rs ! i) \<le> off" "StreamOffsetAfter (rs ! i) \<le> off"
      using stream_wf_nth(3,4) [OF wf, of i] k below [OF i] by (simp_all add: word_le_nat_alt)
  next
    fix i assume i: "k < i" "i < length rs"
    then show "off < StreamOffsetBefore (rs ! i)"
      using stream_wf_nth(3) [OF wf i(2)] after stream_off_take_mono [of "Suc k" i rs]
      by (simp add: word_less_nat_alt)
  qed (use k in auto)
  with k before show ?thesis by blast
qed

section \<open>What appending does\<close>

definition ids_ok :: "('j, 'ev, 'id, 'x) stream_deps \<Rightarrow> bool" where
  "ids_ok D \<longleftrightarrow> (\<forall>a b. id_Equal D a b \<longleftrightarrow> a = b)"

text \<open>The identifier by which a request is recognised: that of its first event.\<close>

definition request_id :: "('j, 'ev, 'id, 'x) stream_deps \<Rightarrow> ('u, 'ev) AppendRequest \<Rightarrow> 'id" where
  "request_id D req = MessageId D (hd (req_Events req))"

lemma find_append_record:
  assumes "ids_ok D" "req_Events req \<noteq> []"
    and "Operation r = Some (Record_EventsAppended (Some \<lparr>Events = record_events r\<rparr>))" "record_events r \<noteq> []"
  shows "find_append D req p r = Ok (Some r, first_id D r = Some (request_id D req))"
proof -
  have "GetEventsAppended (Some r) = Some \<lparr>Events = record_events r\<rparr>" using assms(3) by simp
  with assms(1,2,4) show ?thesis
    by (cases "req_Events req"; cases "record_events r")
      (simp_all add: find_append_def first_id_def request_id_def ids_ok_def)
qed

lemma scan_find_append:
  assumes "ids_ok D" "req_Events req \<noteq> []" "stream_wf rs"
  shows "scan_records (find_append D req) (positioned k rs) =
    (case find (\<lambda>r. first_id D r = Some (request_id D req)) (drop k rs) of
       Some r \<Rightarrow> Found (Some r) | None \<Rightarrow> NotFound)"
proof -
  have "\<forall>(p, r) \<in> set (positioned k rs).
      find_append D req p r = Ok (Some r, first_id D r = Some (request_id D req))"
  proof (clarify)
    fix p r assume "(p, r) \<in> set (positioned k rs)"
    then obtain i where "i < length rs" "r = rs ! i" by (auto simp: positioned_def)
    then show "find_append D req p r = Ok (Some r, first_id D r = Some (request_id D req))"
      using find_append_record [OF assms(1,2)] stream_wf_nth [OF assms(3)] by blast
  qed
  from scan_records_find [OF this] show ?thesis by (simp add: map_snd_positioned)
qed

text \<open>Nothing that the request could be a duplicate of has been appended.\<close>

definition no_duplicate ::
  "('j, 'ev, 'id, 'x) stream_deps \<Rightarrow> ('u, 'ev) AppendRequest \<Rightarrow> 'ev stream_record list \<Rightarrow> bool" where
  "no_duplicate D req rs \<longleftrightarrow>
     (\<forall>r \<in> set rs. first_id D r = Some (request_id D req) \<longrightarrow> StreamOffsetAfter r \<le> OffsetHint req)"

lemma no_duplicate_before:
  assumes wf: "stream_wf rs" and k: "k \<le> length rs" "stream_off (take k rs) \<le> unat (OffsetHint req)"
    and none: "\<forall>r \<in> set (drop k rs). first_id D r \<noteq> Some (request_id D req)"
  shows "no_duplicate D req rs"
  unfolding no_duplicate_def
proof (intro ballI impI)
  fix r assume r: "r \<in> set rs" "first_id D r = Some (request_id D req)"
  then have "r \<in> set (take k rs)"
    using none by (metis append_take_drop_id Un_iff set_append)
  then obtain i where i: "i < k" "r = rs ! i" using k(1) by (auto simp: in_set_conv_nth)
  then have "unat (StreamOffsetAfter r) \<le> unat (OffsetHint req)"
    using stream_wf_nth(4) [OF wf, of i] k stream_off_take_mono [of "Suc i" k rs] by simp
  then show "StreamOffsetAfter r \<le> OffsetHint req" by (simp add: word_le_nat_alt)
qed

lemma findAppendRecord_result:
  assumes laws: "journal_laws D base hist" and ids: "ids_ok D" and base: "base j = 0"
    and wf: "stream_wf (hist j)" and w: "worker_ok (hist j) w"
    and req: "req_Events req \<noteq> []" and dup: "mightBeDuplicates req w"
    and find: "findAppendRecord D req w j = (res, j')"
  shows "hist j' = hist j \<and> base j' = 0 \<and>
    (case res of
       Ok v \<Rightarrow> \<exists>r \<in> set (hist j). v = Some r \<and> first_id D r = Some (request_id D req)
     | Err x \<Rightarrow> j_IsNotFound D x \<longrightarrow> no_duplicate D req (hist j)
     | Panic t \<Rightarrow> False)"
proof -
  let ?rs = "hist j" and ?n = "unat (wpos w)" and ?id = "Some (request_id D req)"
  have n: "?n \<le> length ?rs" using w by (simp add: worker_ok_def)
  have "unat (OffsetHint req) < stream_off (take ?n ?rs)"
    using dup w by (simp add: mightBeDuplicates_def worker_ok_def word_less_nat_alt)
  from stream_search [OF stream_wf_take [OF wf] this] obtain k where
    hit: "search_hit (SearchByOffset (OffsetHint req)) (take ?n ?rs) 0 k" and k: "k < ?n"
    and before: "stream_off (take k (take ?n ?rs)) \<le> unat (OffsetHint req)" by auto
  note call = find [unfolded findAppendRecord_def]
  obtain F where F: "find (\<lambda>r. first_id D r = ?id) (drop k ?rs) = F" by blast
  note scan = scan_find_append [OF ids req wf, of k, unfolded F]
  have "case res of
      Ok v \<Rightarrow> scan_records (find_append D req) (positioned k ?rs) = Found v
    | Err x \<Rightarrow> j_IsNotFound D x \<longrightarrow> scan_records (find_append D req) (positioned k ?rs) = NotFound
    | Panic t \<Rightarrow> scan_records (find_append D req) (positioned k ?rs) = ScanPanic t"
    by (rule journal_Scan(3) [OF laws call]) (use base n hit in simp_all)
  moreover have "r \<in> set ?rs \<and> first_id D r = ?id" if "F = Some r" for r
    using F that by (auto simp: find_Some_iff dest: in_set_dropD)
  moreover have "no_duplicate D req ?rs" if "F = None"
    by (rule no_duplicate_before [OF wf, of k])
      (use F that k n before in \<open>auto simp: find_None_iff min_def\<close>)
  ultimately show ?thesis
    using journal_Scan(1,2) [OF laws call] base unfolding scan
    by (cases F) (auto split: outcome.splits)
qed

lemma append_record_simps [simp]:
  "record_events (append_record b a evs) = evs"
  "StreamOffsetBefore (append_record b a evs) = b" "StreamOffsetAfter (append_record b a evs) = a"
  "Operation (append_record b a evs) = Some (Record_EventsAppended (Some \<lparr>Events = evs\<rparr>))"
  by (simp_all add: append_record_def record_events_def stream_record_defs)

lemma first_id_append_record [simp]:
  "req_Events req \<noteq> [] \<Longrightarrow> first_id D (append_record b a (req_Events req)) = Some (request_id D req)"
  by (cases "req_Events req") (simp_all add: first_id_def request_id_def)

lemma append_record_wf:
  assumes "evs \<noteq> []" "unat b + length evs < 2 ^ 64"
  shows "record_wf (unat b) (append_record b (b + of_nat (length evs)) evs)"
  using assms unat_add_u64 [OF assms(2)] by (simp add: record_wf_def)

text \<open>The record that a worker appends for a request.\<close>

definition new_record :: "('u, 'ev) AppendRequest \<Rightarrow> worker \<Rightarrow> 'ev stream_record" where
  "new_record req w = append_record (woff w) (woff w + of_nat (length (req_Events req))) (req_Events req)"

lemma new_record_offsets:
  "StreamOffsetBefore (new_record req w) = woff w"
  "StreamOffsetAfter (new_record req w) = woff w + of_nat (length (req_Events req))"
  by (simp_all add: new_record_def)

lemma appendToJournal_result:
  assumes laws: "journal_laws D base hist" and base: "base j = 0" and w: "worker_ok (hist j) w"
    and app: "appendToJournal D req w j = (res, w', j')"
  shows "base j' = 0 \<and>
    (case res of
       Ok v \<Rightarrow> unat (wpos w) = length (hist j) \<and> hist j' = hist j @ [new_record req w] \<and>
         w' = \<lparr>wpos = wpos w + 1, woff = StreamOffsetAfter (new_record req w)\<rparr> \<and>
         v = \<lparr>BeginOffset = StreamOffsetBefore (new_record req w),
           EndOffset = StreamOffsetAfter (new_record req w), AppendedByPriorAttempt = False\<rparr>
     | Err x \<Rightarrow> w' = w \<and> (hist j' = hist j \<or>
         unat (wpos w) = length (hist j) \<and> hist j' = hist j @ [new_record req w])
     | Panic t \<Rightarrow> False)"
proof -
  obtain e j1 where call: "j_Append D j (wpos w) (new_record req w) = (e, j1)" by fastforce
  have pos: "unat (wpos w) \<le> length (hist j)" using w by (simp add: worker_ok_def)
  show ?thesis
    using app call journal_Append [OF laws call pos] base
    by (cases e) (auto simp: appendToJournal_def new_record_def Let_def)
qed

text \<open>Appending, on every branch: \<open>stream_appended\<close> when the record is in the journal.\<close>

definition stream_appended ::
  "('j, 'ev, 'id, 'x) stream_deps \<Rightarrow> ('u, 'ev) AppendRequest \<Rightarrow> worker \<Rightarrow>
   'ev stream_record list \<Rightarrow> 'ev stream_record list \<Rightarrow> bool" where
  "stream_appended D req w rs rs' \<longleftrightarrow>
     unat (wpos w) = length rs \<and> rs' = rs @ [new_record req w] \<and> no_duplicate D req rs"

lemma no_duplicate_at_end:
  assumes "stream_wf rs" "worker_ok rs w" "unat (wpos w) = length rs" "\<not> mightBeDuplicates req w"
  shows "no_duplicate D req rs"
proof (rule no_duplicate_before [OF assms(1) order_refl])
  show "stream_off (take (length rs) rs) \<le> unat (OffsetHint req)"
    using assms(2-4) by (simp add: worker_ok_def mightBeDuplicates_def not_less word_le_nat_alt)
qed simp

lemma appendEvents_result:
  assumes laws: "journal_laws D base hist" and ids: "ids_ok D" and base: "base j = 0"
    and wf: "stream_wf (hist j)" and w: "worker_ok (hist j) w" and req: "req_Events req \<noteq> []"
    and app: "appendEvents D req w j = (res, w', j')"
  shows "base j' = 0 \<and>
    (case res of
       Ok v \<Rightarrow>
         if AppendedByPriorAttempt v
         then w' = w \<and> hist j' = hist j \<and>
           (\<exists>r \<in> set (hist j). first_id D r = Some (request_id D req) \<and>
              v = \<lparr>BeginOffset = StreamOffsetBefore r, EndOffset = StreamOffsetAfter r,
                AppendedByPriorAttempt = True\<rparr>)
         else stream_appended D req w (hist j) (hist j') \<and>
           w' = \<lparr>wpos = wpos w + 1, woff = StreamOffsetAfter (new_record req w)\<rparr> \<and>
           v = \<lparr>BeginOffset = StreamOffsetBefore (new_record req w),
             EndOffset = StreamOffsetAfter (new_record req w), AppendedByPriorAttempt = False\<rparr>
     | Err x \<Rightarrow> w' = w \<and> (hist j' = hist j \<or> stream_appended D req w (hist j) (hist j'))
     | Panic t \<Rightarrow> False)"
proof -
  have tail: ?thesis
    if "appendToJournal D req w j1 = (res, w', j')" "hist j1 = hist j" "base j1 = 0"
      "unat (wpos w) = length (hist j) \<Longrightarrow> no_duplicate D req (hist j)" for j1
  proof -
    have "worker_ok (hist j1) w" using w that(2) by simp
    from appendToJournal_result [OF laws that(3) this that(1)] that(2,4) show ?thesis
      by (auto simp: stream_appended_def split: outcome.splits)
  qed
  show ?thesis
  proof (cases "mightBeDuplicates req w")
    case False
    show ?thesis
      by (rule tail [of j])
        (use False app base no_duplicate_at_end [OF wf w _ False] in \<open>auto simp: appendEvents_def\<close>)
  next
    case True
    obtain f j1 where f: "findAppendRecord D req w j = (f, j1)" by fastforce
    note r = findAppendRecord_result [OF laws ids base wf w req True f]
    show ?thesis
    proof (cases f)
      case (Ok v)
      with r obtain r0 where "r0 \<in> set (hist j)" "v = Some r0" "first_id D r0 = Some (request_id D req)"
        by auto
      with r app f True Ok show ?thesis by (auto simp: appendEvents_def)
    next
      case (Err x)
      show ?thesis
      proof (cases "j_IsNotFound D x")
        case nf: True
        show ?thesis
          by (rule tail [of j1]) (use nf r app f True Err in \<open>auto simp: appendEvents_def\<close>)
      next
        case False
        with r app f True Err show ?thesis by (auto simp: appendEvents_def)
      qed
    next
      case (Panic t)
      with r show ?thesis by simp
    qed
  qed
qed

text \<open>The invariants survive an append, for the worker that made it and for every other one.\<close>

lemma stream_appended_wf:
  assumes "stream_wf rs" "worker_ok rs w" "req_Events req \<noteq> []"
    and "unat (woff w) + length (req_Events req) < 2 ^ 64" and "stream_appended D req w rs rs'"
  shows "stream_wf rs'"
  using assms append_record_wf [OF assms(3,4)]
  by (auto simp: stream_appended_def stream_wf_snoc worker_ok_def new_record_def)

lemma worker_ok_append: "worker_ok rs w \<Longrightarrow> worker_ok (rs @ rs') w"
  by (simp add: worker_ok_def)

lemma worker_ok_appended:
  assumes "worker_ok rs w" "stream_appended D req w rs rs'" "length rs' < 2 ^ 64"
    and "unat (woff w) + length (req_Events req) < 2 ^ 64"
  shows "worker_ok rs' \<lparr>wpos = wpos w + 1, woff = StreamOffsetAfter (new_record req w)\<rparr>"
proof -
  have "unat (wpos w) + 1 < 2 ^ 64" using assms(2,3) by (auto simp: stream_appended_def)
  then have "unat (wpos w + 1) = length rs'"
    using unat_Suc_u64 [of "wpos w"] assms(2) by (simp add: stream_appended_def)
  moreover have "unat (StreamOffsetAfter (new_record req w)) = unat (woff w) + length (req_Events req)"
    using unat_add_u64 [OF assms(4)] by (simp add: new_record_def)
  ultimately show ?thesis
    using assms(1,2) by (auto simp: worker_ok_def stream_appended_def new_record_def)
qed

lemma worker_at_ok:
  assumes laws: "journal_laws D base hist" and call: "j_LastRecord D j = (Ok latest, j')"
    and base: "base j = 0" and wf: "stream_wf (hist j)" and zero: "w = zero_worker"
  shows "hist j' = hist j \<and> base j' = 0 \<and> worker_ok (hist j) (worker_at latest w) \<and>
    unat (wpos (worker_at latest w)) = length (hist j)"
proof (cases latest)
  case None
  then show ?thesis
    using journal_LastRecord(1,2,4) [OF laws call] base zero
    by (simp add: worker_at_def worker_ok_def zero_worker_def)
next
  case (Some pr)
  obtain p r where pr: "pr = (p, r)" by fastforce
  have l: "0 < length (hist j)" "unat p = length (hist j) - 1" "r = last (hist j)"
    using journal_LastRecord(5) [OF laws call, of p r] base Some pr by auto
  have "length (hist j) < 2 ^ 64" by (rule journal_size(2) [OF laws])
  then have "unat (p + 1) = length (hist j)" using unat_Suc_u64 [of p] l(1,2) by simp
  then show ?thesis
    using journal_LastRecord(1,2) [OF laws call] base l Some pr stream_wf_last [OF wf]
    by (simp add: worker_at_def worker_ok_def)
qed

section \<open>The contract of the machine\<close>

definition fresh_exchange :: "('u, 'ev, 'x) append_exchange \<Rightarrow> bool" where
  "fresh_exchange ex \<longleftrightarrow> Response ex = make_chan 1 \<and> req_Events (Request ex) \<noteq> []"

text \<open>One response was sent; a success names a record of the journal that holds the request.\<close>

definition append_true ::
  "('j, 'ev, 'id, 'x) stream_deps \<Rightarrow> 'ev stream_record list \<Rightarrow> 'x option \<Rightarrow> ('u, 'ev) AppendRequest \<Rightarrow>
   (AppendResponse, 'x) Failable \<Rightarrow> bool" where
  "append_true D rs e req f \<longleftrightarrow> (f_err f = None \<or> f_err f = e) \<and>
     (f_err f = None \<longrightarrow> (\<exists>r \<in> set rs. first_id D r = Some (request_id D req) \<and>
        BeginOffset (f_value f) = StreamOffsetBefore r \<and> EndOffset (f_value f) = StreamOffsetAfter r))"

definition answer_ok ::
  "('j, 'ev, 'id, 'x) stream_deps \<Rightarrow> 'ev stream_record list \<Rightarrow> 'x option \<Rightarrow> ('u, 'ev, 'x) append_exchange \<Rightarrow> bool" where
  "answer_ok D rs e ex \<longleftrightarrow> (\<exists>f. buffer (Response ex) = [f] \<and> append_true D rs e (Request ex) f)"

fun case_exchanges :: "('u, 'ev, 'x) idle_case \<Rightarrow> ('u, 'ev, 'x) append_exchange list" where
  "case_exchanges (Received ex) = [ex]"
| "case_exchanges _ = []"

fun state_exchanges :: "('u, 'ev, 'x) worker_state \<Rightarrow> ('u, 'ev, 'x) append_exchange list" where
  "state_exchanges (HandleAppendState ex) = [ex]"
| "state_exchanges IdleState = []"

definition pending ::
  "('u, 'ev, 'x) worker_state \<Rightarrow> ('j, 'u, 'ev, 'x) worker_world \<Rightarrow> ('u, 'ev, 'x) append_exchange list" where
  "pending q s = state_exchanges q @ concat (map case_exchanges (idle_cases s))"

definition pending_length :: "('u, 'ev, 'x) append_exchange list \<Rightarrow> nat" where
  "pending_length exs = sum_list (map (\<lambda>ex. length (req_Events (Request ex))) exs)"

definition worker_conf ::
  "('j, 'ev, 'id, 'x) stream_deps \<Rightarrow> ('j \<Rightarrow> nat) \<Rightarrow> ('j \<Rightarrow> 'ev stream_record list) \<Rightarrow> ('u, 'ev) AppendRequest list \<Rightarrow>
   'x option \<Rightarrow> ('u, 'ev, 'x) append_exchange list \<Rightarrow> ('j, 'u, 'ev, 'x) worker_world \<Rightarrow> bool" where
  "worker_conf D base hist reqs e exs s \<longleftrightarrow>
     base (jr s) = 0 \<and> stream_wf (hist (jr s)) \<and> worker_ok (hist (jr s)) (wk s) \<and>
     list_all fresh_exchange exs \<and> stream_off (hist (jr s)) + pending_length exs < 2 ^ 64 \<and>
     list_all (answer_ok D (hist (jr s)) e) (answered s) \<and>
     map Request (answered s) @ map Request exs = reqs"

definition worker_inv ::
  "('j, 'ev, 'id, 'x) stream_deps \<Rightarrow> ('j \<Rightarrow> nat) \<Rightarrow> ('j \<Rightarrow> 'ev stream_record list) \<Rightarrow> ('u, 'ev) AppendRequest list \<Rightarrow>
   ('u, 'ev, 'x) worker_state \<Rightarrow> ('j, 'u, 'ev, 'x) worker_world \<Rightarrow> bool" where
  "worker_inv D base hist reqs q s \<longleftrightarrow>
     journal_laws D base hist \<and> ids_ok D \<and> worker_conf D base hist reqs None (pending q s) s"

definition worker_post ::
  "('j, 'ev, 'id, 'x) stream_deps \<Rightarrow> ('j \<Rightarrow> nat) \<Rightarrow> ('j \<Rightarrow> 'ev stream_record list) \<Rightarrow> ('u, 'ev) AppendRequest list \<Rightarrow>
   'x option \<Rightarrow> ('j, 'u, 'ev, 'x) worker_world \<Rightarrow> bool" where
  "worker_post D base hist reqs e s \<longleftrightarrow> worker_conf D base hist reqs e (pending IdleState s) s"

definition worker_paused ::
  "('j, 'ev, 'id, 'x) stream_deps \<Rightarrow> ('j \<Rightarrow> nat) \<Rightarrow> ('j \<Rightarrow> 'ev stream_record list) \<Rightarrow> ('u, 'ev) AppendRequest list \<Rightarrow>
   ('j, 'u, 'ev, 'x) worker_world \<Rightarrow> bool" where
  "worker_paused D base hist reqs s \<longleftrightarrow> worker_conf D base hist reqs None [] s \<and> idle_cases s = []"

lemma answer_ok_weaken: "answer_ok D rs None ex \<Longrightarrow> set rs \<subseteq> set rs' \<Longrightarrow> answer_ok D rs' e ex"
  unfolding answer_ok_def append_true_def by blast

lemma pending_length_simps [simp]:
  "pending_length [] = 0"
  "pending_length (ex # exs) = length (req_Events (Request ex)) + pending_length exs"
  by (simp_all add: pending_length_def)

lemma worker_idle_step:
  assumes "worker_conf D base hist reqs None (pending IdleState s) s" "worker_idleState s = r"
  shows "case r of
      Blocks s' \<Rightarrow> worker_paused D base hist reqs s'
    | Panics t s' \<Rightarrow> False
    | Done act s' \<Rightarrow>
        (case act of
           Stop \<Rightarrow> worker_conf D base hist reqs None (pending IdleState s') s'
         | EnterState q \<Rightarrow> worker_conf D base hist reqs None (pending q s') s'
         | _ \<Rightarrow> False)"
  using assms
  by (auto simp: worker_idleState_def With_def worker_paused_def pending_def worker_conf_def
      split: list.splits idle_case.splits)

lemma worker_conf_weaken:
  assumes "worker_conf D base hist reqs None exs s"
  shows "worker_conf D base hist reqs e exs s"
  using assms answer_ok_weaken [of D _ _ _ e] unfolding worker_conf_def list_all_iff by blast

text \<open>Sending on the fresh channel of an exchange proceeds.\<close>

lemma respond_fresh:
  assumes "fresh_exchange ex"
  shows "respond ex (Exchange_Err zero_AppendResponse x ex) act s =
      Done act (s\<lparr>answered := answered s @ [ex\<lparr>Response := \<lparr>capacity = 1,
        buffer = [\<lparr>f_value = zero_AppendResponse, f_err = Some x\<rparr>], closed = False\<rparr>\<rparr>]\<rparr>)"
    and "respond ex (Exchange_Ok v ex) act s =
      Done act (s\<lparr>answered := answered s @ [ex\<lparr>Response := \<lparr>capacity = 1,
        buffer = [\<lparr>f_value = v, f_err = None\<rparr>], closed = False\<rparr>\<rparr>]\<rparr>)"
  using assms by (simp_all add: respond_def fresh_exchange_def Exchange_Err_def Exchange_Ok_def chan_defs)

text \<open>How the configuration changes when the exchange at the front is answered.\<close>

lemma worker_conf_answer:
  assumes conf: "worker_conf D base hist reqs None (ex # exs) s"
    and j: "base j' = 0" and w: "worker_ok (hist j') w'" and wf: "stream_wf (hist j')"
    and sub: "set (hist (jr s)) \<subseteq> set (hist j')"
    and off: "stream_off (hist j') \<le> stream_off (hist (jr s)) + length (req_Events (Request ex))"
    and ans: "answer_ok D (hist j') e (ex\<lparr>Response := c\<rparr>)"
  shows "worker_conf D base hist reqs e exs
    (s\<lparr>wk := w', jr := j', answered := answered s @ [ex\<lparr>Response := c\<rparr>]\<rparr>)"
proof -
  have "list_all (answer_ok D (hist j') e) (answered s)"
    using conf sub unfolding worker_conf_def list_all_iff by (blast intro: answer_ok_weaken)
  with assms show ?thesis by (simp add: worker_conf_def)
qed

lemma worker_append_ok:
  assumes laws: "journal_laws D base hist" and wf: "stream_wf (hist j)" and w: "worker_ok (hist j) w"
    and req: "req_Events req \<noteq> []" and off: "stream_off (hist j) + length (req_Events req) < 2 ^ 64"
    and app: "stream_appended D req w (hist j) (hist j')"
  shows "stream_wf (hist j')" "worker_ok (hist j') w"
    and "worker_ok (hist j') \<lparr>wpos = wpos w + 1, woff = StreamOffsetAfter (new_record req w)\<rparr>"
    and "stream_off (hist j') = stream_off (hist j) + length (req_Events req)"
proof -
  have o: "unat (woff w) + length (req_Events req) < 2 ^ 64"
    using w off stream_off_take_le [of "unat (wpos w)" "hist j"] by (simp add: worker_ok_def)
  show "stream_wf (hist j')" by (rule stream_appended_wf [OF wf w req o app])
  show "worker_ok (hist j') w" using w app worker_ok_append by (auto simp: stream_appended_def)
  show "worker_ok (hist j') \<lparr>wpos = wpos w + 1, woff = StreamOffsetAfter (new_record req w)\<rparr>"
    by (rule worker_ok_appended [OF w app journal_size(2) [OF laws] o])
  show "stream_off (hist j') = stream_off (hist j) + length (req_Events req)"
    using app by (simp add: stream_appended_def new_record_def)
qed

text \<open>
  An attempt to append, by a worker whose position may be stale: the journal stays or grows by one
  record of the request, all workers keep their invariant, and a success names a stored record.
\<close>

lemma append_attempt:
  assumes laws: "journal_laws D base hist" and ids: "ids_ok D" and base: "base j = 0"
    and wf: "stream_wf (hist j)" and w: "worker_ok (hist j) w" and ne: "req_Events req \<noteq> []"
    and off: "stream_off (hist j) + length (req_Events req) < 2 ^ 64"
    and app: "appendEvents D req w j = (res, w', j')"
  shows "base j' = 0 \<and> stream_wf (hist j') \<and> worker_ok (hist j') w' \<and> set (hist j) \<subseteq> set (hist j') \<and>
    (\<forall>u. worker_ok (hist j) u \<longrightarrow> worker_ok (hist j') u) \<and>
    stream_off (hist j') \<le> stream_off (hist j) + length (req_Events req)"
    and "hist j' = hist j \<or> (\<exists>r. hist j' = hist j @ [r] \<and> record_events r = req_Events req \<and>
      record_wf (stream_off (hist j)) r \<and> no_duplicate D req (hist j))"
    and "res = Ok v \<Longrightarrow> \<exists>r \<in> set (hist j'). first_id D r = Some (request_id D req) \<and>
      BeginOffset v = StreamOffsetBefore r \<and> EndOffset v = StreamOffsetAfter r"
    and "\<forall>t. res \<noteq> Panic t"
proof -
  note out = appendEvents_result [OF laws ids base wf w ne app]
  show "\<forall>t. res \<noteq> Panic t" using out by auto
  have b: "base j' = 0" using out by (cases res) (auto split: if_splits)
  have grown_or_same: thesis if "hist j' = hist j \<Longrightarrow> w' = w \<Longrightarrow> thesis"
      "stream_appended D req w (hist j) (hist j') \<Longrightarrow> thesis" for thesis
    using out that by (cases res) (auto split: if_splits)
  consider (same) "hist j' = hist j" "w' = w" | (grown) "stream_appended D req w (hist j) (hist j')"
    by (rule grown_or_same)
  then show "base j' = 0 \<and> stream_wf (hist j') \<and> worker_ok (hist j') w' \<and> set (hist j) \<subseteq> set (hist j') \<and>
    (\<forall>u. worker_ok (hist j) u \<longrightarrow> worker_ok (hist j') u) \<and>
    stream_off (hist j') \<le> stream_off (hist j) + length (req_Events req)"
  proof cases
    case grown
    note a = worker_append_ok [OF laws wf w ne off grown]
    have h: "hist j' = hist j @ [new_record req w]" using grown by (simp add: stream_appended_def)
    have keep: "worker_ok (hist j') u" if "worker_ok (hist j) u" for u
      unfolding h by (rule worker_ok_append [OF that])
    have "w' = w \<or> w' = \<lparr>wpos = wpos w + 1, woff = StreamOffsetAfter (new_record req w)\<rparr>"
      using out by (cases res) (auto split: if_splits)
    then have "worker_ok (hist j') w'" using keep [OF w] a(3) by auto
    moreover have "set (hist j) \<subseteq> set (hist j')" unfolding h by auto
    ultimately show ?thesis using b a(1,4) keep by simp
  qed (use b wf w in simp)
  show "hist j' = hist j \<or> (\<exists>r. hist j' = hist j @ [r] \<and> record_events r = req_Events req \<and>
      record_wf (stream_off (hist j)) r \<and> no_duplicate D req (hist j))"
  proof (rule grown_or_same)
    assume grown: "stream_appended D req w (hist j) (hist j')"
    then have "hist j' = hist j @ [new_record req w]" "no_duplicate D req (hist j)"
      by (simp_all add: stream_appended_def)
    moreover have "record_wf (stream_off (hist j)) (new_record req w)"
      using worker_append_ok(1) [OF laws wf w ne off grown] calculation(1) by (simp add: stream_wf_snoc)
    ultimately show ?thesis by (auto simp: new_record_def)
  qed simp
  assume v: "res = Ok v"
  show "\<exists>r \<in> set (hist j'). first_id D r = Some (request_id D req) \<and>
      BeginOffset v = StreamOffsetBefore r \<and> EndOffset v = StreamOffsetAfter r"
  proof (cases "AppendedByPriorAttempt v")
    case False
    then show ?thesis using out v ne by (auto simp: stream_appended_def new_record_def intro!: bexI [of _ "new_record req w"])
  qed (use out v in auto)
qed

lemma worker_handle_step:
  assumes laws: "journal_laws D base hist" and ids: "ids_ok D"
    and conf: "worker_conf D base hist reqs None (ex # exs) s"
    and run: "handleAppendState D ex s = r"
  shows "case r of
      Done act s' \<Rightarrow> idle_cases s' = idle_cases s \<and>
        (case act of
           Fail x \<Rightarrow> worker_conf D base hist reqs (Some x) exs s'
         | EnterState q \<Rightarrow> q = IdleState \<and> worker_conf D base hist reqs None exs s'
         | _ \<Rightarrow> False)
    | _ \<Rightarrow> False"
proof -
  let ?req = "Request ex"
  have fresh: "fresh_exchange ex" and ne: "req_Events ?req \<noteq> []"
    and base: "base (jr s) = 0" and wf: "stream_wf (hist (jr s))" and w: "worker_ok (hist (jr s)) (wk s)"
    and off: "stream_off (hist (jr s)) + length (req_Events ?req) < 2 ^ 64"
    using conf by (auto simp: worker_conf_def fresh_exchange_def)
  obtain res w' j' where app: "appendEvents D ?req (wk s) (jr s) = (res, w', j')"
    by (metis prod_cases3)
  note out = append_attempt [OF laws ids base wf w ne off app]
  have "handleAppendState D ex s = (case res of
      Ok v \<Rightarrow> Done (EnterState IdleState) (s\<lparr>wk := w', jr := j', answered := answered s @
        [ex\<lparr>Response := \<lparr>capacity = 1, buffer = [\<lparr>f_value = v, f_err = None\<rparr>], closed = False\<rparr>\<rparr>]\<rparr>)
    | Err x \<Rightarrow> Done (Fail x) (s\<lparr>wk := w', jr := j', answered := answered s @
        [ex\<lparr>Response := \<lparr>capacity = 1, buffer = [\<lparr>f_value = zero_AppendResponse, f_err = Some x\<rparr>],
           closed = False\<rparr>\<rparr>]\<rparr>)
    | Panic t \<Rightarrow> Panics t (s\<lparr>wk := w', jr := j'\<rparr>))"
    using app ne by (simp add: handleAppendState_def Let_def respond_fresh [OF fresh] split: outcome.split)
  moreover have "worker_conf D base hist reqs e exs (s\<lparr>wk := w', jr := j', answered := answered s @ [ex\<lparr>Response := c\<rparr>]\<rparr>)"
    if "answer_ok D (hist j') e (ex\<lparr>Response := c\<rparr>)" for e c
    using out(1) that by (intro worker_conf_answer [OF conf]) blast+
  ultimately show ?thesis
    using run out(3) out(4) by (cases res) (auto simp: answer_ok_def append_true_def)
qed

lemma worker_step:
  assumes "worker_inv D base hist reqs q s" "worker_machine D q s = r"
  shows "case r of
      Blocks s' \<Rightarrow> worker_paused D base hist reqs s'
    | Panics t s' \<Rightarrow> False
    | Done act s' \<Rightarrow>
        (case act of
           Stop \<Rightarrow> worker_post D base hist reqs (ctx_err s') s'
         | Fail x \<Rightarrow> worker_post D base hist reqs (Some x) s'
         | EnterState q' \<Rightarrow> worker_inv D base hist reqs q' s'
         | _ \<Rightarrow> False)"
proof (cases q)
  case IdleState
  with assms worker_idle_step [of D base hist reqs s r] show ?thesis
    by (auto simp: worker_inv_def worker_post_def intro: worker_conf_weaken
        split: state_result.splits action.splits)
next
  case (HandleAppendState ex)
  have p: "pending q s = ex # pending IdleState s" using HandleAppendState by (simp add: pending_def)
  have i: "journal_laws D base hist" "ids_ok D" "worker_conf D base hist reqs None (ex # pending IdleState s) s"
    using assms(1) p by (simp_all add: worker_inv_def)
  have same: "pending IdleState s' = pending IdleState s" if "idle_cases s' = idle_cases s" for s'
    using that by (simp add: pending_def)
  have "handleAppendState D ex s = r" using assms(2) HandleAppendState by simp
  note h = worker_handle_step [OF i this]
  show ?thesis
  proof (cases r)
    case (Done act s')
    with h same [of s'] i(1,2) show ?thesis
      by (cases act) (simp_all add: worker_inv_def worker_post_def pending_def)
  qed (use h in simp_all)
qed

interpretation worker_fsm: fsm_contract "worker_machine D" ctx_err "worker_inv D base hist reqs"
  "worker_post D base hist reqs" "worker_paused D base hist reqs" "\<lambda>t s. False"
  for D base hist reqs
proof
  fix q s s' x q' t
  assume inv: "worker_inv D base hist reqs q s"
  note step = worker_step [OF inv refl]
  show "worker_machine D q s = Done Stop s' \<Longrightarrow> worker_post D base hist reqs (ctx_err s') s'"
    using step by simp
  show "worker_machine D q s = Done (Fail x) s' \<Longrightarrow> worker_post D base hist reqs (Some x) s'"
    using step by simp
  show "worker_machine D q s = Done StayInCurrentState s' \<Longrightarrow> worker_inv D base hist reqs q s'"
    using step by simp
  show "worker_machine D q s = Done (EnterState q') s' \<Longrightarrow> worker_inv D base hist reqs q' s'"
    using step by simp
  show "worker_machine D q s \<noteq> Done NoAction s'" using step by auto
  show "worker_machine D q s = Panics t s' \<Longrightarrow> False" using step by auto
  show "worker_machine D q s = Blocks s' \<Longrightarrow> worker_paused D base hist reqs s'" using step by simp
qed

fun worker_meas :: "('u, 'ev, 'x) worker_state \<Rightarrow> ('j, 'u, 'ev, 'x) worker_world \<Rightarrow> nat" where
  "worker_meas IdleState s = 2 * length (idle_cases s)"
| "worker_meas (HandleAppendState _) s = 2 * length (idle_cases s) + 1"

lemma respond_action:
  "respond ex sent act s = Done act' s' \<Longrightarrow> act' = act \<and> idle_cases s' = idle_cases s"
  by (auto simp: respond_def split: chan_op.splits)

lemma worker_machine_meas:
  assumes "worker_machine D q s = Done act s'"
  shows "act \<noteq> StayInCurrentState" and "act = EnterState q' \<Longrightarrow> worker_meas q' s' < worker_meas q s"
  using assms by (cases q;
    auto simp: worker_idleState_def With_def handleAppendState_def Let_def dest!: respond_action
      split: list.splits idle_case.splits if_splits outcome.splits prod.splits)+

interpretation worker_fsm: fsm_progress "worker_machine D" ctx_err worker_meas
  for D
  by unfold_locales (use worker_machine_meas in blast)+

section \<open>Workers on several nodes\<close>

text \<open>
  The journal of a stream is shared: any number of workers, each on some node, may have it open
  at once, with positions that other workers have made stale. A worker opens the journal, makes
  an append, or dies; one that fails, or dies before it can respond, loses its state.
\<close>

type_synonym 'j stream_cluster = "'j \<times> (nat \<Rightarrow> worker option)"

datatype ('u, 'ev) stream_label =
  Opened nat
| Appended nat "('u, 'ev) AppendRequest" AppendResponse
| Lost nat "('u, 'ev) AppendRequest"
| Stopped nat

inductive stream_step ::
  "('j, 'ev, 'id, 'x) stream_deps \<Rightarrow> 'j stream_cluster \<Rightarrow> ('u, 'ev) stream_label \<Rightarrow> 'j stream_cluster \<Rightarrow> bool"
  for D where
  opened: "j_LastRecord D j = (Ok latest, j') \<Longrightarrow>
     stream_step D (j, ws) (Opened i) (j', ws(i \<mapsto> worker_at latest zero_worker))"
| not_opened: "j_LastRecord D j = (Err x, j') \<Longrightarrow> stream_step D (j, ws) (Opened i) (j', ws(i := None))"
| appended: "ws i = Some w \<Longrightarrow> req_Events req \<noteq> [] \<Longrightarrow> appendEvents D req w j = (Ok v, w', j') \<Longrightarrow>
     stream_step D (j, ws) (Appended i req v) (j', ws(i \<mapsto> w'))"
| lost: "ws i = Some w \<Longrightarrow> req_Events req \<noteq> [] \<Longrightarrow> appendEvents D req w j = (res, w', j') \<Longrightarrow>
     stream_step D (j, ws) (Lost i req) (j', ws(i := None))"
| stopped: "stream_step D (j, ws) (Stopped i) (j, ws(i := None))"

inductive stream_trace ::
  "('j, 'ev, 'id, 'x) stream_deps \<Rightarrow> 'j stream_cluster \<Rightarrow> ('u, 'ev) stream_label list \<Rightarrow> 'j stream_cluster \<Rightarrow> bool"
  for D s where
  start: "stream_trace D s [] s"
| snoc: "stream_trace D s tr s' \<Longrightarrow> stream_step D s' l s'' \<Longrightarrow> stream_trace D s (tr @ [l]) s''"

lemma stream_trace_Cons:
  assumes "stream_step D s l s'" and "stream_trace D s' tr s''"
  shows "stream_trace D s (l # tr) s''"
  using assms(2)
proof (induction rule: stream_trace.induct)
  case start
  from stream_trace.snoc [OF stream_trace.start assms(1)] show ?case by simp
next
  case (snoc tr s1 l1 s2)
  from stream_trace.snoc [OF snoc.IH snoc.hyps(2)] show ?case by simp
qed

fun label_request :: "('u, 'ev) stream_label \<Rightarrow> ('u, 'ev) AppendRequest option" where
  "label_request (Appended i req v) = Some req"
| "label_request (Lost i req) = Some req"
| "label_request _ = None"

definition label_length :: "('u, 'ev) stream_label \<Rightarrow> nat" where
  "label_length l = (case label_request l of Some req \<Rightarrow> length (req_Events req) | None \<Rightarrow> 0)"

definition cluster_ok :: "('j \<Rightarrow> nat) \<Rightarrow> ('j \<Rightarrow> 'ev stream_record list) \<Rightarrow> 'j stream_cluster \<Rightarrow> bool" where
  "cluster_ok base hist s \<longleftrightarrow>
     base (fst s) = 0 \<and> stream_wf (hist (fst s)) \<and> (\<forall>i w. snd s i = Some w \<longrightarrow> worker_ok (hist (fst s)) w)"

text \<open>One step: the journal only grows, by the record of the request in the label.\<close>

lemma stream_step_result:
  assumes "stream_step D s l s'" and laws: "journal_laws D base hist" and ids: "ids_ok D"
    and "cluster_ok base hist s" and "stream_off (hist (fst s)) + label_length l < 2 ^ 64"
  shows "cluster_ok base hist s' \<and> stream_off (hist (fst s')) \<le> stream_off (hist (fst s)) + label_length l \<and>
    (hist (fst s') = hist (fst s) \<or>
      (\<exists>req r. label_request l = Some req \<and> hist (fst s') = hist (fst s) @ [r] \<and>
         record_events r = req_Events req \<and> record_wf (stream_off (hist (fst s))) r \<and>
         no_duplicate D req (hist (fst s)))) \<and>
    (\<forall>i req v. l = Appended i req v \<longrightarrow>
      (\<exists>r \<in> set (hist (fst s')). first_id D r = Some (request_id D req) \<and>
         BeginOffset v = StreamOffsetBefore r \<and> EndOffset v = StreamOffsetAfter r))"
  using assms(1,4,5)
proof (induction rule: stream_step.induct)
  case (opened j latest j' ws i)
  then have "hist j' = hist j \<and> base j' = 0 \<and> worker_ok (hist j) (worker_at latest zero_worker)"
    using worker_at_ok [OF laws opened.hyps _ _ refl] by (simp add: cluster_ok_def)
  with opened.prems show ?case by (auto simp: cluster_ok_def)
next
  case (not_opened j x j' ws i)
  with journal_LastRecord(1,2) [OF laws not_opened.hyps] show ?case by (auto simp: cluster_ok_def)
next
  case (appended ws i w req j v w' j')
  then have pre: "base j = 0" "stream_wf (hist j)" "worker_ok (hist j) w" "req_Events req \<noteq> []"
    "stream_off (hist j) + length (req_Events req) < 2 ^ 64" by (auto simp: cluster_ok_def label_length_def)
  from append_attempt [OF laws ids pre appended.hyps(3)] appended.prems(1) show ?case
    by (auto simp: cluster_ok_def label_length_def)
next
  case (lost ws i w req j res w' j')
  then have pre: "base j = 0" "stream_wf (hist j)" "worker_ok (hist j) w" "req_Events req \<noteq> []"
    "stream_off (hist j) + length (req_Events req) < 2 ^ 64" by (auto simp: cluster_ok_def label_length_def)
  from append_attempt(1,2) [OF laws ids pre lost.hyps(3)] lost.prems(1) show ?case
    by (auto simp: cluster_ok_def label_length_def)
next
  case (stopped j ws i)
  then show ?case by (auto simp: cluster_ok_def label_length_def)
qed

lemma stream_trace_result:
  assumes tr: "stream_trace D s tr s'" and laws: "journal_laws D base hist" and ids: "ids_ok D"
    and ok: "cluster_ok base hist s" and room: "stream_off (hist (fst s)) + sum_list (map label_length tr) < 2 ^ 64"
  shows "cluster_ok base hist s' \<and> (\<exists>rs. hist (fst s') = hist (fst s) @ rs) \<and>
    stream_off (hist (fst s')) \<le> stream_off (hist (fst s)) + sum_list (map label_length tr)"
  using tr room
proof (induction rule: stream_trace.induct)
  case start
  with ok show ?case by simp
next
  case (snoc tr s1 l s2)
  then have "cluster_ok base hist s1" "stream_off (hist (fst s1)) + label_length l < 2 ^ 64" by auto
  from stream_step_result [OF snoc.hyps(2) laws ids this] snoc show ?case by auto
qed

text \<open>The records that hold the request with identifier \<open>i\<close>.\<close>

definition held ::
  "('j, 'ev, 'id, 'x) stream_deps \<Rightarrow> 'id \<Rightarrow> 'ev stream_record list \<Rightarrow> 'ev stream_record list" where
  "held D i rs = filter (\<lambda>r. first_id D r = Some i) rs"

lemma held_singleton:
  assumes "held D i rs = [r]"
  shows "r \<in> set rs" "first_id D r = Some i"
proof -
  have "r \<in> set (held D i rs)" using assms by simp
  then show "r \<in> set rs" "first_id D r = Some i" by (simp_all add: held_def)
qed

definition held_once ::
  "('j, 'ev, 'id, 'x) stream_deps \<Rightarrow> 'id \<Rightarrow> 'ev list \<Rightarrow> nat \<Rightarrow> 'ev stream_record list \<Rightarrow> bool" where
  "held_once D i evs off rs \<longleftrightarrow>
     held D i rs = [] \<or> (\<exists>r. held D i rs = [r] \<and> record_events r = evs \<and> off \<le> unat (StreamOffsetBefore r))"

lemma held_once_snoc:
  assumes "held_once D i evs off rs" "stream_wf rs" "off \<le> stream_off rs"
    and "record_events r = req_Events req" "record_wf (stream_off rs) r" "no_duplicate D req rs"
    and "request_id D req = i \<Longrightarrow> req_Events req = evs \<and> unat (OffsetHint req) \<le> off"
  shows "held_once D i evs off (rs @ [r])"
    and "request_id D req = i \<Longrightarrow> held D i (rs @ [r]) = [r]"
    and "request_id D req \<noteq> i \<Longrightarrow> held D i (rs @ [r]) = held D i rs"
proof -
  have id: "first_id D r = Some (request_id D req)"
    using assms(4,5) by (cases "req_Events req") (auto simp: first_id_def request_id_def record_wf_def)
  show other: "held D i (rs @ [r]) = held D i rs" if "request_id D req \<noteq> i"
    using that id by (simp add: held_def)
  have none: "held D i rs = []" if i: "request_id D req = i"
  proof (rule ccontr)
    assume "held D i rs \<noteq> []"
    then obtain r' where h: "held D i rs = [r']" and b: "off \<le> unat (StreamOffsetBefore r')"
      using assms(1) by (auto simp: held_once_def)
    note r' = held_singleton [OF h]
    then obtain k where k: "k < length rs" "rs ! k = r'" by (metis in_set_conv_nth)
    have "unat (StreamOffsetAfter r') \<le> off"
      using assms(6,7) i r' by (auto simp: no_duplicate_def word_le_nat_alt)
    moreover have "unat (StreamOffsetBefore r') < unat (StreamOffsetAfter r')"
      using stream_wf_nth(2-4) [OF assms(2) k(1)] k by (simp add: stream_off_Suc)
    ultimately show False using b by simp
  qed
  show new: "held D i (rs @ [r]) = [r]" if "request_id D req = i"
    using none [OF that] id that by (simp add: held_def)
  show "held_once D i evs off (rs @ [r])"
    using assms new other by (cases "request_id D req = i") (auto simp: held_once_def record_wf_def)
qed

lemma held_mem: "r \<in> set rs \<Longrightarrow> first_id D r = Some i \<Longrightarrow> held_once D i evs off rs \<Longrightarrow> held D i rs = [r]"
proof -
  assume "r \<in> set rs" "first_id D r = Some i" and once: "held_once D i evs off rs"
  then have "r \<in> set (held D i rs)" by (simp add: held_def)
  with once show ?thesis by (auto simp: held_once_def)
qed

definition answered_as ::
  "'ev stream_record list \<Rightarrow> AppendResponse \<Rightarrow> bool" where
  "answered_as rs v \<longleftrightarrow> (\<exists>r. rs = [r] \<and> BeginOffset v = StreamOffsetBefore r \<and> EndOffset v = StreamOffsetAfter r)"

lemma stream_trace_held:
  assumes tr: "stream_trace D s tr s'" and laws: "journal_laws D base hist" and ids: "ids_ok D"
    and ok: "cluster_ok base hist s" and room: "stream_off (hist (fst s)) + sum_list (map label_length tr) < 2 ^ 64"
    and new: "\<forall>r \<in> set (hist (fst s)). first_id D r \<noteq> Some i"
    and attempts: "\<forall>l \<in> set tr. \<forall>req. label_request l = Some req \<longrightarrow> request_id D req = i \<longrightarrow>
      req_Events req = evs \<and> unat (OffsetHint req) \<le> stream_off (hist (fst s))"
  shows "held_once D i evs (stream_off (hist (fst s))) (hist (fst s')) \<and>
    (\<forall>n req v. Appended n req v \<in> set tr \<longrightarrow> request_id D req = i \<longrightarrow> answered_as (held D i (hist (fst s'))) v)"
  using tr room attempts
proof (induction rule: stream_trace.induct)
  case start
  with new show ?case by (simp add: held_once_def held_def filter_empty_conv)
next
  case (snoc tr s1 l s2)
  let ?off = "stream_off (hist (fst s))"
  have room1: "?off + sum_list (map label_length tr) < 2 ^ 64" using snoc.prems by simp
  note t = stream_trace_result [OF snoc.hyps(1) laws ids ok room1]
  have ok1: "cluster_ok base hist s1" and off1: "?off \<le> stream_off (hist (fst s1))"
    using t by (auto simp: stream_off_append)
  have "stream_off (hist (fst s1)) + label_length l < 2 ^ 64" using t snoc.prems by auto
  note r = stream_step_result [OF snoc.hyps(2) laws ids ok1 this]
  have IH: "held_once D i evs ?off (hist (fst s1))"
    "\<forall>n req v. Appended n req v \<in> set tr \<longrightarrow> request_id D req = i \<longrightarrow> answered_as (held D i (hist (fst s1))) v"
    using snoc.IH room1 snoc.prems by auto
  have now: "answered_as (held D i (hist (fst s2))) v"
    if "held_once D i evs ?off (hist (fst s2))" "l = Appended n req v" "request_id D req = i" for n req v
    using r that held_mem unfolding answered_as_def by metis
  show ?case
  proof (cases "hist (fst s2) = hist (fst s1)")
    case True
    with IH now show ?thesis by auto
  next
    case False
    then obtain req rec where l: "label_request l = Some req" and h: "hist (fst s2) = hist (fst s1) @ [rec]"
      and rec: "record_events rec = req_Events req" "record_wf (stream_off (hist (fst s1))) rec"
        "no_duplicate D req (hist (fst s1))" using r by auto
    have att: "request_id D req = i \<Longrightarrow> req_Events req = evs \<and> unat (OffsetHint req) \<le> ?off"
      using snoc.prems(2) l by simp
    have "stream_wf (hist (fst s1))" using ok1 by (simp add: cluster_ok_def)
    note o = held_once_snoc [OF IH(1) this off1 rec att]
    have old: "answered_as (held D i (hist (fst s2))) v"
      if "Appended n rq v \<in> set tr" "request_id D rq = i" for n rq v
    proof -
      have a: "answered_as (held D i (hist (fst s1))) v" using IH(2) that by blast
      then obtain r' where "held D i (hist (fst s1)) = [r']" by (auto simp: answered_as_def)
      moreover have "held D i (hist (fst s1) @ [rec]) = held D i (hist (fst s1)) @ [rec]"
        if "request_id D req = i"
      proof -
        have "held D i (hist (fst s1) @ [rec]) = [rec]" using o(2) that by blast
        from held_singleton(2) [OF this] have "first_id D rec = Some i" .
        then show ?thesis by (simp add: held_def)
      qed
      ultimately have "request_id D req \<noteq> i" using o(2) by auto
      with o(3) a h show ?thesis by simp
    qed
    show ?thesis using o(1) h old now by auto
  qed
qed

section \<open>A stream in memory\<close>

text \<open>
  The witnesses run on the journal of \<open>Mem_Journal\<close>, with numbers as events that are their
  own identifiers. The example is that of the repository's test: a stream of three events, to
  which a fourth is appended by an attempt that fails after the journal has stored the record.
\<close>

definition stream_mem :: "(nat stream_record mem_journal, nat, nat, mem_err) stream_deps" where
  "stream_mem = \<lparr>j_Bounds = mem_Bounds, j_Range = mem_Range, j_Append = mem_Append,
     j_Truncate = mem_Truncate, j_LastRecord = mem_LastRecord, j_ScanFromSearchResult = mem_Scan,
     j_IsNotFound = (\<lambda>x. x = ErrNotFound), MessageId = (\<lambda>e. e), id_Equal = (=)\<rparr>"

lemma stream_mem_ok: "journal_laws stream_mem mem_base mem_hist" "ids_ok stream_mem"
  by (rule journal_laws_fields [OF mem_journal_laws];
      simp add: stream_mem_def mem_journal_api_def)
    (simp add: stream_mem_def ids_ok_def)

definition mem_stream :: "nat stream_record list \<Rightarrow> fault list \<Rightarrow> nat stream_record mem_journal" where
  "mem_stream rs fs = \<lparr>mbase = 0, mhist = rs, mfaults = fs\<rparr>"

definition example_stream :: "nat stream_record list" where
  "example_stream = [append_record 0 3 [1, 2, 3]]"

definition example_request :: "(nat, nat) AppendRequest" where
  "example_request = \<lparr>StreamID = 0, req_Events = [4], OffsetHint = 3\<rparr>"

lemma mem_stream_simps [simp]:
  "length rs < 2 ^ 64 \<Longrightarrow> mem_hist (mem_stream rs fs) = rs" "mem_base (mem_stream rs fs) = 0"
  "mem_next (mem_stream rs (f # fs)) = mem_stream rs fs" "mem_fault (mem_stream rs (f # fs)) = f"
  by (simp_all add: mem_stream_def mem_hist_def mem_base_def mem_next_def mem_fault_def)

lemma example_stream_wf: "stream_wf example_stream" "stream_off example_stream = 3"
  by (simp_all add: example_stream_def stream_wf_def record_wf_def)

lemma example_open1:
  "j_LastRecord stream_mem (mem_stream example_stream (Healthy # fs)) =
     (Ok (Some (0, append_record 0 3 [1, 2, 3])), mem_stream example_stream fs)"
  by (simp add: stream_mem_def mem_LastRecord_def example_stream_def)

lemma example_fail:
  "appendEvents stream_mem example_request \<lparr>wpos = 1, woff = 3\<rparr> (mem_stream example_stream (FailAfter # fs)) =
     (Err ErrInduced, \<lparr>wpos = 1, woff = 3\<rparr>, mem_stream (example_stream @ [append_record 3 4 [4]]) fs)"
  by (simp add: appendEvents_def mightBeDuplicates_def appendToJournal_def stream_mem_def mem_Append_def
      example_stream_def example_request_def) (simp add: mem_stream_def)

lemma example_open2:
  "j_LastRecord stream_mem (mem_stream (example_stream @ [append_record 3 4 [4]]) (Healthy # fs)) =
     (Ok (Some (1, append_record 3 4 [4])), mem_stream (example_stream @ [append_record 3 4 [4]]) fs)"
  by (simp add: stream_mem_def mem_LastRecord_def example_stream_def)

lemma example_search:
  "find (\<lambda>k. SearchByOffset 3 (of_nat k) ((example_stream @ [append_record 3 4 [4]]) ! k) = 0)
     [0..<Suc (Suc 0)] = Some 1"
  by (simp add: upt_conv_Cons example_stream_def SearchByOffset_def)

lemma example_retry:
  "appendEvents stream_mem example_request \<lparr>wpos = 2, woff = 4\<rparr>
       (mem_stream (example_stream @ [append_record 3 4 [4]]) (Healthy # fs)) =
     (Ok \<lparr>BeginOffset = 3, EndOffset = 4, AppendedByPriorAttempt = True\<rparr>, \<lparr>wpos = 2, woff = 4\<rparr>,
      mem_stream (example_stream @ [append_record 3 4 [4]]) fs)"
proof -
  let ?rs = "example_stream @ [append_record 3 4 [4]]"
  have len: "length ?rs = Suc (Suc 0)" by (simp add: example_stream_def)
  have wf: "stream_wf ?rs" by (simp add: stream_wf_snoc example_stream_wf record_wf_def)
  have id: "request_id stream_mem example_request = 4" by (simp add: request_id_def stream_mem_def example_request_def)
  have "find (\<lambda>r. first_id stream_mem r = Some 4) (drop 1 ?rs) = Some (append_record 3 4 [4])"
    by (simp add: example_stream_def first_id_def stream_mem_def)
  then have scan: "scan_records (find_append stream_mem example_request) (positioned 1 ?rs) =
      Found (Some (append_record 3 4 [4]))"
    using scan_find_append [OF stream_mem_ok(2) _ wf, of example_request 1] id
    by (simp add: example_request_def)
  have "findAppendRecord stream_mem example_request \<lparr>wpos = 2, woff = 4\<rparr> (mem_stream ?rs (Healthy # fs)) =
      mem_Scan (mem_stream ?rs (Healthy # fs)) (0, 2) (SearchByOffset 3) (find_append stream_mem example_request)"
    by (simp add: findAppendRecord_def stream_mem_def example_request_def)
  also have "\<dots> = (Ok (Some (append_record 3 4 [4])), mem_stream ?rs fs)"
    using example_search scan len by (simp add: mem_Scan_def)
  finally show ?thesis by (simp add: appendEvents_def mightBeDuplicates_def example_request_def)
qed

definition example_trace :: "(nat, nat) stream_label list" where
  "example_trace = [Opened 0, Lost 0 example_request, Opened 0,
     Appended 0 example_request \<lparr>BeginOffset = 3, EndOffset = 4, AppendedByPriorAttempt = True\<rparr>]"

definition example_start :: "nat stream_record mem_journal stream_cluster" where
  "example_start = (mem_stream example_stream [Healthy, FailAfter, Healthy, Healthy], Map.empty)"

lemma example_run:
  "\<exists>ws. stream_trace stream_mem example_start example_trace
     (mem_stream (example_stream @ [append_record 3 4 [4]]) [], ws)"
proof -
  let ?rs = "example_stream @ [append_record 3 4 [4]]"
  have e: "req_Events example_request \<noteq> []" by (simp add: example_request_def)
  have w1: "worker_at (Some (0, append_record 0 3 [1, 2, 3 :: nat])) zero_worker = \<lparr>wpos = 1, woff = 3\<rparr>"
    and w2: "worker_at (Some (1, append_record 3 4 [4 :: nat])) zero_worker = \<lparr>wpos = 2, woff = 4\<rparr>"
    by (simp_all add: worker_at_def zero_worker_def)
  have "stream_trace stream_mem example_start example_trace
     (mem_stream ?rs [], Map.empty(0 \<mapsto> \<lparr>wpos = 1, woff = 3\<rparr>, 0 := None,
        0 \<mapsto> \<lparr>wpos = 2, woff = 4\<rparr>, 0 \<mapsto> \<lparr>wpos = 2, woff = 4\<rparr>))"
    unfolding example_start_def example_trace_def
  proof (intro stream_trace_Cons)
    show "stream_step stream_mem (mem_stream example_stream [Healthy, FailAfter, Healthy, Healthy], Map.empty)
        (Opened 0) (mem_stream example_stream [FailAfter, Healthy, Healthy], Map.empty(0 \<mapsto> \<lparr>wpos = 1, woff = 3\<rparr>))"
      using stream_step.opened [where ws = Map.empty and i = 0, OF example_open1] w1 by metis
    show "stream_step stream_mem
        (mem_stream example_stream [FailAfter, Healthy, Healthy], Map.empty(0 \<mapsto> \<lparr>wpos = 1, woff = 3\<rparr>))
        (Lost 0 example_request) (mem_stream ?rs [Healthy, Healthy], Map.empty(0 \<mapsto> \<lparr>wpos = 1, woff = 3\<rparr>, 0 := None))"
      by (rule stream_step.lost [OF _ e example_fail]) simp
    show "stream_step stream_mem
        (mem_stream ?rs [Healthy, Healthy], Map.empty(0 \<mapsto> \<lparr>wpos = 1, woff = 3\<rparr>, 0 := None))
        (Opened 0) (mem_stream ?rs [Healthy], Map.empty(0 \<mapsto> \<lparr>wpos = 1, woff = 3\<rparr>, 0 := None,
          0 \<mapsto> \<lparr>wpos = 2, woff = 4\<rparr>))"
      using stream_step.opened [OF example_open2] w2 by metis
    show "stream_step stream_mem (mem_stream ?rs [Healthy], Map.empty(0 \<mapsto> \<lparr>wpos = 1, woff = 3\<rparr>, 0 := None,
          0 \<mapsto> \<lparr>wpos = 2, woff = 4\<rparr>))
        (Appended 0 example_request \<lparr>BeginOffset = 3, EndOffset = 4, AppendedByPriorAttempt = True\<rparr>)
        (mem_stream ?rs [], Map.empty(0 \<mapsto> \<lparr>wpos = 1, woff = 3\<rparr>, 0 := None,
          0 \<mapsto> \<lparr>wpos = 2, woff = 4\<rparr>, 0 \<mapsto> \<lparr>wpos = 2, woff = 4\<rparr>))"
      by (rule stream_step.appended [OF _ e example_retry]) simp
  qed (rule stream_trace.start)
  then show ?thesis by blast
qed

lemma example_start_ok:
  "cluster_ok mem_base mem_hist example_start" "mem_hist (fst example_start) = example_stream"
  "stream_off example_stream + sum_list (map label_length example_trace) < 2 ^ 64"
  using example_stream_wf
  by (simp_all add: cluster_ok_def example_start_def example_trace_def label_length_def example_request_def
      example_stream_def)

section \<open>Runs of a worker\<close>

text \<open>A worker at the start of \<open>Run\<close>, the exchanges it will receive fresh and within bounds.\<close>

definition worker_starts ::
  "('j \<Rightarrow> nat) \<Rightarrow> ('j \<Rightarrow> 'ev stream_record list) \<Rightarrow> ('j, 'u, 'ev, 'x) worker_world \<Rightarrow> bool" where
  "worker_starts base hist s \<longleftrightarrow>
     base (jr s) = 0 \<and> stream_wf (hist (jr s)) \<and> wk s = zero_worker \<and> answered s = [] \<and>
     list_all fresh_exchange (pending IdleState s) \<and>
     stream_off (hist (jr s)) + pending_length (pending IdleState s) < 2 ^ 64"

lemma worker_Run_result:
  assumes "journal_laws D base hist" and "ids_ok D" and "worker_starts base hist s"
  shows "case worker_Run D s of
      Some (Returned e s') \<Rightarrow>
        stream_wf (hist (jr s')) \<and> list_all (answer_ok D (hist (jr s')) e) (answered s') \<and>
        map Request (answered s') @ map Request (pending IdleState s') = map Request (pending IdleState s)
    | Some (Blocked s') \<Rightarrow>
        stream_wf (hist (jr s')) \<and> list_all (answer_ok D (hist (jr s')) None) (answered s') \<and>
        pending IdleState s' = [] \<and> map Request (answered s') = map Request (pending IdleState s)
    | _ \<Rightarrow> False"
proof -
  note start = assms(3) [unfolded worker_starts_def]
  obtain res j' where call: "j_LastRecord D (jr s) = (res, j')" by fastforce
  show ?thesis
  proof (cases res)
    case (Ok latest)
    let ?s = "s\<lparr>jr := j', wk := worker_at latest (wk s)\<rparr>"
    let ?reqs = "map Request (pending IdleState s)"
    have p: "pending IdleState (s\<lparr>jr := a, wk := b\<rparr>) = pending IdleState s" for a b
      by (simp add: pending_def)
    have "worker_inv D base hist ?reqs IdleState ?s"
      using worker_at_ok [OF assms(1) call [unfolded Ok]] assms(1,2) start
      by (simp add: worker_inv_def worker_conf_def p)
    note inv = this
    obtain r where r: "Start (worker_machine D) ctx_err IdleState None ?s = Some r"
      using worker_fsm.Start_returns by blast
    note ok = worker_fsm.Start_ok [OF inv r, unfolded worker_fsm.run_ok_def]
    have run: "worker_Run D s = Some r" using call Ok r by (simp add: worker_Run_def)
    show ?thesis
      using ok unfolding run
      by (cases r) (auto simp: worker_post_def worker_paused_def worker_conf_def pending_def)
  next
    case (Err x)
    then have run: "worker_Run D s = Some (Returned (Some x) (s\<lparr>jr := j'\<rparr>))"
      using call by (simp add: worker_Run_def)
    show ?thesis
      using journal_LastRecord(1) [OF assms(1) call] start unfolding run by (simp add: pending_def)
  next
    case (Panic t)
    then show ?thesis using journal_LastRecord(3) [OF assms(1) call] by simp
  qed
qed


text \<open>
  A worker is a server of append requests. A run is the pair of the worlds it started and ended
  in; it was asked what it received, and its replies are what it left on the channels.
\<close>

definition worker_ran ::
  "('j, 'ev, 'id, 'x) stream_deps \<Rightarrow> ('j \<Rightarrow> nat) \<Rightarrow> ('j \<Rightarrow> 'ev stream_record list) \<Rightarrow>
   ('j, 'u, 'ev, 'x) worker_world \<times> 'x option \<times> ('j, 'u, 'ev, 'x) worker_world \<Rightarrow> bool" where
  "worker_ran D base hist w \<longleftrightarrow> (case w of (s, e, s') \<Rightarrow>
     journal_laws D base hist \<and> ids_ok D \<and> worker_starts base hist s \<and>
     (worker_Run D s = Some (Returned e s') \<or> worker_Run D s = Some (Blocked s') \<and> e = None))"

definition worker_asked ::
  "('j, 'u, 'ev, 'x) worker_world \<times> 'x option \<times> ('j, 'u, 'ev, 'x) worker_world \<Rightarrow> ('u, 'ev) AppendRequest list" where
  "worker_asked w = (case w of (s, e, s') \<Rightarrow>
     received (map Request (pending IdleState s)) (map Request (pending IdleState s')))"

definition worker_replies ::
  "('j, 'u, 'ev, 'x) worker_world \<times> 'x option \<times> ('j, 'u, 'ev, 'x) worker_world \<Rightarrow>
   (('u, 'ev) AppendRequest \<times> (AppendResponse, 'x) Failable) list" where
  "worker_replies w = (case w of (s, e, s') \<Rightarrow> replies_on Request (\<lambda>ex. buffer (Response ex)) (answered s'))"

definition worker_truthful where
  "worker_truthful D hist w q f = (case w of (s, e, s') \<Rightarrow> append_true D (hist (jr s')) e q f)"

lemma worker_ran_result:
  assumes "worker_ran D base hist (s, e, s')"
  shows "list_all (answer_ok D (hist (jr s')) e) (answered s') \<and>
    map Request (answered s') @ map Request (pending IdleState s') = map Request (pending IdleState s)"
  using worker_Run_result [of D base hist s] assms by (auto simp: worker_ran_def)

lemma worker_asked_answered:
  "worker_ran D base hist (s, e, s') \<Longrightarrow> worker_asked (s, e, s') = map Request (answered s')"
  using worker_ran_result [of D base hist s e s'] by (simp add: worker_asked_def received_prefix)

interpretation worker_srv: server "worker_ran D base hist" worker_asked worker_replies "worker_truthful D hist"
  for D base hist
proof
  fix w assume good: "worker_ran D base hist w"
  obtain s e s' where w: "w = (s, e, s')" by (metis prod_cases3)
  note res = worker_ran_result [OF good [unfolded w]]
  then have once: "list_all (\<lambda>ex. \<exists>f. buffer (Response ex) = [f] \<and> append_true D (hist (jr s')) e (Request ex) f) (answered s')"
    by (simp add: list_all_iff answer_ok_def)
  show "map fst (worker_replies w) = worker_asked w"
    unfolding w worker_asked_answered [OF good [unfolded w]] by (simp add: worker_replies_def replies_on_once [OF once])
  fix q f assume "(q, f) \<in> set (worker_replies w)"
  then have "(q, f) \<in> set (replies_on Request (\<lambda>ex. buffer (Response ex)) (answered s'))"
    by (simp add: worker_replies_def w)
  from replies_on_mem [OF once this] show "worker_truthful D hist w q f"
    by (auto simp: worker_truthful_def w)
qed

section \<open>Properties\<close>

text \<open>
C1: Exactly once. However often a request is attempted, on whatever workers, and however these
attempts interleave with appends of other requests, with failures before or after the journal
has stored a record, with stale workers, crashes and restarts: the journal ends up with at most
one record of the request, which holds its events, and every successful response to one of the
attempts names the offsets of that record. The client only has to keep to \<open>OffsetHint\<close>:
it is not beyond the end of the stream before the first attempt.
\<close>

theorem append_exactly_once:
  assumes "journal_laws D base hist" and "ids_ok D" and "cluster_ok base hist s"
    and "stream_trace D s tr s'"
    and "stream_off (hist (fst s)) + sum_list (map label_length tr) < 2 ^ 64"
    and "\<forall>r \<in> set (hist (fst s)). first_id D r \<noteq> Some i"
    and "\<forall>l \<in> set tr. \<forall>req. label_request l = Some req \<longrightarrow> request_id D req = i \<longrightarrow>
      req_Events req = evs \<and> unat (OffsetHint req) \<le> stream_off (hist (fst s))"
  shows "(held D i (hist (fst s')) = [] \<or> (\<exists>r. held D i (hist (fst s')) = [r] \<and> record_events r = evs)) \<and>
    (\<forall>n req v. Appended n req v \<in> set tr \<longrightarrow> request_id D req = i \<longrightarrow> answered_as (held D i (hist (fst s'))) v)"
  using stream_trace_held [OF assms(4,1,2,3,5,6,7)] by (auto simp: held_once_def)

theorem append_exactly_once_witness:
  "\<exists>s'. stream_trace stream_mem example_start example_trace s' \<and>
     (\<exists>r. held stream_mem 4 (mem_hist (fst s')) = [r] \<and> StreamOffsetBefore r = 3)"
proof -
  obtain ws where tr: "stream_trace stream_mem example_start example_trace
      (mem_stream (example_stream @ [append_record 3 4 [4]]) [], ws)" using example_run by blast
  have new: "\<forall>r \<in> set (mem_hist (fst example_start)). first_id stream_mem r \<noteq> Some 4"
    by (simp add: example_start_ok(2)) (simp add: example_stream_def first_id_def stream_mem_def)
  have att: "\<forall>l \<in> set example_trace. \<forall>req. label_request l = Some req \<longrightarrow> request_id stream_mem req = 4 \<longrightarrow>
      req_Events req = [4] \<and> unat (OffsetHint req) \<le> stream_off (mem_hist (fst example_start))"
    using example_stream_wf(2)
    by (auto simp: example_start_ok(2) example_trace_def example_request_def)
  have room: "stream_off (mem_hist (fst example_start)) + sum_list (map label_length example_trace) < 2 ^ 64"
    unfolding example_start_ok(2) by (rule example_start_ok(3))
  have id: "request_id stream_mem example_request = 4"
    by (simp add: request_id_def stream_mem_def example_request_def)
  have "Appended 0 example_request \<lparr>BeginOffset = 3, EndOffset = 4, AppendedByPriorAttempt = True\<rparr>
      \<in> set example_trace" by (simp add: example_trace_def)
  with append_exactly_once [OF stream_mem_ok example_start_ok(1) tr room new att] id tr
  show ?thesis unfolding answered_as_def by fastforce
qed

text \<open>
C11: The stream is an append-only sequence of events: whatever the workers do, the journal stays
well formed (contiguous offsets from 0, no empty batch), no event that is in the stream moves
or disappears, and the offset of the next event is the number of events.
\<close>

theorem stream_append_only:
  assumes "journal_laws D base hist" and "ids_ok D" and "cluster_ok base hist s"
    and "stream_trace D s tr s'"
    and "stream_off (hist (fst s)) + sum_list (map label_length tr) < 2 ^ 64"
  shows "stream_wf (hist (fst s')) \<and>
    (\<exists>evs. stream_events (hist (fst s')) = stream_events (hist (fst s)) @ evs) \<and>
    (hist (fst s') \<noteq> [] \<longrightarrow>
      unat (StreamOffsetAfter (last (hist (fst s')))) = length (stream_events (hist (fst s'))))"
proof -
  note t = stream_trace_result [OF assms(4,1,2,3,5)]
  then have wf: "stream_wf (hist (fst s'))" by (simp add: cluster_ok_def)
  moreover obtain rs where "hist (fst s') = hist (fst s) @ rs" using t by blast
  ultimately show ?thesis using stream_wf_last [OF wf] by (auto simp: stream_events_def stream_off_def)
qed

theorem stream_append_only_witness:
  "\<exists>s'. stream_trace stream_mem example_start example_trace s' \<and> stream_wf (mem_hist (fst s'))"
proof -
  obtain s' where tr: "stream_trace stream_mem example_start example_trace s'" using example_run by blast
  have room: "stream_off (mem_hist (fst example_start)) + sum_list (map label_length example_trace) < 2 ^ 64"
    unfolding example_start_ok(2) by (rule example_start_ok(3))
  from stream_append_only [OF stream_mem_ok example_start_ok(1) tr room] tr show ?thesis by blast
qed

text \<open>
C12: A worker that starts on a well-formed journal ends or waits for more, and never panics.
The exchanges it received are answered in order, each exactly once; a success names a record of
the journal that holds the request's first event, and an error that is sent to a client is the
error that \<open>Run\<close> returns. If it is waiting, everything has been answered with success.
\<close>

theorem worker_Run_answers:
  assumes "journal_laws D base hist" and "ids_ok D" and "base (jr s) = 0" and "stream_wf (hist (jr s))"
    and "wk s = zero_worker" and "answered s = []" and "list_all fresh_exchange (pending IdleState s)"
    and "stream_off (hist (jr s)) + pending_length (pending IdleState s) < 2 ^ 64"
  shows "case worker_Run D s of
      Some (Returned e s') \<Rightarrow>
        stream_wf (hist (jr s')) \<and> list_all (answer_ok D (hist (jr s')) e) (answered s') \<and>
        map Request (answered s') @ map Request (pending IdleState s') = map Request (pending IdleState s)
    | Some (Blocked s') \<Rightarrow>
        stream_wf (hist (jr s')) \<and> list_all (answer_ok D (hist (jr s')) None) (answered s') \<and>
        map Request (answered s') = map Request (pending IdleState s)
    | _ \<Rightarrow> False"
proof -
  have "worker_starts base hist s" using assms(3-) by (simp add: worker_starts_def)
  from worker_Run_result [OF assms(1,2) this] show ?thesis by (auto split: option.splits run_result.splits)
qed

definition example_world ::
  "(nat stream_record mem_journal, nat, nat, mem_err) worker_world" where
  "example_world = \<lparr>wk = zero_worker, jr = mem_stream example_stream [Healthy, FailAfter],
     idle_cases = [Received (Exchange_New example_request)], answered = [], ctx_err = None\<rparr>"

lemma example_world_run:
  "\<exists>s'. worker_Run stream_mem example_world = Some (Returned (Some ErrInduced) s') \<and> length (answered s') = 1"
proof -
  let ?ex = "Exchange_New example_request :: (nat, nat, mem_err) append_exchange"
  let ?s0 = "\<lparr>wk = \<lparr>wpos = 1, woff = 3\<rparr>, jr = mem_stream example_stream [FailAfter],
      idle_cases = [Received ?ex], answered = [], ctx_err = None\<rparr>"
  let ?m = "\<lparr>current = Some IdleState, final = None, err = None\<rparr> :: ((nat, nat, mem_err) worker_state, mem_err) fsm"
  let ?s1 = "?s0\<lparr>idle_cases := []\<rparr>"
  have fresh: "fresh_exchange ?ex" by (simp add: fresh_exchange_def Exchange_New_def example_request_def)
  have "worker_Run stream_mem example_world = Start (worker_machine stream_mem) ctx_err IdleState None ?s0"
    by (simp add: worker_Run_def example_world_def example_open1 worker_at_def zero_worker_def)
  also have "\<dots> = fsm_loop (worker_machine stream_mem) ctx_err (?m\<lparr>current := Some (HandleAppendState ?ex)\<rparr>) ?s1"
    unfolding Start_def
    by (rule fsm_loop_turns(2)) (simp add: fsm_turn_def execute_def worker_idleState_def With_def)
  finally have run: "worker_Run stream_mem example_world =
      fsm_loop (worker_machine stream_mem) ctx_err (?m\<lparr>current := Some (HandleAppendState ?ex)\<rparr>) ?s1" .
  have "handleAppendState stream_mem ?ex ?s1 = (case appendEvents stream_mem example_request
      \<lparr>wpos = 1, woff = 3\<rparr> (mem_stream example_stream [FailAfter]) of
        (Err x, w', j') \<Rightarrow> respond ?ex (Exchange_Err zero_AppendResponse x ?ex) (Fail x) (?s1\<lparr>wk := w', jr := j'\<rparr>))"
    by (simp add: handleAppendState_def Exchange_New_def example_request_def example_fail [unfolded example_request_def])
  then obtain s2 where h: "handleAppendState stream_mem ?ex ?s1 = Done (Fail ErrInduced) s2" "length (answered s2) = 1"
    by (simp add: example_fail respond_fresh [OF fresh])
  have "fsm_turn (worker_machine stream_mem) ctx_err (?m\<lparr>current := Some (HandleAppendState ?ex)\<rparr>) ?s1 =
      Inr (?m\<lparr>current := None, err := Some ErrInduced\<rparr>, s2)"
    using h(1) by (simp add: fsm_turn_def execute_def)
  from fsm_loop_turns(2) [OF this] have "worker_Run stream_mem example_world = Some (Returned (Some ErrInduced) s2)"
    unfolding run by (simp add: fsm_loop_turns(1) [OF fsm_turn_stopped])
  with h(2) show ?thesis by blast
qed

theorem worker_Run_answers_witness:
  "\<exists>s'. worker_Run stream_mem example_world = Some (Returned (Some ErrInduced) s') \<and> length (answered s') = 1 \<and>
     list_all (answer_ok stream_mem (mem_hist (jr s')) (Some ErrInduced)) (answered s')"
proof -
  let ?s = "example_world"
  have pre: "mem_base (jr ?s) = 0" "stream_wf (mem_hist (jr ?s))" "wk ?s = zero_worker" "answered ?s = []"
    "list_all fresh_exchange (pending IdleState ?s)"
    "stream_off (mem_hist (jr ?s)) + pending_length (pending IdleState ?s) < 2 ^ 64"
    using example_stream_wf
    by (simp_all add: example_world_def pending_def fresh_exchange_def Exchange_New_def example_request_def
        pending_length_def example_stream_def)
  obtain s' where s': "worker_Run stream_mem ?s = Some (Returned (Some ErrInduced) s')" "length (answered s') = 1"
    using example_world_run by blast
  with worker_Run_answers [OF stream_mem_ok pre] show ?thesis by simp
qed

text \<open>
C13: What one append does, on each of its branches. Without an error it either finds the record
of a prior attempt and changes nothing, or stores one new record at the end of a journal in
which no record can hold the request, and moves on past it. After an error the worker's own
position is unchanged, although the record may have been stored.
\<close>

theorem appendEvents_branches:
  assumes "journal_laws D base hist" and "ids_ok D" and "base j = 0"
    and "stream_wf (hist j)" and "worker_ok (hist j) w" and "req_Events req \<noteq> []"
  shows "case appendEvents D req w j of
      (Ok v, w', j') \<Rightarrow>
        if AppendedByPriorAttempt v
        then w' = w \<and> hist j' = hist j \<and>
          (\<exists>r \<in> set (hist j). first_id D r = Some (request_id D req) \<and>
             v = \<lparr>BeginOffset = StreamOffsetBefore r, EndOffset = StreamOffsetAfter r,
               AppendedByPriorAttempt = True\<rparr>)
        else stream_appended D req w (hist j) (hist j') \<and>
          w' = \<lparr>wpos = wpos w + 1, woff = woff w + of_nat (length (req_Events req))\<rparr> \<and>
          v = \<lparr>BeginOffset = woff w, EndOffset = woff w + of_nat (length (req_Events req)),
            AppendedByPriorAttempt = False\<rparr>
    | (Err x, w', j') \<Rightarrow> w' = w \<and> (hist j' = hist j \<or> stream_appended D req w (hist j) (hist j'))
    | (Panic t, w', j') \<Rightarrow> False"
proof -
  obtain res w' j' where app: "appendEvents D req w j = (res, w', j')" by (metis prod_cases3)
  show ?thesis
    using appendEvents_result [OF assms app] unfolding app new_record_offsets
    by (cases res) simp_all
qed

theorem appendEvents_branches_witness:
  "\<exists>w' j'. appendEvents stream_mem example_request \<lparr>wpos = 1, woff = 3\<rparr>
       (mem_stream example_stream [FailAfter]) = (Err ErrInduced, w', j') \<and> w' = \<lparr>wpos = 1, woff = 3\<rparr>"
proof -
  let ?j = "mem_stream example_stream [FailAfter]"
  have "mem_base ?j = 0" "stream_wf (mem_hist ?j)" "worker_ok (mem_hist ?j) \<lparr>wpos = 1, woff = 3\<rparr>"
    "req_Events example_request \<noteq> []"
    using example_stream_wf by (simp_all add: worker_ok_def example_stream_def example_request_def)
  from appendEvents_branches [OF stream_mem_ok this] show ?thesis by (simp add: example_fail)
qed

end
