(* ===== verification/Integration_Journal.thy ===== *)
theory Integration_Journal
  imports Prelude
begin

text \<open>
  \<open>internal/integration/internal/integrationjournal\<close> and \<open>integrationset\<close>: the records of
  an integration handler's journal with their generated accessors, setters and builders, and the
  names of the journal and of the set of accepted commands.

  As in theory \<open>Stream_Journal\<close>, a message is a record of its fields, a \<open>oneof\<close> an
  optional value of a datatype of its wrappers, and a nil pointer is \<open>None\<close>. Identifiers
  (\<open>'u\<close>) and envelopes (\<open>'env\<close>) come from another module. The fields carry a prefix for
  their message (\<open>ca\<close>, \<open>ch\<close>, \<open>ea\<close>).
\<close>

section \<open>Messages\<close>

record 'env CommandAccepted =
  ca_Command :: "'env option"

record ('u, 'env) CommandHandled =
  ch_CommandId :: "'u option"
  ch_Events :: "'env list"
  ch_EventStreamId :: "'u option"
  ch_OffsetHint :: u64

record 'u EventsAppendedToStream =
  ea_CommandId :: "'u option"
  ea_EventStreamId :: "'u option"
  ea_EventOffset :: u64

datatype ('u, 'env) operation =
  Record_CommandAccepted "'env CommandAccepted option"
| Record_CommandHandled "('u, 'env) CommandHandled option"
| Record_EventsAppendedToStream "'u EventsAppendedToStream option"

record ('u, 'env) op_record =
  op_Operation :: "('u, 'env) operation option"

definition zero_CommandAccepted :: "'env CommandAccepted" where
  "zero_CommandAccepted = \<lparr>ca_Command = None\<rparr>"

definition zero_CommandHandled :: "('u, 'env) CommandHandled" where
  "zero_CommandHandled = \<lparr>ch_CommandId = None, ch_Events = [], ch_EventStreamId = None, ch_OffsetHint = 0\<rparr>"

definition zero_EventsAppendedToStream :: "'u EventsAppendedToStream" where
  "zero_EventsAppendedToStream = \<lparr>ea_CommandId = None, ea_EventStreamId = None, ea_EventOffset = 0\<rparr>"

definition zero_op_record :: "('u, 'env) op_record" where
  "zero_op_record = \<lparr>op_Operation = None\<rparr>"

section \<open>Accessors\<close>

fun op_GetOperation :: "('u, 'env) op_record option \<Rightarrow> ('u, 'env) operation option" where
  "op_GetOperation (Some x) = op_Operation x"
| "op_GetOperation None = None"

fun op_GetCommandAccepted :: "('u, 'env) op_record option \<Rightarrow> 'env CommandAccepted option" where
  "op_GetCommandAccepted (Some x) =
     (case op_Operation x of Some (Record_CommandAccepted v) \<Rightarrow> v | _ \<Rightarrow> None)"
| "op_GetCommandAccepted None = None"

fun op_GetCommandHandled :: "('u, 'env) op_record option \<Rightarrow> ('u, 'env) CommandHandled option" where
  "op_GetCommandHandled (Some x) =
     (case op_Operation x of Some (Record_CommandHandled v) \<Rightarrow> v | _ \<Rightarrow> None)"
| "op_GetCommandHandled None = None"

fun op_GetEventsAppendedToStream :: "('u, 'env) op_record option \<Rightarrow> 'u EventsAppendedToStream option" where
  "op_GetEventsAppendedToStream (Some x) =
     (case op_Operation x of Some (Record_EventsAppendedToStream v) \<Rightarrow> v | _ \<Rightarrow> None)"
| "op_GetEventsAppendedToStream None = None"

fun ca_GetCommand :: "'env CommandAccepted option \<Rightarrow> 'env option" where
  "ca_GetCommand (Some x) = ca_Command x"
| "ca_GetCommand None = None"

fun ch_GetCommandId :: "('u, 'env) CommandHandled option \<Rightarrow> 'u option" where
  "ch_GetCommandId (Some x) = ch_CommandId x"
| "ch_GetCommandId None = None"

fun ch_GetEvents :: "('u, 'env) CommandHandled option \<Rightarrow> 'env list" where
  "ch_GetEvents (Some x) = ch_Events x"
| "ch_GetEvents None = []"

fun ch_GetEventStreamId :: "('u, 'env) CommandHandled option \<Rightarrow> 'u option" where
  "ch_GetEventStreamId (Some x) = ch_EventStreamId x"
| "ch_GetEventStreamId None = None"

fun ch_GetOffsetHint :: "('u, 'env) CommandHandled option \<Rightarrow> u64" where
  "ch_GetOffsetHint (Some x) = ch_OffsetHint x"
| "ch_GetOffsetHint None = 0"

fun ea_GetCommandId :: "'u EventsAppendedToStream option \<Rightarrow> 'u option" where
  "ea_GetCommandId (Some x) = ea_CommandId x"
| "ea_GetCommandId None = None"

fun ea_GetEventStreamId :: "'u EventsAppendedToStream option \<Rightarrow> 'u option" where
  "ea_GetEventStreamId (Some x) = ea_EventStreamId x"
| "ea_GetEventStreamId None = None"

fun ea_GetEventOffset :: "'u EventsAppendedToStream option \<Rightarrow> u64" where
  "ea_GetEventOffset (Some x) = ea_EventOffset x"
| "ea_GetEventOffset None = 0"

definition op_TryGetCommandAccepted :: "('u, 'env) op_record option \<Rightarrow> 'env CommandAccepted option \<times> bool" where
  "op_TryGetCommandAccepted x =
     (case op_GetOperation x of Some (Record_CommandAccepted v) \<Rightarrow> (v, True) | _ \<Rightarrow> (None, False))"

definition op_TryGetCommandHandled :: "('u, 'env) op_record option \<Rightarrow> ('u, 'env) CommandHandled option \<times> bool" where
  "op_TryGetCommandHandled x =
     (case op_GetOperation x of Some (Record_CommandHandled v) \<Rightarrow> (v, True) | _ \<Rightarrow> (None, False))"

definition op_TryGetEventsAppendedToStream :: "('u, 'env) op_record option \<Rightarrow> 'u EventsAppendedToStream option \<times> bool" where
  "op_TryGetEventsAppendedToStream x =
     (case op_GetOperation x of Some (Record_EventsAppendedToStream v) \<Rightarrow> (v, True) | _ \<Rightarrow> (None, False))"

text \<open>The switches; the functions passed to the first two change the state \<open>'s\<close> of the caller.\<close>

definition op_MustSwitch_Operation ::
  "('u, 'env) op_record option \<Rightarrow> ('env CommandAccepted option \<Rightarrow> 's \<Rightarrow> 's) \<Rightarrow>
   (('u, 'env) CommandHandled option \<Rightarrow> 's \<Rightarrow> 's) \<Rightarrow>
   ('u EventsAppendedToStream option \<Rightarrow> 's \<Rightarrow> 's) \<Rightarrow> 's \<Rightarrow> ('e, 's) outcome" where
  "op_MustSwitch_Operation x caseCommandAccepted caseCommandHandled caseEventsAppendedToStream s =
     (case op_GetOperation x of
        Some (Record_CommandAccepted v) \<Rightarrow> Ok (caseCommandAccepted v s)
      | Some (Record_CommandHandled v) \<Rightarrow> Ok (caseCommandHandled v s)
      | Some (Record_EventsAppendedToStream v) \<Rightarrow> Ok (caseEventsAppendedToStream v s)
      | None \<Rightarrow> Panic ''MustSwitch_Record_Operation: x.Operation is nil'')"

definition op_Switch_Operation ::
  "('u, 'env) op_record option \<Rightarrow> ('env CommandAccepted option \<Rightarrow> 's \<Rightarrow> 's) \<Rightarrow>
   (('u, 'env) CommandHandled option \<Rightarrow> 's \<Rightarrow> 's) \<Rightarrow>
   ('u EventsAppendedToStream option \<Rightarrow> 's \<Rightarrow> 's) \<Rightarrow> ('s \<Rightarrow> 's) \<Rightarrow> 's \<Rightarrow> 's" where
  "op_Switch_Operation x caseCommandAccepted caseCommandHandled caseEventsAppendedToStream none s =
     (case op_GetOperation x of
        Some (Record_CommandAccepted v) \<Rightarrow> caseCommandAccepted v s
      | Some (Record_CommandHandled v) \<Rightarrow> caseCommandHandled v s
      | Some (Record_EventsAppendedToStream v) \<Rightarrow> caseEventsAppendedToStream v s
      | None \<Rightarrow> none s)"

definition op_MustMap_Operation ::
  "('u, 'env) op_record option \<Rightarrow> ('env CommandAccepted option \<Rightarrow> 't) \<Rightarrow>
   (('u, 'env) CommandHandled option \<Rightarrow> 't) \<Rightarrow>
   ('u EventsAppendedToStream option \<Rightarrow> 't) \<Rightarrow> ('e, 't) outcome" where
  "op_MustMap_Operation x caseCommandAccepted caseCommandHandled caseEventsAppendedToStream =
     (case op_GetOperation x of
        Some (Record_CommandAccepted v) \<Rightarrow> Ok (caseCommandAccepted v)
      | Some (Record_CommandHandled v) \<Rightarrow> Ok (caseCommandHandled v)
      | Some (Record_EventsAppendedToStream v) \<Rightarrow> Ok (caseEventsAppendedToStream v)
      | None \<Rightarrow> Panic ''MustMap_Record_Operation: x.Operation is nil'')"

definition op_Map_Operation ::
  "('u, 'env) op_record option \<Rightarrow> ('env CommandAccepted option \<Rightarrow> 't) \<Rightarrow>
   (('u, 'env) CommandHandled option \<Rightarrow> 't) \<Rightarrow>
   ('u EventsAppendedToStream option \<Rightarrow> 't) \<Rightarrow> 't \<Rightarrow> 't" where
  "op_Map_Operation x caseCommandAccepted caseCommandHandled caseEventsAppendedToStream none =
     (case op_GetOperation x of
        Some (Record_CommandAccepted v) \<Rightarrow> caseCommandAccepted v
      | Some (Record_CommandHandled v) \<Rightarrow> caseCommandHandled v
      | Some (Record_EventsAppendedToStream v) \<Rightarrow> caseEventsAppendedToStream v
      | None \<Rightarrow> none)"

section \<open>Setters\<close>

definition op_SetCommandAccepted :: "'env CommandAccepted option \<Rightarrow> ('u, 'env) op_record \<Rightarrow> ('u, 'env) op_record" where
  "op_SetCommandAccepted v x = x\<lparr>op_Operation := Some (Record_CommandAccepted v)\<rparr>"

definition op_SetCommandHandled :: "('u, 'env) CommandHandled option \<Rightarrow> ('u, 'env) op_record \<Rightarrow> ('u, 'env) op_record" where
  "op_SetCommandHandled v x = x\<lparr>op_Operation := Some (Record_CommandHandled v)\<rparr>"

definition op_SetEventsAppendedToStream :: "'u EventsAppendedToStream option \<Rightarrow> ('u, 'env) op_record \<Rightarrow> ('u, 'env) op_record" where
  "op_SetEventsAppendedToStream v x = x\<lparr>op_Operation := Some (Record_EventsAppendedToStream v)\<rparr>"

definition ca_SetCommand :: "'env option \<Rightarrow> 'env CommandAccepted \<Rightarrow> 'env CommandAccepted" where
  "ca_SetCommand v x = x\<lparr>ca_Command := v\<rparr>"

definition ch_SetCommandId :: "'u option \<Rightarrow> ('u, 'env) CommandHandled \<Rightarrow> ('u, 'env) CommandHandled" where
  "ch_SetCommandId v x = x\<lparr>ch_CommandId := v\<rparr>"

definition ch_SetEvents :: "'env list \<Rightarrow> ('u, 'env) CommandHandled \<Rightarrow> ('u, 'env) CommandHandled" where
  "ch_SetEvents v x = x\<lparr>ch_Events := v\<rparr>"

definition ch_SetEventStreamId :: "'u option \<Rightarrow> ('u, 'env) CommandHandled \<Rightarrow> ('u, 'env) CommandHandled" where
  "ch_SetEventStreamId v x = x\<lparr>ch_EventStreamId := v\<rparr>"

definition ch_SetOffsetHint :: "u64 \<Rightarrow> ('u, 'env) CommandHandled \<Rightarrow> ('u, 'env) CommandHandled" where
  "ch_SetOffsetHint v x = x\<lparr>ch_OffsetHint := v\<rparr>"

definition ea_SetCommandId :: "'u option \<Rightarrow> 'u EventsAppendedToStream \<Rightarrow> 'u EventsAppendedToStream" where
  "ea_SetCommandId v x = x\<lparr>ea_CommandId := v\<rparr>"

definition ea_SetEventStreamId :: "'u option \<Rightarrow> 'u EventsAppendedToStream \<Rightarrow> 'u EventsAppendedToStream" where
  "ea_SetEventStreamId v x = x\<lparr>ea_EventStreamId := v\<rparr>"

definition ea_SetEventOffset :: "u64 \<Rightarrow> 'u EventsAppendedToStream \<Rightarrow> 'u EventsAppendedToStream" where
  "ea_SetEventOffset v x = x\<lparr>ea_EventOffset := v\<rparr>"

section \<open>Builders\<close>

datatype ('u, 'env) op_record_builder = OpRecordBuilder "('u, 'env) op_record"

definition op_NewRecordBuilder :: "('u, 'env) op_record_builder" where
  "op_NewRecordBuilder = OpRecordBuilder zero_op_record"

fun op_RecordBuilder_From ::
  "('u, 'env) op_record_builder \<Rightarrow> ('u, 'env) op_record option \<Rightarrow> ('e, ('u, 'env) op_record_builder) outcome" where
  "op_RecordBuilder_From (OpRecordBuilder p) (Some x) = Ok (OpRecordBuilder (p\<lparr>op_Operation := op_Operation x\<rparr>))"
| "op_RecordBuilder_From b None = Panic ''invalid memory address or nil pointer dereference''"

fun op_RecordBuilder_Build :: "('u, 'env) op_record_builder \<Rightarrow> ('u, 'env) op_record" where
  "op_RecordBuilder_Build (OpRecordBuilder p) = \<lparr>op_Operation = op_Operation p\<rparr>"

fun op_WithCommandAccepted :: "'env CommandAccepted option \<Rightarrow> ('u, 'env) op_record_builder \<Rightarrow> ('u, 'env) op_record_builder" where
  "op_WithCommandAccepted v (OpRecordBuilder p) = OpRecordBuilder (p\<lparr>op_Operation := Some (Record_CommandAccepted v)\<rparr>)"

fun op_WithCommandHandled :: "('u, 'env) CommandHandled option \<Rightarrow> ('u, 'env) op_record_builder \<Rightarrow> ('u, 'env) op_record_builder" where
  "op_WithCommandHandled v (OpRecordBuilder p) = OpRecordBuilder (p\<lparr>op_Operation := Some (Record_CommandHandled v)\<rparr>)"

fun op_WithEventsAppendedToStream :: "'u EventsAppendedToStream option \<Rightarrow> ('u, 'env) op_record_builder \<Rightarrow> ('u, 'env) op_record_builder" where
  "op_WithEventsAppendedToStream v (OpRecordBuilder p) = OpRecordBuilder (p\<lparr>op_Operation := Some (Record_EventsAppendedToStream v)\<rparr>)"

datatype 'env CommandAcceptedBuilder = CommandAcceptedBuilder "'env CommandAccepted"

definition NewCommandAcceptedBuilder :: "'env CommandAcceptedBuilder" where
  "NewCommandAcceptedBuilder = CommandAcceptedBuilder zero_CommandAccepted"

fun CommandAcceptedBuilder_From ::
  "'env CommandAcceptedBuilder \<Rightarrow> 'env CommandAccepted option \<Rightarrow> ('e, 'env CommandAcceptedBuilder) outcome" where
  "CommandAcceptedBuilder_From (CommandAcceptedBuilder p) (Some x) =
     Ok (CommandAcceptedBuilder (p\<lparr>ca_Command := ca_Command x\<rparr>))"
| "CommandAcceptedBuilder_From b None = Panic ''invalid memory address or nil pointer dereference''"

fun CommandAcceptedBuilder_Build :: "'env CommandAcceptedBuilder \<Rightarrow> 'env CommandAccepted" where
  "CommandAcceptedBuilder_Build (CommandAcceptedBuilder p) =
     \<lparr>ca_Command = ca_Command p\<rparr>"

fun ca_WithCommand :: "'env option \<Rightarrow> 'env CommandAcceptedBuilder \<Rightarrow> 'env CommandAcceptedBuilder" where
  "ca_WithCommand v (CommandAcceptedBuilder p) = CommandAcceptedBuilder (p\<lparr>ca_Command := v\<rparr>)"

datatype ('u, 'env) CommandHandledBuilder = CommandHandledBuilder "('u, 'env) CommandHandled"

definition NewCommandHandledBuilder :: "('u, 'env) CommandHandledBuilder" where
  "NewCommandHandledBuilder = CommandHandledBuilder zero_CommandHandled"

fun CommandHandledBuilder_From ::
  "('u, 'env) CommandHandledBuilder \<Rightarrow> ('u, 'env) CommandHandled option \<Rightarrow> ('e, ('u, 'env) CommandHandledBuilder) outcome" where
  "CommandHandledBuilder_From (CommandHandledBuilder p) (Some x) =
     Ok (CommandHandledBuilder (p\<lparr>ch_CommandId := ch_CommandId x,
       ch_Events := ch_Events x,
       ch_EventStreamId := ch_EventStreamId x,
       ch_OffsetHint := ch_OffsetHint x\<rparr>))"
| "CommandHandledBuilder_From b None = Panic ''invalid memory address or nil pointer dereference''"

fun CommandHandledBuilder_Build :: "('u, 'env) CommandHandledBuilder \<Rightarrow> ('u, 'env) CommandHandled" where
  "CommandHandledBuilder_Build (CommandHandledBuilder p) =
     \<lparr>ch_CommandId = ch_CommandId p,
       ch_Events = ch_Events p,
       ch_EventStreamId = ch_EventStreamId p,
       ch_OffsetHint = ch_OffsetHint p\<rparr>"

fun ch_WithCommandId :: "'u option \<Rightarrow> ('u, 'env) CommandHandledBuilder \<Rightarrow> ('u, 'env) CommandHandledBuilder" where
  "ch_WithCommandId v (CommandHandledBuilder p) = CommandHandledBuilder (p\<lparr>ch_CommandId := v\<rparr>)"

fun ch_WithEvents :: "'env list \<Rightarrow> ('u, 'env) CommandHandledBuilder \<Rightarrow> ('u, 'env) CommandHandledBuilder" where
  "ch_WithEvents v (CommandHandledBuilder p) = CommandHandledBuilder (p\<lparr>ch_Events := v\<rparr>)"

fun ch_WithEventStreamId :: "'u option \<Rightarrow> ('u, 'env) CommandHandledBuilder \<Rightarrow> ('u, 'env) CommandHandledBuilder" where
  "ch_WithEventStreamId v (CommandHandledBuilder p) = CommandHandledBuilder (p\<lparr>ch_EventStreamId := v\<rparr>)"

fun ch_WithOffsetHint :: "u64 \<Rightarrow> ('u, 'env) CommandHandledBuilder \<Rightarrow> ('u, 'env) CommandHandledBuilder" where
  "ch_WithOffsetHint v (CommandHandledBuilder p) = CommandHandledBuilder (p\<lparr>ch_OffsetHint := v\<rparr>)"

datatype 'u EventsAppendedToStreamBuilder = EventsAppendedToStreamBuilder "'u EventsAppendedToStream"

definition NewEventsAppendedToStreamBuilder :: "'u EventsAppendedToStreamBuilder" where
  "NewEventsAppendedToStreamBuilder = EventsAppendedToStreamBuilder zero_EventsAppendedToStream"

fun EventsAppendedToStreamBuilder_From ::
  "'u EventsAppendedToStreamBuilder \<Rightarrow> 'u EventsAppendedToStream option \<Rightarrow> ('e, 'u EventsAppendedToStreamBuilder) outcome" where
  "EventsAppendedToStreamBuilder_From (EventsAppendedToStreamBuilder p) (Some x) =
     Ok (EventsAppendedToStreamBuilder (p\<lparr>ea_CommandId := ea_CommandId x,
       ea_EventStreamId := ea_EventStreamId x,
       ea_EventOffset := ea_EventOffset x\<rparr>))"
| "EventsAppendedToStreamBuilder_From b None = Panic ''invalid memory address or nil pointer dereference''"

fun EventsAppendedToStreamBuilder_Build :: "'u EventsAppendedToStreamBuilder \<Rightarrow> 'u EventsAppendedToStream" where
  "EventsAppendedToStreamBuilder_Build (EventsAppendedToStreamBuilder p) =
     \<lparr>ea_CommandId = ea_CommandId p,
       ea_EventStreamId = ea_EventStreamId p,
       ea_EventOffset = ea_EventOffset p\<rparr>"

fun ea_WithCommandId :: "'u option \<Rightarrow> 'u EventsAppendedToStreamBuilder \<Rightarrow> 'u EventsAppendedToStreamBuilder" where
  "ea_WithCommandId v (EventsAppendedToStreamBuilder p) = EventsAppendedToStreamBuilder (p\<lparr>ea_CommandId := v\<rparr>)"

fun ea_WithEventStreamId :: "'u option \<Rightarrow> 'u EventsAppendedToStreamBuilder \<Rightarrow> 'u EventsAppendedToStreamBuilder" where
  "ea_WithEventStreamId v (EventsAppendedToStreamBuilder p) = EventsAppendedToStreamBuilder (p\<lparr>ea_EventStreamId := v\<rparr>)"

fun ea_WithEventOffset :: "u64 \<Rightarrow> 'u EventsAppendedToStreamBuilder \<Rightarrow> 'u EventsAppendedToStreamBuilder" where
  "ea_WithEventOffset v (EventsAppendedToStreamBuilder p) = EventsAppendedToStreamBuilder (p\<lparr>ea_EventOffset := v\<rparr>)"

lemmas op_message_defs = zero_CommandAccepted_def zero_CommandHandled_def
  zero_EventsAppendedToStream_def zero_op_record_def op_NewRecordBuilder_def
  NewCommandAcceptedBuilder_def NewCommandHandledBuilder_def
  NewEventsAppendedToStreamBuilder_def op_SetCommandAccepted_def op_SetCommandHandled_def
  op_SetEventsAppendedToStream_def ca_SetCommand_def ch_SetCommandId_def ch_SetEvents_def
  ch_SetEventStreamId_def ch_SetOffsetHint_def ea_SetCommandId_def ea_SetEventStreamId_def
  ea_SetEventOffset_def

section \<open>Names\<close>

definition journal_Name :: "('u \<Rightarrow> string) \<Rightarrow> 'u \<Rightarrow> string" where
  "journal_Name AsString key = ''integration:'' @ AsString key"

definition AcceptedCommandsSet :: "('u \<Rightarrow> string) \<Rightarrow> 'u \<Rightarrow> string" where
  "AcceptedCommandsSet AsString key = ''integration:'' @ AsString key @ '':accepted-commands''"

section \<open>Properties\<close>

text \<open>
The accessors of the \<open>oneof\<close> tell the three operations apart: after a builder (or the setter of
the same name) has set one of them, exactly that accessor finds it, whatever was set before, and
with no operation set none does.
\<close>

lemma op_builder_selects:
  fixes b :: "('u, 'env) op_record_builder" and a :: "'env CommandAccepted option"
    and h :: "('u, 'env) CommandHandled option" and e :: "'u EventsAppendedToStream option"
  defines "gets \<equiv> \<lambda>r. (op_TryGetCommandAccepted (Some r), op_TryGetCommandHandled (Some r),
      op_TryGetEventsAppendedToStream (Some r), op_GetCommandAccepted (Some r), op_GetCommandHandled (Some r),
      op_GetEventsAppendedToStream (Some r))"
  shows "gets (op_RecordBuilder_Build (op_WithCommandAccepted a b)) = ((a, True), (None, False), (None, False), a, None, None)"
    and "gets (op_RecordBuilder_Build (op_WithCommandHandled h b)) = ((None, False), (h, True), (None, False), None, h, None)"
    and "gets (op_RecordBuilder_Build (op_WithEventsAppendedToStream e b)) = ((None, False), (None, False), (e, True), None, None, e)"
    and "gets (op_RecordBuilder_Build op_NewRecordBuilder) = ((None, False), (None, False), (None, False), None, None, None)"
  by (cases b; simp add: gets_def op_message_defs op_TryGetCommandHandled_def op_TryGetCommandAccepted_def
      op_TryGetEventsAppendedToStream_def)+

text \<open>
A builder that starts from a message builds that message, whatever it held before, and each
of its methods changes the field it names as the setter does.
\<close>

lemma CommandHandledBuilder_roundtrip:
  "case CommandHandledBuilder_From b (Some x) of
     Ok b' \<Rightarrow> CommandHandledBuilder_Build b' = x \<and>
       CommandHandledBuilder_Build (ch_WithOffsetHint o1 (ch_WithEventStreamId i (ch_WithEvents evs (ch_WithCommandId c b')))) =
         ch_SetCommandId c (ch_SetEvents evs (ch_SetEventStreamId i (ch_SetOffsetHint o1 x)))
   | Err _ \<Rightarrow> False | Panic _ \<Rightarrow> False"
  by (cases b) (simp add: op_message_defs)

end
