(* ===== verification/Integration_Supervisor.thy ===== *)
theory Integration_Supervisor
  imports Integration_Journal Stream_Worker
begin

text \<open>
  \<open>internal/integration\<close>: the supervisor of one integration message handler. It accepts
  commands from a queue, keeps them in a journal, has them handled, and appends the events of
  the handler to an event stream; when it starts it completes what the journal says is pending.

  Code outside the repository is an \<open>integration_deps\<close>: the journal and the set of accepted
  commands (\<open>persistencekit\<close>), the packer and the accessors of envelopes
  (\<open>enginekit\<close>), the application's handler, and the implementation of
  \<open>EventRecorder\<close>.
\<close>

section \<open>Dependencies\<close>

text \<open>
  A handler sees the command and acts on its scope only: it is given by the calls it makes, in
  order, and by how it ends: it returns nil (\<open>Ok ()\<close>) or an error, or it panics (of itself, or
  in its last call, as \<open>RecordEvent\<close> does when the packer panics). \<open>Unpack\<close> gives a message of
  any kind; \<open>is_Command\<close> says whether its dynamic type implements \<open>dogma.Command\<close>, as the type
  assertion asks. \<open>'k\<close> is the state of the set, \<open>'w\<close> that of everything else outside.
  \<open>SelectEventStream\<close> gives its three results.
\<close>

datatype ('ev, 'arg) scope_call = RecordEvent 'ev | Now | Log string "'arg list"

record ('j, 'u, 'env, 'x, 'k, 'w, 'msg, 'ev, 'arg, 'hid) integration_deps =
  "('j, ('u, 'env) op_record, 'x) journal_api" +
  set_Has :: "'k \<Rightarrow> 'u option \<Rightarrow> ('x, bool) outcome \<times> 'k"
  set_Add :: "'k \<Rightarrow> 'u option \<Rightarrow> 'x option \<times> 'k"
  env_MessageId :: "'env option \<Rightarrow> 'u option"
  uuid_Equal :: "'u option \<Rightarrow> 'u option \<Rightarrow> bool"
  Unpack :: "'env option \<Rightarrow> ('x, 'msg) outcome"
  is_Command :: "'msg \<Rightarrow> bool"
  Pack :: "'ev \<Rightarrow> 'hid \<Rightarrow> 'env option \<Rightarrow> 'w \<Rightarrow> 'env \<times> 'w"
  HandleCommand :: "'msg \<Rightarrow> 'w \<Rightarrow> (('ev, 'arg) scope_call list \<times> ('x, unit) outcome) \<times> 'w"
  SelectEventStream :: "'w \<Rightarrow> ('u option \<times> u64 \<times> 'x option) \<times> 'w"
  AppendEvents :: "('u option, 'env) AppendRequest \<Rightarrow> 'w \<Rightarrow> (AppendResponse \<times> 'x option) \<times> 'w"

section \<open>State\<close>

text \<open>
  \<open>appends\<close> lists the requests that have been made of the event recorder, with the response
  to those that succeeded, and
  \<open>replied\<close> the requests that have been (negatively) acknowledged, with their channels.
\<close>

datatype ('env, 'x) supervisor_case =
  SupCtxDone 'x | SupShutdown | SupReceived "'env option ack_request"

record ('j, 'u, 'env, 'x, 'k, 'w, 'hid) supervisor =
  journal :: 'j
  acceptedCommands :: 'k
  outside :: 'w
  HandlerIdentity :: 'hid
  journalPos :: pos
  eventStreamID :: "'u option"
  eventOffsetHint :: u64
  sup_cases :: "('env, 'x) supervisor_case list"
  replied :: "'env option ack_request list"
  appends :: "(('u option, 'env) AppendRequest \<times> AppendResponse option) list"
  sup_ctx :: "'x option"

section \<open>The scope\<close>

record ('env, 'hid) scope =
  sc_handler :: 'hid
  sc_command :: "'env option"
  sc_events :: "'env list"

fun scope_call_step ::
  "('j, 'u, 'env, 'x, 'k, 'w, 'msg, 'ev, 'arg, 'hid) integration_deps \<Rightarrow> ('ev, 'arg) scope_call \<Rightarrow>
   ('env, 'hid) scope \<times> 'w \<Rightarrow> ('env, 'hid) scope \<times> 'w" where
  "scope_call_step D (RecordEvent e) (sc, w) =
     (case Pack D e (sc_handler sc) (sc_command sc) w of
        (env, w') \<Rightarrow> (sc\<lparr>sc_events := sc_events sc @ [env]\<rparr>, w'))"
| "scope_call_step D Now (sc, w) = (sc, w)"
| "scope_call_step D (Log fmt args) (sc, w) = (sc, w)"

text \<open>The events that a handler's calls leave in the scope.\<close>

definition run_scope ::
  "('j, 'u, 'env, 'x, 'k, 'w, 'msg, 'ev, 'arg, 'hid) integration_deps \<Rightarrow> ('ev, 'arg) scope_call list \<Rightarrow>
   ('env, 'hid) scope \<times> 'w \<Rightarrow> ('env, 'hid) scope \<times> 'w" where
  "run_scope D calls sw = foldl (\<lambda>s c. scope_call_step D c s) sw calls"

section \<open>Handling a command\<close>

type_synonym ('j, 'u, 'env, 'x, 'k, 'w, 'hid) sup_result =
  "('x, unit) outcome \<times> ('j, 'u, 'env, 'x, 'k, 'w, 'hid) supervisor"

text \<open>Every append to the journal is followed by \<open>journalPos++\<close>, unless it failed.\<close>

definition sup_append ::
  "('j, 'u, 'env, 'x, 'k, 'w, 'msg, 'ev, 'arg, 'hid) integration_deps \<Rightarrow> ('u, 'env) op_record \<Rightarrow>
   ('j, 'u, 'env, 'x, 'k, 'w, 'hid) supervisor \<Rightarrow> ('j, 'u, 'env, 'x, 'k, 'w, 'hid) sup_result" where
  "sup_append D r s =
     (case j_Append D (journal s) (journalPos s) r of
        (Some x, j') \<Rightarrow> (Err x, s\<lparr>journal := j'\<rparr>)
      | (None, j') \<Rightarrow> (Ok (), s\<lparr>journal := j', journalPos := journalPos s + 1\<rparr>))"

text \<open>
  The comparison \<open>s.eventStreamID == op.GetEventStreamId()\<close> is one of pointers. \<open>shared\<close>
  says that \<open>op\<close> holds the very pointer of the supervisor (\<open>handleCommand\<close> puts it
  there); a message read from the journal has pointers of its own.
\<close>

definition same_pointer :: "bool \<Rightarrow> 'u option \<Rightarrow> 'u option \<Rightarrow> bool" where
  "same_pointer shared a b \<longleftrightarrow> (shared \<and> a = b) \<or> (a = None \<and> b = None)"

definition append_request :: "('u, 'env) CommandHandled option \<Rightarrow> ('u option, 'env) AppendRequest" where
  "append_request op = \<lparr>StreamID = ch_GetEventStreamId op, req_Events = ch_GetEvents op,
     OffsetHint = ch_GetOffsetHint op\<rparr>"

definition sup_appendEvents ::
  "('j, 'u, 'env, 'x, 'k, 'w, 'msg, 'ev, 'arg, 'hid) integration_deps \<Rightarrow> bool \<Rightarrow> ('u, 'env) CommandHandled option \<Rightarrow>
   ('j, 'u, 'env, 'x, 'k, 'w, 'hid) supervisor \<Rightarrow> ('j, 'u, 'env, 'x, 'k, 'w, 'hid) sup_result" where
  "sup_appendEvents D shared op s =
     (if length (ch_GetEvents op) = 0 then (Ok (), s)
      else
        (let req = append_request op
         in case AppendEvents D req (outside s) of
              ((res, Some x), w') \<Rightarrow> (Err x, s\<lparr>outside := w', appends := appends s @ [(req, None)]\<rparr>)
            | ((res, None), w') \<Rightarrow>
                (let s1 = s\<lparr>outside := w', appends := appends s @ [(req, Some res)]\<rparr>;
                     s2 = (if same_pointer shared (eventStreamID s1) (ch_GetEventStreamId op)
                           then s1\<lparr>eventOffsetHint := EndOffset res\<rparr> else s1)
                 in sup_append D
                      (op_RecordBuilder_Build (op_WithEventsAppendedToStream
                         (Some (zero_EventsAppendedToStream\<lparr>ea_CommandId := ch_GetCommandId op\<rparr>))
                         op_NewRecordBuilder)) s2)))"

text \<open>The stream is selected when the first events are recorded.\<close>

definition select_stream ::
  "('j, 'u, 'env, 'x, 'k, 'w, 'msg, 'ev, 'arg, 'hid) integration_deps \<Rightarrow>
   ('j, 'u, 'env, 'x, 'k, 'w, 'hid) supervisor \<Rightarrow> ('j, 'u, 'env, 'x, 'k, 'w, 'hid) sup_result" where
  "select_stream D s =
     (if eventStreamID s = None
      then (case SelectEventStream D (outside s) of
              ((i, off, e), w') \<Rightarrow>
                (let s' = s\<lparr>outside := w', eventStreamID := i, eventOffsetHint := off\<rparr>
                 in case e of Some x \<Rightarrow> (Err x, s') | None \<Rightarrow> (Ok (), s')))
      else (Ok (), s))"

text \<open>The type assertion \<open>cmd.(dogma.Command)\<close>: the same value, or a panic.\<close>

definition assert_Command ::
  "('j, 'u, 'env, 'x, 'k, 'w, 'msg, 'ev, 'arg, 'hid) integration_deps \<Rightarrow> 'msg \<Rightarrow> ('x, 'msg) outcome" where
  "assert_Command D msg =
     (if is_Command D msg then Ok msg else Panic ''interface conversion: not a dogma.Command'')"

lemma assert_Command_simps [simp]: "assert_Command D msg \<noteq> Err x"
  by (simp add: assert_Command_def)

definition sup_handleCommand ::
  "('j, 'u, 'env, 'x, 'k, 'w, 'msg, 'ev, 'arg, 'hid) integration_deps \<Rightarrow> 'env option \<Rightarrow>
   ('j, 'u, 'env, 'x, 'k, 'w, 'hid) supervisor \<Rightarrow> ('j, 'u, 'env, 'x, 'k, 'w, 'hid) sup_result" where
  "sup_handleCommand D env s =
     (case set_Add D (acceptedCommands s) (env_MessageId D env) of
        (Some x, k') \<Rightarrow> (Err x, s\<lparr>acceptedCommands := k'\<rparr>)
      | (None, k') \<Rightarrow>
          (let s1 = s\<lparr>acceptedCommands := k'\<rparr>
           in case Unpack D env of
                Err x \<Rightarrow> (Err x, s1)
              | Panic t \<Rightarrow> (Panic t, s1)
              | Ok msg \<Rightarrow>
               (case assert_Command D msg of
                  Err x \<Rightarrow> (Err x, s1)
                | Panic t \<Rightarrow> (Panic t, s1)
                | Ok cmd \<Rightarrow>
                  (case HandleCommand D cmd (outside s1) of
                     ((calls, herr), w1) \<Rightarrow>
                       (case run_scope D calls
                          (\<lparr>sc_handler = HandlerIdentity s, sc_command = env, sc_events = []\<rparr>, w1) of
                          (sc, w2) \<Rightarrow>
                            (let s2 = s1\<lparr>outside := w2\<rparr>
                             in case herr of
                                  Err x \<Rightarrow> (Err x, s2)
                                | Panic t \<Rightarrow> (Panic t, s2)
                                | Ok _ \<Rightarrow>
                                    (let op = zero_CommandHandled\<lparr>ch_CommandId := env_MessageId D env,
                                           ch_Events := sc_events sc\<rparr>
                                     in case (if length (sc_events sc) \<noteq> 0 then select_stream D s2 else (Ok (), s2)) of
                                          (Err x, s3) \<Rightarrow> (Err x, s3)
                                        | (Panic t, s3) \<Rightarrow> (Panic t, s3)
                                        | (Ok _, s3) \<Rightarrow>
                                            (let op' = (if length (sc_events sc) \<noteq> 0
                                                   then op\<lparr>ch_EventStreamId := eventStreamID s3,
                                                     ch_OffsetHint := eventOffsetHint s3\<rparr> else op)
                                             in case sup_append D (op_RecordBuilder_Build
                                                     (op_WithCommandHandled (Some op') op_NewRecordBuilder)) s3 of
                                                  (Ok _, s4) \<Rightarrow> sup_appendEvents D True (Some op') s4
                                                | (Err x, s4) \<Rightarrow> (Err x, s4)
                                                | (Panic t, s4) \<Rightarrow> (Panic t, s4)))))))))"

section \<open>Recovery\<close>

fun remove_first :: "('a \<Rightarrow> bool) \<Rightarrow> 'a list \<Rightarrow> 'a list" where
  "remove_first P [] = []"
| "remove_first P (x # xs) = (if P x then xs else x # remove_first P xs)"

type_synonym ('u, 'env) pending_ops = "'env CommandAccepted option list \<times> ('u, 'env) CommandHandled option list"

definition recover_accepted ::
  "'env CommandAccepted option \<Rightarrow> ('u, 'env) pending_ops \<Rightarrow> ('u, 'env) pending_ops" where
  "recover_accepted op ah = (fst ah @ [op], snd ah)"

definition recover_handled ::
  "('j, 'u, 'env, 'x, 'k, 'w, 'msg, 'ev, 'arg, 'hid) integration_deps \<Rightarrow>
   ('u, 'env) CommandHandled option \<Rightarrow> ('u, 'env) pending_ops \<Rightarrow> ('u, 'env) pending_ops" where
  "recover_handled D op ah =
     (remove_first (\<lambda>x. uuid_Equal D (env_MessageId D (ca_GetCommand x)) (ch_GetCommandId op)) (fst ah),
      snd ah @ [op])"

definition recover_appended ::
  "('j, 'u, 'env, 'x, 'k, 'w, 'msg, 'ev, 'arg, 'hid) integration_deps \<Rightarrow>
   'u EventsAppendedToStream option \<Rightarrow> ('u, 'env) pending_ops \<Rightarrow> ('u, 'env) pending_ops" where
  "recover_appended D op ah =
     (fst ah, remove_first (\<lambda>x. uuid_Equal D (ch_GetCommandId x) (ea_GetCommandId op)) (snd ah))"

text \<open>The function that is passed to \<open>Range\<close>, over the records it is called with.\<close>

fun recover_scan ::
  "('j, 'u, 'env, 'x, 'k, 'w, 'msg, 'ev, 'arg, 'hid) integration_deps \<Rightarrow> (pos \<times> ('u, 'env) op_record) list \<Rightarrow>
   pos \<Rightarrow> ('u, 'env) pending_ops \<Rightarrow> ('x, ('u, 'env) pending_ops) outcome \<times> pos" where
  "recover_scan D [] jpos ah = (Ok ah, jpos)"
| "recover_scan D ((p, r) # rs) jpos ah =
     (case op_MustSwitch_Operation (Some r) recover_accepted (recover_handled D) (recover_appended D) ah of
        Ok ah' \<Rightarrow> recover_scan D rs (p + 1) ah'
      | Err x \<Rightarrow> (Err x, p + 1)
      | Panic t \<Rightarrow> (Panic t, p + 1))"

fun append_all ::
  "('j, 'u, 'env, 'x, 'k, 'w, 'msg, 'ev, 'arg, 'hid) integration_deps \<Rightarrow> ('u, 'env) CommandHandled option list \<Rightarrow>
   ('j, 'u, 'env, 'x, 'k, 'w, 'hid) supervisor \<Rightarrow> ('j, 'u, 'env, 'x, 'k, 'w, 'hid) sup_result" where
  "append_all D [] s = (Ok (), s)"
| "append_all D (op # ops) s =
     (case sup_appendEvents D False op s of (Ok _, s') \<Rightarrow> append_all D ops s' | r \<Rightarrow> r)"

fun handle_all ::
  "('j, 'u, 'env, 'x, 'k, 'w, 'msg, 'ev, 'arg, 'hid) integration_deps \<Rightarrow> 'env CommandAccepted option list \<Rightarrow>
   ('j, 'u, 'env, 'x, 'k, 'w, 'hid) supervisor \<Rightarrow> ('j, 'u, 'env, 'x, 'k, 'w, 'hid) sup_result" where
  "handle_all D [] s = (Ok (), s)"
| "handle_all D (op # ops) s =
     (case sup_handleCommand D (ca_GetCommand op) s of (Ok _, s') \<Rightarrow> handle_all D ops s' | r \<Rightarrow> r)"

section \<open>The machine\<close>

datatype 'env sup_state = Recover | Idle | AcceptCommand "'env option ack_request"

type_synonym ('j, 'u, 'env, 'x, 'k, 'w, 'hid) sup_step =
  "('env sup_state, 'x, ('j, 'u, 'env, 'x, 'k, 'w, 'hid) supervisor) state_result"

definition sup_recover_pending ::
  "('j, 'u, 'env, 'x, 'k, 'w, 'msg, 'ev, 'arg, 'hid) integration_deps \<Rightarrow> ('u, 'env) pending_ops \<Rightarrow>
   ('j, 'u, 'env, 'x, 'k, 'w, 'hid) supervisor \<Rightarrow> ('j, 'u, 'env, 'x, 'k, 'w, 'hid) sup_step" where
  "sup_recover_pending D ah s =
     (case append_all D (snd ah) s of
        (Err x, s1) \<Rightarrow> Done (Fail x) s1
      | (Panic t, s1) \<Rightarrow> Panics t s1
      | (Ok _, s1) \<Rightarrow>
          (case handle_all D (fst ah) s1 of
             (Err x, s2) \<Rightarrow> Done (Fail x) s2
           | (Panic t, s2) \<Rightarrow> Panics t s2
           | (Ok _, s2) \<Rightarrow>
               (case j_Truncate D (journal s2) (journalPos s2) of
                  (Some x, j') \<Rightarrow> Done (Fail x) (s2\<lparr>journal := j'\<rparr>)
                | (None, j') \<Rightarrow> Done (EnterState Idle) (s2\<lparr>journal := j'\<rparr>))))"

definition sup_recover ::
  "('j, 'u, 'env, 'x, 'k, 'w, 'msg, 'ev, 'arg, 'hid) integration_deps \<Rightarrow>
   ('j, 'u, 'env, 'x, 'k, 'w, 'hid) supervisor \<Rightarrow> ('j, 'u, 'env, 'x, 'k, 'w, 'hid) sup_step" where
  "sup_recover D s =
     (case j_Bounds D (journal s) of
        (Err x, j') \<Rightarrow> Done (Fail x) (s\<lparr>journal := j'\<rparr>)
      | (Panic t, j') \<Rightarrow> Panics t (s\<lparr>journal := j'\<rparr>)
      | (Ok (b, e), j') \<Rightarrow>
          (let s1 = s\<lparr>journal := j', journalPos := b\<rparr>
           in if e \<le> b then sup_recover_pending D ([], []) s1
              else
                (case j_Range D j' b of
                   ((rs, rerr), j2) \<Rightarrow>
                     (case recover_scan D rs b ([], []) of
                        (Panic t, p) \<Rightarrow> Panics t (s1\<lparr>journal := j2, journalPos := p\<rparr>)
                      | (Err x, p) \<Rightarrow> Done (Fail x) (s1\<lparr>journal := j2, journalPos := p\<rparr>)
                      | (Ok ah, p) \<Rightarrow>
                          (let s2 = s1\<lparr>journal := j2, journalPos := p\<rparr>
                           in case rerr of
                                Some x \<Rightarrow> Done (Fail x) s2
                              | None \<Rightarrow> sup_recover_pending D ah s2)))))"

definition sup_idle ::
  "('j, 'u, 'env, 'x, 'k, 'w, 'hid) supervisor \<Rightarrow> ('j, 'u, 'env, 'x, 'k, 'w, 'hid) sup_step" where
  "sup_idle s =
     (case sup_cases s of
        [] \<Rightarrow> Blocks s
      | SupCtxDone x # cs \<Rightarrow> Done Stop (s\<lparr>sup_cases := cs, sup_ctx := Some x\<rparr>)
      | SupShutdown # cs \<Rightarrow> Done Stop (s\<lparr>sup_cases := cs\<rparr>)
      | SupReceived req # cs \<Rightarrow> Done (With req AcceptCommand) (s\<lparr>sup_cases := cs\<rparr>))"

text \<open>Sending on the acknowledgement channel; what follows happens if the send proceeds.\<close>

definition acknowledge ::
  "'env option ack_request \<Rightarrow> ack_error option chan chan_op \<Rightarrow>
   ('j, 'u, 'env, 'x, 'k, 'w, 'hid) supervisor \<Rightarrow>
   (('j, 'u, 'env, 'x, 'k, 'w, 'hid) supervisor \<Rightarrow> ('j, 'u, 'env, 'x, 'k, 'w, 'hid) sup_step) \<Rightarrow>
   ('j, 'u, 'env, 'x, 'k, 'w, 'hid) sup_step" where
  "acknowledge req sent s next =
     (case sent of
        Proceeds c \<Rightarrow> next (s\<lparr>replied := replied s @ [req\<lparr>Acknowledgement := c\<rparr>]\<rparr>)
      | WouldBlock \<Rightarrow> Blocks s
      | ChanPanic t \<Rightarrow> Panics t s)"

definition sup_acceptCommand ::
  "('j, 'u, 'env, 'x, 'k, 'w, 'msg, 'ev, 'arg, 'hid) integration_deps \<Rightarrow> 'env option ack_request \<Rightarrow>
   ('j, 'u, 'env, 'x, 'k, 'w, 'hid) supervisor \<Rightarrow> ('j, 'u, 'env, 'x, 'k, 'w, 'hid) sup_step" where
  "sup_acceptCommand D req s =
     (let env = Value req
      in case set_Has D (acceptedCommands s) (env_MessageId D env) of
           (Err x, k') \<Rightarrow> acknowledge req (Nack req) (s\<lparr>acceptedCommands := k'\<rparr>) (Done (Fail x))
         | (Panic t, k') \<Rightarrow> Panics t (s\<lparr>acceptedCommands := k'\<rparr>)
         | (Ok alreadyAccepted, k') \<Rightarrow>
             (let s1 = s\<lparr>acceptedCommands := k'\<rparr>
              in if alreadyAccepted then acknowledge req (Ack req) s1 (Done (EnterState Idle))
                 else
                   (case sup_append D (op_RecordBuilder_Build
                        (op_WithCommandAccepted (Some \<lparr>ca_Command = env\<rparr>) op_NewRecordBuilder)) s1 of
                      (Err x, s2) \<Rightarrow> acknowledge req (Nack req) s2 (Done (Fail x))
                    | (Panic t, s2) \<Rightarrow> Panics t s2
                    | (Ok _, s2) \<Rightarrow>
                        acknowledge req (Ack req) s2 (\<lambda>s3.
                          case sup_handleCommand D env s3 of
                            (Err x, s4) \<Rightarrow> Done (Fail x) s4
                          | (Panic t, s4) \<Rightarrow> Panics t s4
                          | (Ok _, s4) \<Rightarrow> Done (EnterState Idle) s4))))"

fun sup_machine ::
  "('j, 'u, 'env, 'x, 'k, 'w, 'msg, 'ev, 'arg, 'hid) integration_deps \<Rightarrow>
   ('env sup_state, 'x, ('j, 'u, 'env, 'x, 'k, 'w, 'hid) supervisor) machine" where
  "sup_machine D Recover s = sup_recover D s"
| "sup_machine D Idle s = sup_idle s"
| "sup_machine D (AcceptCommand req) s = sup_acceptCommand D req s"

text \<open>\<open>Run\<close>: opening the journal and the set may fail (\<open>opened\<close> is the first error).\<close>

definition sup_Run ::
  "('j, 'u, 'env, 'x, 'k, 'w, 'msg, 'ev, 'arg, 'hid) integration_deps \<Rightarrow> 'x option \<Rightarrow>
   ('j, 'u, 'env, 'x, 'k, 'w, 'hid) supervisor \<Rightarrow>
   ('x, ('j, 'u, 'env, 'x, 'k, 'w, 'hid) supervisor) run_result option" where
  "sup_Run D opened s =
     (case opened of
        Some x \<Rightarrow> Some (Returned (Some x) s)
      | None \<Rightarrow> Start (sup_machine D) sup_ctx Recover None s)"

text \<open>
  \<open>Run\<close> from the stores. Opening is that of the stores (\<open>None\<close>: a nil store), by the names
  that are made of the key of the handler. With both open the run is \<open>sup_Run\<close>. Before it opens
  them \<open>Run\<close> makes its recorder, which is left out here: it panics only if the meter of the provider
  cannot make its instruments (\<open>new_Recorder\<close> of theory \<open>Telemetry\<close>), and what the recorder is told
  is in theory \<open>Integration_Telemetry\<close>.
\<close>

record ('js, 'ss, 'key, 'j, 'k, 'x) handler_stores =
  hs_AsString :: "'key \<Rightarrow> string"
  hs_OpenJournal :: "'js option \<Rightarrow> string \<Rightarrow> ('x, 'j) outcome"
  hs_OpenSet :: "'ss option \<Rightarrow> string \<Rightarrow> ('x, 'k) outcome"

definition op_Open :: "('js, 'ss, 'key, 'j, 'k, 'x) handler_stores \<Rightarrow> 'js option \<Rightarrow> 'key \<Rightarrow> ('x, 'j) outcome" where
  "op_Open H js key = hs_OpenJournal H js (journal_Name (hs_AsString H) key)"

definition OpenAcceptedCommandsSet ::
  "('js, 'ss, 'key, 'j, 'k, 'x) handler_stores \<Rightarrow> 'ss option \<Rightarrow> 'key \<Rightarrow> ('x, 'k) outcome" where
  "OpenAcceptedCommandsSet H ss key = hs_OpenSet H ss (AcceptedCommandsSet (hs_AsString H) key)"

definition sup_Run_stores ::
  "('j, 'u, 'env, 'x, 'k, 'w, 'msg, 'ev, 'arg, 'hid) integration_deps \<Rightarrow>
   ('js, 'ss, 'key, 'j, 'k, 'x) handler_stores \<Rightarrow> 'js option \<Rightarrow> 'ss option \<Rightarrow> 'key \<Rightarrow>
   ('j, 'u, 'env, 'x, 'k, 'w, 'hid) supervisor \<Rightarrow>
   ('x, ('j, 'u, 'env, 'x, 'k, 'w, 'hid) supervisor) run_result option" where
  "sup_Run_stores D H js ss key s =
     (case op_Open H js key of
        Panic t \<Rightarrow> Some (Panicked t s)
      | Err x \<Rightarrow> sup_Run D (Some x) s
      | Ok j \<Rightarrow>
          (let s1 = s\<lparr>journal := j\<rparr>
           in case OpenAcceptedCommandsSet H ss key of
                Panic t \<Rightarrow> Some (Panicked t s1)
              | Err x \<Rightarrow> sup_Run D (Some x) s1
              | Ok k \<Rightarrow> sup_Run D None (s1\<lparr>acceptedCommands := k\<rparr>)))"

text \<open>\<open>Shutdown\<close> signals a latch; from then on the case \<open>SupShutdown\<close> of \<open>idle\<close> is ready.\<close>

definition sup_Shutdown :: "latch \<Rightarrow> signal_pc \<times> latch" where
  "sup_Shutdown l = latch_Signal l"

lemma sup_Shutdown_ready:
  assumes "\<not> latched l" and "latch_sig l = None \<or> latch_sig l = Some (make_chan 0)"
  shows "fst (sup_Shutdown l) = Returned_pc" "readable (fst (latch_Signaled (snd (sup_Shutdown l))))"
  using assms by (auto simp: sup_Shutdown_def latch_Signal_def latch_signal_def latch_Signaled_def chan_close_def
    make_chan_def readable_def chan_recv_def)

end
