(* ===== verification/Integration_History.thy ===== *)
theory Integration_History
  imports Integration_Supervisor
begin

text \<open>
  What the journal of an integration handler says: the history of its commands, which of them
  are pending, and that the recovery of \<open>Integration_Supervisor\<close> computes exactly these
  from whatever truncation has left of the journal.
\<close>

section \<open>Operations in a history\<close>

fun rec_accepted :: "('u, 'env) op_record \<Rightarrow> 'env CommandAccepted list" where
  "rec_accepted r = (case op_Operation r of Some (Record_CommandAccepted (Some a)) \<Rightarrow> [a] | _ \<Rightarrow> [])"

fun rec_handled :: "('u, 'env) op_record \<Rightarrow> ('u, 'env) CommandHandled list" where
  "rec_handled r = (case op_Operation r of Some (Record_CommandHandled (Some h)) \<Rightarrow> [h] | _ \<Rightarrow> [])"

fun rec_appended :: "('u, 'env) op_record \<Rightarrow> 'u EventsAppendedToStream list" where
  "rec_appended r = (case op_Operation r of Some (Record_EventsAppendedToStream (Some e)) \<Rightarrow> [e] | _ \<Rightarrow> [])"

definition accepted_ops :: "('u, 'env) op_record list \<Rightarrow> 'env CommandAccepted list" where
  "accepted_ops rs = concat (map rec_accepted rs)"

definition handled_ops :: "('u, 'env) op_record list \<Rightarrow> ('u, 'env) CommandHandled list" where
  "handled_ops rs = concat (map rec_handled rs)"

definition appended_ops :: "('u, 'env) op_record list \<Rightarrow> 'u EventsAppendedToStream list" where
  "appended_ops rs = concat (map rec_appended rs)"

lemma ops_simps [simp]:
  "accepted_ops [] = []" "accepted_ops (rs @ rs') = accepted_ops rs @ accepted_ops rs'"
  "handled_ops [] = []" "handled_ops (rs @ rs') = handled_ops rs @ handled_ops rs'"
  "appended_ops [] = []" "appended_ops (rs @ rs') = appended_ops rs @ appended_ops rs'"
  "accepted_ops (r # rs) = rec_accepted r @ accepted_ops rs" "handled_ops (r # rs) = rec_handled r @ handled_ops rs"
  "appended_ops (r # rs) = rec_appended r @ appended_ops rs"
  by (simp_all add: accepted_ops_def handled_ops_def appended_ops_def)

definition accepted_id :: "('env option \<Rightarrow> 'u option) \<Rightarrow> 'env CommandAccepted \<Rightarrow> 'u option" where
  "accepted_id mid a = mid (ca_Command a)"

abbreviation accepted_ids :: "('env option \<Rightarrow> 'u option) \<Rightarrow> ('u, 'env) op_record list \<Rightarrow> 'u option list" where
  "accepted_ids mid rs \<equiv> map (accepted_id mid) (accepted_ops rs)"

abbreviation handled_ids :: "('u, 'env) op_record list \<Rightarrow> 'u option list" where
  "handled_ids rs \<equiv> map ch_CommandId (handled_ops rs)"

abbreviation appended_ids :: "('u, 'env) op_record list \<Rightarrow> 'u option list" where
  "appended_ids rs \<equiv> map ea_CommandId (appended_ops rs)"

section \<open>Well-formed histories\<close>

text \<open>
  \<open>rec_ok mid rs r\<close>: the record \<open>r\<close> may follow the history \<open>rs\<close>. A command is
  accepted once, handled once after it was accepted, and its events are appended once after it
  was handled.
\<close>

definition rec_ok :: "('env option \<Rightarrow> 'u option) \<Rightarrow> ('u, 'env) op_record list \<Rightarrow> ('u, 'env) op_record \<Rightarrow> bool" where
  "rec_ok mid rs r \<longleftrightarrow>
     (case op_Operation r of
        Some (Record_CommandAccepted (Some a)) \<Rightarrow> accepted_id mid a \<notin> set (accepted_ids mid rs)
      | Some (Record_CommandHandled (Some h)) \<Rightarrow>
          ch_CommandId h \<in> set (accepted_ids mid rs) \<and> ch_CommandId h \<notin> set (handled_ids rs)
      | Some (Record_EventsAppendedToStream (Some e)) \<Rightarrow>
          (\<exists>h \<in> set (handled_ops rs). ch_CommandId h = ea_CommandId e \<and> ch_Events h \<noteq> []) \<and>
          ea_CommandId e \<notin> set (appended_ids rs)
      | _ \<Rightarrow> False)"

definition hist_wf :: "('env option \<Rightarrow> 'u option) \<Rightarrow> ('u, 'env) op_record list \<Rightarrow> bool" where
  "hist_wf mid rs \<longleftrightarrow> (\<forall>k < length rs. rec_ok mid (take k rs) (rs ! k))"

lemma hist_wf_Nil [simp]: "hist_wf mid []"
  by (simp add: hist_wf_def)

lemma hist_wf_snoc: "hist_wf mid (rs @ [r]) \<longleftrightarrow> hist_wf mid rs \<and> rec_ok mid rs r"
  unfolding hist_wf_def by (auto simp: nth_append less_Suc_eq)

text \<open>The three kinds of record that may follow a history.\<close>

lemma rec_ok_cases [consumes 1, case_names accepted handled appended]:
  assumes "rec_ok mid rs r"
  obtains a where "op_Operation r = Some (Record_CommandAccepted (Some a))"
      "accepted_id mid a \<notin> set (accepted_ids mid rs)"
  | h where "op_Operation r = Some (Record_CommandHandled (Some h))"
      "ch_CommandId h \<in> set (accepted_ids mid rs)" "ch_CommandId h \<notin> set (handled_ids rs)"
  | e h where "op_Operation r = Some (Record_EventsAppendedToStream (Some e))"
      "h \<in> set (handled_ops rs)" "ch_CommandId h = ea_CommandId e" "ch_Events h \<noteq> []"
      "ea_CommandId e \<notin> set (appended_ids rs)"
  using assms unfolding rec_ok_def by (auto split: option.splits operation.splits)

lemma hist_wf_facts:
  assumes "hist_wf mid rs"
  shows "distinct (accepted_ids mid rs) \<and> distinct (handled_ids rs) \<and> distinct (appended_ids rs) \<and>
    set (handled_ids rs) \<subseteq> set (accepted_ids mid rs) \<and>
    (\<forall>i \<in> set (appended_ids rs). \<exists>h \<in> set (handled_ops rs). ch_CommandId h = i \<and> ch_Events h \<noteq> [])"
  using assms
proof (induction rs rule: rev_induct)
  case Nil
  then show ?case by simp
next
  case (snoc r rs)
  then have ok: "rec_ok mid rs r" by (simp add: hist_wf_snoc)
  from snoc have IH: "distinct (accepted_ids mid rs)" "distinct (handled_ids rs)" "distinct (appended_ids rs)"
    "set (handled_ids rs) \<subseteq> set (accepted_ids mid rs)"
    "\<forall>i \<in> set (appended_ids rs). \<exists>h \<in> set (handled_ops rs). ch_CommandId h = i \<and> ch_Events h \<noteq> []"
    by (simp_all add: hist_wf_snoc)
  from ok show ?case
  proof (cases rule: rec_ok_cases)
    case (accepted a)
    with IH show ?thesis by auto
  next
    case (handled h)
    with IH show ?thesis by auto
  next
    case (appended e h)
    with IH show ?thesis by auto
  qed
qed

section \<open>What is pending\<close>

definition pending_accepted ::
  "('env option \<Rightarrow> 'u option) \<Rightarrow> ('u, 'env) op_record list \<Rightarrow> 'env CommandAccepted list" where
  "pending_accepted mid rs = filter (\<lambda>a. accepted_id mid a \<notin> set (handled_ids rs)) (accepted_ops rs)"

definition pending_handled :: "('u, 'env) op_record list \<Rightarrow> ('u, 'env) CommandHandled list" where
  "pending_handled rs =
     filter (\<lambda>h. ch_Events h \<noteq> [] \<and> ch_CommandId h \<notin> set (appended_ids rs)) (handled_ops rs)"

definition complete :: "('env option \<Rightarrow> 'u option) \<Rightarrow> ('u, 'env) op_record list \<Rightarrow> bool" where
  "complete mid rs \<longleftrightarrow> pending_accepted mid rs = [] \<and> pending_handled rs = []"

lemma complete_accepted: "complete mid rs \<Longrightarrow> set (accepted_ids mid rs) \<subseteq> set (handled_ids rs)"
  by (auto simp: complete_def pending_accepted_def filter_empty_conv)

text \<open>How each kind of record changes it.\<close>

lemma pending_accepted_snoc:
  assumes "hist_wf mid (rs @ [r])"
  shows "op_Operation r = Some (Record_CommandAccepted (Some a)) \<Longrightarrow>
      pending_accepted mid (rs @ [r]) = pending_accepted mid rs @ [a] \<and> pending_handled (rs @ [r]) = pending_handled rs"
    and "op_Operation r = Some (Record_CommandHandled (Some h)) \<Longrightarrow>
      pending_accepted mid (rs @ [r]) = filter (\<lambda>a. accepted_id mid a \<noteq> ch_CommandId h) (pending_accepted mid rs) \<and>
      pending_handled (rs @ [r]) = pending_handled rs @ (if ch_Events h = [] then [] else [h])"
    and "op_Operation r = Some (Record_EventsAppendedToStream (Some e)) \<Longrightarrow>
      pending_accepted mid (rs @ [r]) = pending_accepted mid rs \<and>
      pending_handled (rs @ [r]) = filter (\<lambda>h. ch_CommandId h \<noteq> ea_CommandId e) (pending_handled rs)"
proof -
  have wf: "hist_wf mid rs" and ok: "rec_ok mid rs r" using assms by (simp_all add: hist_wf_snoc)
  have sub: "set (handled_ids rs) \<subseteq> set (accepted_ids mid rs)" using hist_wf_facts [OF wf] by blast
  have app: "set (appended_ids rs) \<subseteq> set (handled_ids rs)" using hist_wf_facts [OF wf] by force
  show "pending_accepted mid (rs @ [r]) = pending_accepted mid rs @ [a] \<and> pending_handled (rs @ [r]) = pending_handled rs"
    if "op_Operation r = Some (Record_CommandAccepted (Some a))"
  proof -
    have "accepted_id mid a \<notin> set (handled_ids rs)" using ok that sub by (auto simp: rec_ok_def)
    with that show ?thesis by (simp add: pending_accepted_def pending_handled_def)
  qed
  show "pending_accepted mid (rs @ [r]) = filter (\<lambda>a. accepted_id mid a \<noteq> ch_CommandId h) (pending_accepted mid rs) \<and>
      pending_handled (rs @ [r]) = pending_handled rs @ (if ch_Events h = [] then [] else [h])"
    if "op_Operation r = Some (Record_CommandHandled (Some h))"
  proof -
    have "ch_CommandId h \<notin> set (appended_ids rs)" using ok that app by (auto simp: rec_ok_def)
    with that show ?thesis
      by (auto simp: pending_accepted_def pending_handled_def intro: filter_cong)
  qed
  show "pending_accepted mid (rs @ [r]) = pending_accepted mid rs \<and>
      pending_handled (rs @ [r]) = filter (\<lambda>h. ch_CommandId h \<noteq> ea_CommandId e) (pending_handled rs)"
    if "op_Operation r = Some (Record_EventsAppendedToStream (Some e))"
    using that by (auto simp: pending_accepted_def pending_handled_def intro: filter_cong)
qed

section \<open>Recovery computes the pending operations\<close>

lemma remove_first_filter:
  "distinct (map f xs) \<Longrightarrow> remove_first (\<lambda>x. f x = i) xs = filter (\<lambda>x. f x \<noteq> i) xs"
proof (induction xs)
  case (Cons x xs)
  have "filter (\<lambda>x. f x \<noteq> i) xs = xs" if "f x = i"
    using Cons.prems that by (intro filter_True ballI) (metis distinct.simps(2) image_eqI list.map(2) list.set_map)
  with Cons show ?case by auto
qed simp

lemma remove_first_map: "remove_first P (map f xs) = map f (remove_first (\<lambda>x. P (f x)) xs)"
  by (induction xs) auto

lemma remove_first_cong: "(\<And>x. P x = Q x) \<Longrightarrow> remove_first P xs = remove_first Q xs"
  by (induction xs) auto

definition uuids_ok :: "('j, 'u, 'env, 'x, 'k, 'w, 'msg, 'ev, 'arg, 'hid) integration_deps \<Rightarrow> bool" where
  "uuids_ok D \<longleftrightarrow> (\<forall>a b. uuid_Equal D a b \<longleftrightarrow> a = b)"

definition recover_of ::
  "('env option \<Rightarrow> 'u option) \<Rightarrow> nat \<Rightarrow> ('u, 'env) op_record list \<Rightarrow> ('u, 'env) pending_ops" where
  "recover_of mid b rs =
     (map Some (filter (\<lambda>a. accepted_id mid a \<notin> set (handled_ids rs)) (accepted_ops (drop b rs))),
      map Some (filter (\<lambda>h. ch_CommandId h \<notin> set (appended_ids rs)) (handled_ops (drop b rs))))"

lemma distinct_map_filter_suffix:
  assumes "distinct (map f (g rs))" "\<And>xs ys. g (xs @ ys) = g xs @ g ys"
  shows "distinct (map f (filter P (g (drop b rs))))"
proof -
  have "g rs = g (take b rs) @ g (drop b rs)" using assms(2) [of "take b rs" "drop b rs"] by simp
  then show ?thesis using assms(1) by (simp add: distinct_map_filter)
qed

lemma recover_step:
  assumes wf: "hist_wf (env_MessageId D) (rs @ [r])" and ids: "uuids_ok D" and b: "b \<le> length rs"
  shows "op_MustSwitch_Operation (Some r) recover_accepted (recover_handled D) (recover_appended D)
      (recover_of (env_MessageId D) b rs) = Ok (recover_of (env_MessageId D) b (rs @ [r]))"
proof -
  let ?mid = "env_MessageId D"
  have wf': "hist_wf ?mid rs" and ok: "rec_ok ?mid rs r" using wf by (simp_all add: hist_wf_snoc)
  note facts = hist_wf_facts [OF wf']
  have sub: "set (handled_ids rs) \<subseteq> set (accepted_ids ?mid rs)" using facts by blast
  have app: "set (appended_ids rs) \<subseteq> set (handled_ids rs)" using facts by force
  have dA: "distinct (map (accepted_id ?mid) (filter P (accepted_ops (drop b rs))))" for P
    by (rule distinct_map_filter_suffix) (use facts in auto)
  have dH: "distinct (map ch_CommandId (filter P (handled_ops (drop b rs))))" for P
    by (rule distinct_map_filter_suffix) (use facts in auto)
  from ok show ?thesis
  proof (cases rule: rec_ok_cases)
    case (accepted a)
    then have "accepted_id ?mid a \<notin> set (handled_ids rs)" using sub by blast
    with accepted show ?thesis
      by (simp add: op_MustSwitch_Operation_def recover_accepted_def recover_of_def b)
  next
    case (handled h)
    then have new: "ch_CommandId h \<notin> set (appended_ids rs)" using app by blast
    have "remove_first (\<lambda>x. uuid_Equal D (?mid (ca_GetCommand x)) (ch_GetCommandId (Some h)))
        (map Some (filter (\<lambda>a. accepted_id ?mid a \<notin> set (handled_ids rs)) (accepted_ops (drop b rs)))) =
      map Some (filter (\<lambda>x. accepted_id ?mid x \<noteq> ch_CommandId h)
        (filter (\<lambda>a. accepted_id ?mid a \<notin> set (handled_ids rs)) (accepted_ops (drop b rs))))"
      using ids by (simp add: remove_first_map uuids_ok_def accepted_id_def [symmetric] remove_first_filter [OF dA])
    with handled new show ?thesis
      by (auto simp: op_MustSwitch_Operation_def recover_handled_def recover_of_def b intro: filter_cong)
  next
    case (appended e h)
    have "remove_first (\<lambda>x. uuid_Equal D (ch_GetCommandId x) (ea_GetCommandId (Some e)))
        (map Some (filter (\<lambda>h. ch_CommandId h \<notin> set (appended_ids rs)) (handled_ops (drop b rs)))) =
      map Some (filter (\<lambda>x. ch_CommandId x \<noteq> ea_CommandId e)
        (filter (\<lambda>h. ch_CommandId h \<notin> set (appended_ids rs)) (handled_ops (drop b rs))))"
      using ids by (simp add: remove_first_map uuids_ok_def remove_first_filter [OF dH])
    with appended show ?thesis
      by (auto simp: op_MustSwitch_Operation_def recover_appended_def recover_of_def b intro: filter_cong)
  qed
qed

lemma recover_scan_append:
  "recover_scan D (xs @ ys) jp ah =
     (case recover_scan D xs jp ah of (Ok ah', p) \<Rightarrow> recover_scan D ys p ah' | r \<Rightarrow> r)"
proof (induction D xs jp ah rule: recover_scan.induct)
  case (2 D p r rs jpos ah)
  then show ?case by (simp split: outcome.splits)
qed simp

lemma recover_scan_upto:
  assumes wf: "hist_wf (env_MessageId D) rs" and ids: "uuids_ok D" and "b \<le> m" "m \<le> length rs"
  shows "recover_scan D (map (\<lambda>i. (of_nat i, rs ! i)) [b..<m]) jp ([], []) =
    (Ok (recover_of (env_MessageId D) b (take m rs)), if m = b then jp else of_nat m)"
  using assms(3,4)
proof (induction m rule: dec_induct)
  case base
  then show ?case by (simp add: recover_of_def)
next
  case (step m)
  have t: "take (Suc m) rs = take m rs @ [rs ! m]" using step by (simp add: take_Suc_conv_app_nth)
  have wf': "hist_wf (env_MessageId D) (take m rs @ [rs ! m])"
    unfolding t [symmetric] using wf by (simp add: hist_wf_def min_def)
  have "b \<le> length (take m rs)" using step by simp
  note st = recover_step [OF wf' ids this]
  from step show ?case by (simp add: recover_scan_append t st add.commute)
qed

lemma recover_scan_all:
  assumes "hist_wf (env_MessageId D) rs" "uuids_ok D" "b < length rs"
  shows "recover_scan D (positioned b rs) jp ([], []) =
    (Ok (recover_of (env_MessageId D) b rs), of_nat (length rs))"
  using recover_scan_upto [OF assms(1,2), of b "length rs" jp] assms(3) by (simp add: positioned_def)

lemma recover_scan_some:
  assumes "hist_wf (env_MessageId D) rs" "uuids_ok D" "b < length rs"
  shows "\<exists>ah p. recover_scan D (take n (positioned b rs)) jp ([], []) = (Ok ah, p)"
proof -
  have "take n (positioned b rs) = map (\<lambda>i. (of_nat i, rs ! i)) [b..<min (b + n) (length rs)]"
    by (simp add: positioned_def take_map min_def)
  then show ?thesis
    using recover_scan_upto [OF assms(1,2), of b "min (b + n) (length rs)" jp] assms(3) by simp
qed

text \<open>
  Truncation only ever removes a part of a complete history, and then recovery finds exactly
  what is pending.
\<close>

definition truncated_ok ::
  "('env option \<Rightarrow> 'u option) \<Rightarrow> nat \<Rightarrow> ('u, 'env) op_record list \<Rightarrow> bool" where
  "truncated_ok mid b rs \<longleftrightarrow> (\<exists>n. b \<le> n \<and> n \<le> length rs \<and> complete mid (take n rs))"

lemma complete_prefix_pending:
  assumes wf: "hist_wf mid rs" and c: "complete mid (take n rs)" and b: "b \<le> n"
  shows "filter (\<lambda>a. accepted_id mid a \<notin> set (handled_ids rs)) (accepted_ops (drop b rs)) = pending_accepted mid rs"
    and "filter (\<lambda>h. ch_Events h \<noteq> [] \<and> ch_CommandId h \<notin> set (appended_ids rs)) (handled_ops (drop b rs)) =
      pending_handled rs"
proof -
  have split: "rs = take n rs @ drop n rs" by simp
  have parts: "filter P (accepted_ops rs) = filter P (accepted_ops (take b rs)) @ filter P (accepted_ops (drop b rs))"
    "filter Q (handled_ops rs) = filter Q (handled_ops (take b rs)) @ filter Q (handled_ops (drop b rs))" for P Q
    by (simp_all flip: filter_append ops_simps)
  have sub: "set (accepted_ops (take b rs)) \<subseteq> set (accepted_ops (take n rs))"
    "set (handled_ops (take b rs)) \<subseteq> set (handled_ops (take n rs))"
    "set (handled_ids (take n rs)) \<subseteq> set (handled_ids rs)" "set (appended_ids (take n rs)) \<subseteq> set (appended_ids rs)"
  proof -
    have "take n rs = take b rs @ drop b (take n rs)" using b by (metis append_take_drop_id min.absorb1 take_take)
    then show "set (accepted_ops (take b rs)) \<subseteq> set (accepted_ops (take n rs))"
      "set (handled_ops (take b rs)) \<subseteq> set (handled_ops (take n rs))"
      by (metis ops_simps(2) ops_simps(4) set_append Un_upper1)+
    show "set (handled_ids (take n rs)) \<subseteq> set (handled_ids rs)" "set (appended_ids (take n rs)) \<subseteq> set (appended_ids rs)"
      using split by (metis map_append ops_simps(4) ops_simps(6) set_append Un_upper1)+
  qed
  have "filter (\<lambda>a. accepted_id mid a \<notin> set (handled_ids rs)) (accepted_ops (take b rs)) = []"
    using c sub(1,3) unfolding complete_def pending_accepted_def filter_empty_conv by blast
  then show "filter (\<lambda>a. accepted_id mid a \<notin> set (handled_ids rs)) (accepted_ops (drop b rs)) = pending_accepted mid rs"
    using parts(1) by (simp add: pending_accepted_def)
  have "filter (\<lambda>h. ch_Events h \<noteq> [] \<and> ch_CommandId h \<notin> set (appended_ids rs)) (handled_ops (take b rs)) = []"
    using c sub(2,4) unfolding complete_def pending_handled_def filter_empty_conv by blast
  then show "filter (\<lambda>h. ch_Events h \<noteq> [] \<and> ch_CommandId h \<notin> set (appended_ids rs)) (handled_ops (drop b rs)) =
      pending_handled rs"
    using parts(2) by (simp add: pending_handled_def)
qed

lemma recover_of_pending:
  assumes "hist_wf mid rs" and "truncated_ok mid b rs"
  shows "fst (recover_of mid b rs) = map Some (pending_accepted mid rs)"
    and "filter (\<lambda>op. ch_GetEvents op \<noteq> []) (snd (recover_of mid b rs)) = map Some (pending_handled rs)"
proof -
  obtain n where n: "b \<le> n" "complete mid (take n rs)" using assms(2) by (auto simp: truncated_ok_def)
  note p = complete_prefix_pending [OF assms(1) n(2,1)]
  show "fst (recover_of mid b rs) = map Some (pending_accepted mid rs)"
    using p(1) by (simp add: recover_of_def)
  show "filter (\<lambda>op. ch_GetEvents op \<noteq> []) (snd (recover_of mid b rs)) = map Some (pending_handled rs)"
    using p(2) by (simp add: recover_of_def filter_map o_def conj_commute)
qed

lemma truncated_ok_snoc: "truncated_ok mid b rs \<Longrightarrow> truncated_ok mid b (rs @ [r])"
proof -
  assume "truncated_ok mid b rs"
  then obtain n where "b \<le> n" "n \<le> length rs" "complete mid (take n rs)" by (auto simp: truncated_ok_def)
  then show ?thesis unfolding truncated_ok_def by (intro exI [of _ n]) simp
qed

end
