(* ===== verification/Integration_Correct.thy ===== *)
theory Integration_Correct
  imports Integration_History
begin

text \<open>
  The correctness of the integration supervisor: the invariant of its journal and its set, kept
  by every operation on every branch, what each operation does to the pending work, and the
  contract of the whole machine across failures and restarts.
\<close>

section \<open>Laws of the dependencies\<close>

definition law_Has ::
  "('j, 'u, 'env, 'x, 'k, 'w, 'msg, 'ev, 'arg, 'hid) integration_deps \<Rightarrow> ('k \<Rightarrow> 'u option set) \<Rightarrow> bool" where
  "law_Has D members \<longleftrightarrow> (\<forall>k u res k'. set_Has D k u = (res, k') \<longrightarrow> members k' = members k \<and>
     (case res of Ok b \<Rightarrow> b = (u \<in> members k) | Err _ \<Rightarrow> True | Panic _ \<Rightarrow> False))"

definition law_Add ::
  "('j, 'u, 'env, 'x, 'k, 'w, 'msg, 'ev, 'arg, 'hid) integration_deps \<Rightarrow> ('k \<Rightarrow> 'u option set) \<Rightarrow> bool" where
  "law_Add D members \<longleftrightarrow> (\<forall>k u e k'. set_Add D k u = (e, k') \<longrightarrow>
     (members k' = members k \<or> members k' = insert u (members k)) \<and>
     (e = None \<longrightarrow> members k' = insert u (members k)))"

definition integration_laws ::
  "('j, 'u, 'env, 'x, 'k, 'w, 'msg, 'ev, 'arg, 'hid) integration_deps \<Rightarrow> ('j \<Rightarrow> nat) \<Rightarrow>
   ('j \<Rightarrow> ('u, 'env) op_record list) \<Rightarrow> ('k \<Rightarrow> 'u option set) \<Rightarrow> bool" where
  "integration_laws D base hist members \<longleftrightarrow>
     journal_laws D base hist \<and> uuids_ok D \<and> law_Has D members \<and> law_Add D members"

lemma set_Add_cases:
  assumes "integration_laws D base hist members" "set_Add D k u = (e, k')"
  shows "members k' = members k \<or> members k' = insert u (members k)"
    and "e = None \<Longrightarrow> members k' = insert u (members k)"
  using assms unfolding integration_laws_def law_Add_def by blast+

lemma set_Has_cases:
  assumes "integration_laws D base hist members" "set_Has D k u = (res, k')"
  shows "members k' = members k" and "res = Ok b \<Longrightarrow> b = (u \<in> members k)" and "res \<noteq> Panic t"
proof -
  have l: "members k' = members k \<and>
     (case res of Ok b \<Rightarrow> b = (u \<in> members k) | Err _ \<Rightarrow> True | Panic _ \<Rightarrow> False)"
    using assms unfolding integration_laws_def law_Has_def by blast
  then show "members k' = members k" "res = Ok b \<Longrightarrow> b = (u \<in> members k)" "res \<noteq> Panic t" by auto
qed

text \<open>
  What can panic while the command of an envelope is handled: unpacking it, the assertion that it
  is a command, and the handler. The calls of the stores and of the event recorder do not.
\<close>

definition handler_panics ::
  "('j, 'u, 'env, 'x, 'k, 'w, 'msg, 'ev, 'arg, 'hid) integration_deps \<Rightarrow> 'env option \<Rightarrow> string \<Rightarrow> bool" where
  "handler_panics D env t \<longleftrightarrow> Unpack D env = Panic t \<or>
     (\<exists>msg. Unpack D env = Ok msg \<and>
        (assert_Command D msg = Panic t \<or> is_Command D msg \<and> (\<exists>w calls w'. HandleCommand D msg w = ((calls, Panic t), w'))))"

section \<open>What an operation leaves alone\<close>

definition quiet ::
  "('j, 'u, 'env, 'x, 'k, 'w, 'hid) supervisor \<Rightarrow> ('j, 'u, 'env, 'x, 'k, 'w, 'hid) supervisor \<Rightarrow> bool" where
  "quiet s s' \<longleftrightarrow> sup_cases s' = sup_cases s \<and> replied s' = replied s \<and> sup_ctx s' = sup_ctx s"

lemma quiet_trans: "quiet s s' \<Longrightarrow> quiet s' s'' \<Longrightarrow> quiet s s''"
  by (simp add: quiet_def)

lemma quiet_append: "sup_append D r s = (res, s') \<Longrightarrow> quiet s s'"
  by (auto simp: sup_append_def quiet_def split: prod.splits option.splits)

lemma quiet_appendEvents: "sup_appendEvents D sh op s = (res, s') \<Longrightarrow> quiet s s'"
  by (auto simp: sup_appendEvents_def Let_def quiet_def split: prod.splits option.splits if_splits
      dest!: quiet_append)

lemma quiet_select: "select_stream D s = (res, s') \<Longrightarrow> quiet s s'"
  by (auto simp: select_stream_def Let_def quiet_def split: prod.splits option.splits if_splits)

lemma quiet_handleCommand: "sup_handleCommand D env s = (res, s') \<Longrightarrow> quiet s s'"
  by (auto simp: sup_handleCommand_def Let_def quiet_def
      split: prod.splits option.splits if_splits outcome.splits
      dest!: quiet_append quiet_select quiet_appendEvents)

lemma quiet_append_all: "append_all D ops s = (res, s') \<Longrightarrow> quiet s s'"
proof (induction D ops s rule: append_all.induct)
  case (2 D op ops s)
  then show ?case
    by (auto split: prod.splits outcome.splits dest!: quiet_appendEvents intro: quiet_trans)
qed (simp add: quiet_def)

lemma quiet_handle_all: "handle_all D ops s = (res, s') \<Longrightarrow> quiet s s'"
proof (induction D ops s rule: handle_all.induct)
  case (2 D op ops s)
  then show ?case
    by (auto split: prod.splits outcome.splits dest!: quiet_handleCommand intro: quiet_trans)
qed (simp add: quiet_def)

section \<open>The durable invariant\<close>

text \<open>
  Durable, beside the journal and the set, is what has been made of the event recorder: the
  requests are those of the history, and what the journal says was appended has been confirmed.
\<close>

definition confirmed ::
  "('u, 'env) op_record list \<Rightarrow> (('u option, 'env) AppendRequest \<times> AppendResponse option) list \<Rightarrow> 'u option \<Rightarrow> bool" where
  "confirmed rs log i \<longleftrightarrow> (\<exists>op \<in> set (handled_ops rs). ch_CommandId op = i \<and>
     (\<exists>v. (append_request (Some op), Some v) \<in> set log))"

lemma confirmed_mono: "confirmed rs log i \<Longrightarrow> confirmed (rs @ rs') (log @ log') i"
  by (auto simp: confirmed_def)

lemma confirmed_snoc: "confirmed rs log i \<Longrightarrow> confirmed (rs @ rs') log i"
  by (auto simp: confirmed_def)

lemma confirmed_log: "confirmed rs log i \<Longrightarrow> confirmed rs (log @ log') i"
  by (auto simp: confirmed_def)

definition sup_dur ::
  "('j, 'u, 'env, 'x, 'k, 'w, 'msg, 'ev, 'arg, 'hid) integration_deps \<Rightarrow> ('j \<Rightarrow> nat) \<Rightarrow>
   ('j \<Rightarrow> ('u, 'env) op_record list) \<Rightarrow> ('k \<Rightarrow> 'u option set) \<Rightarrow>
   ('j, 'u, 'env, 'x, 'k, 'w, 'hid) supervisor \<Rightarrow> bool" where
  "sup_dur D base hist members s \<longleftrightarrow>
     hist_wf (env_MessageId D) (hist (journal s)) \<and>
     truncated_ok (env_MessageId D) (base (journal s)) (hist (journal s)) \<and>
     set (handled_ids (hist (journal s))) \<subseteq> members (acceptedCommands s) \<and>
     members (acceptedCommands s) \<subseteq> set (accepted_ids (env_MessageId D) (hist (journal s))) \<and>
     (\<forall>(req, v) \<in> set (appends s). \<exists>op \<in> set (handled_ops (hist (journal s))). req = append_request (Some op)) \<and>
     (\<forall>i \<in> set (appended_ids (hist (journal s))). confirmed (hist (journal s)) (appends s) i)"

definition extends ::
  "('j \<Rightarrow> ('u, 'env) op_record list) \<Rightarrow> ('u, 'env) op_record list \<Rightarrow>
   ('j, 'u, 'env, 'x, 'k, 'w, 'hid) supervisor \<Rightarrow> bool" where
  "extends hist rs s \<longleftrightarrow> (\<exists>rs'. hist (journal s) = rs @ rs')"

lemma extends_refl [simp]: "extends hist (hist (journal s)) s"
  by (simp add: extends_def)

lemma extends_trans: "extends hist rs s \<Longrightarrow> extends hist (hist (journal s)) s' \<Longrightarrow> extends hist rs s'"
  by (auto simp: extends_def)

lemma extends_eq: "hist (journal s') = hist (journal s) \<Longrightarrow> extends hist rs s' = extends hist rs s"
  by (simp add: extends_def)

definition at_end ::
  "('j \<Rightarrow> ('u, 'env) op_record list) \<Rightarrow> ('j, 'u, 'env, 'x, 'k, 'w, 'hid) supervisor \<Rightarrow> bool" where
  "at_end hist s \<longleftrightarrow> unat (journalPos s) = length (hist (journal s))"

lemma sup_dur_snoc:
  assumes "sup_dur D base hist members s" and "hist j' = hist (journal s) @ [r]" "base j' = base (journal s)"
    and "rec_ok (env_MessageId D) (hist (journal s)) r"
    and "set (map ch_CommandId (rec_handled r)) \<subseteq> members (acceptedCommands s)"
    and "\<forall>i \<in> set (map ea_CommandId (rec_appended r)). confirmed (hist (journal s)) (appends s) i"
  shows "sup_dur D base hist members (s\<lparr>journal := j'\<rparr>)"
    and "sup_dur D base hist members (s\<lparr>journal := j', journalPos := p\<rparr>)"
  using assms truncated_ok_snoc unfolding sup_dur_def by (auto simp: hist_wf_snoc intro: confirmed_snoc)

lemma sup_append_result:
  assumes laws: "integration_laws D base hist members" and dur: "sup_dur D base hist members s"
    and e: "at_end hist s" and ok: "rec_ok (env_MessageId D) (hist (journal s)) r"
    and mem: "set (map ch_CommandId (rec_handled r)) \<subseteq> members (acceptedCommands s)"
    and conf: "\<forall>i \<in> set (map ea_CommandId (rec_appended r)). confirmed (hist (journal s)) (appends s) i"
    and run: "sup_append D r s = (res, s')"
  shows "sup_dur D base hist members s' \<and> acceptedCommands s' = acceptedCommands s \<and>
    extends hist (hist (journal s)) s' \<and>
    (case res of Ok _ \<Rightarrow> hist (journal s') = hist (journal s) @ [r] \<and> at_end hist s'
     | Err _ \<Rightarrow> True | Panic _ \<Rightarrow> False)"
proof -
  have J: "journal_laws D base hist" using laws by (simp add: integration_laws_def)
  obtain e1 j' where call: "j_Append D (journal s) (journalPos s) r = (e1, j')" by fastforce
  have pos: "unat (journalPos s) \<le> length (hist (journal s))" using e by (simp add: at_end_def)
  note a = journal_Append [OF J call pos]
  note dur' = sup_dur_snoc [OF dur _ a(1) ok mem conf]
  have same: "sup_dur D base hist members (s\<lparr>journal := j'\<rparr>)" if "hist j' = hist (journal s)"
    using dur that a(1) by (simp add: sup_dur_def)
  show ?thesis
  proof (cases e1)
    case (Some x)
    then have "res = Err x" "s' = s\<lparr>journal := j'\<rparr>" using run call by (simp_all add: sup_append_def)
    moreover have "hist j' = hist (journal s) \<or> hist j' = hist (journal s) @ [r]" using a(3) by blast
    ultimately show ?thesis using same dur'(1) by (auto simp: extends_def)
  next
    case None
    then have eq: "res = Ok ()" "s' = s\<lparr>journal := j', journalPos := journalPos s + 1\<rparr>"
      using run call by (simp_all add: sup_append_def)
    have h: "hist j' = hist (journal s) @ [r]" using a(2) None by blast
    have "length (hist j') < 2 ^ 64" by (rule journal_size(2) [OF J])
    then have "unat (journalPos s + 1) = length (hist j')"
      using unat_Suc_u64 [of "journalPos s"] e h by (simp add: at_end_def)
    then show ?thesis using dur'(2) [OF h] h eq by (simp add: at_end_def extends_def)
  qed
qed

section \<open>Appending the events of a handled command\<close>

definition events_record :: "'u option \<Rightarrow> ('u, 'env) op_record" where
  "events_record i = op_RecordBuilder_Build (op_WithEventsAppendedToStream
     (Some (zero_EventsAppendedToStream\<lparr>ea_CommandId := i\<rparr>)) op_NewRecordBuilder)"

lemma events_record_simps [simp]:
  "op_Operation (events_record i) =
     Some (Record_EventsAppendedToStream (Some (zero_EventsAppendedToStream\<lparr>ea_CommandId := i\<rparr>)))"
  by (simp add: events_record_def op_message_defs)

lemma zero_EventsAppendedToStream_id [simp]: "ea_CommandId (zero_EventsAppendedToStream\<lparr>ea_CommandId := i\<rparr>) = i"
  by simp

lemma sup_appendEvents_result:
  assumes laws: "integration_laws D base hist members" and dur: "sup_dur D base hist members s"
    and e: "at_end hist s" and op: "op \<in> set (handled_ops (hist (journal s)))"
    and new: "ch_Events op \<noteq> [] \<Longrightarrow> ch_CommandId op \<notin> set (appended_ids (hist (journal s)))"
    and run: "sup_appendEvents D sh (Some op) s = (res, s')"
  shows "sup_dur D base hist members s' \<and> acceptedCommands s' = acceptedCommands s \<and>
    extends hist (hist (journal s)) s' \<and>
    (case res of
       Ok _ \<Rightarrow> at_end hist s' \<and>
         hist (journal s') = hist (journal s) @ (if ch_Events op = [] then [] else [events_record (ch_CommandId op)])
     | Err _ \<Rightarrow> True | Panic _ \<Rightarrow> False)"
proof (cases "ch_Events op = []")
  case True
  with run dur e show ?thesis by (auto simp: sup_appendEvents_def)
next
  case False
  obtain resp e1 w' where call: "AppendEvents D (append_request (Some op)) (outside s) = ((resp, e1), w')"
    by (metis surj_pair)
  let ?s1 = "\<lambda>v. s\<lparr>outside := w', appends := appends s @ [(append_request (Some op), v)]\<rparr>"
  have d1: "sup_dur D base hist members (?s1 v)" for v
    using dur op by (auto simp: sup_dur_def intro: confirmed_log)
  show ?thesis
  proof (cases e1)
    case (Some x)
    with run call False d1 show ?thesis by (auto simp: sup_appendEvents_def Let_def extends_def)
  next
    case None
    define s2 where "s2 = (if same_pointer sh (eventStreamID s) (ch_GetEventStreamId (Some op))
      then (?s1 (Some resp))\<lparr>eventOffsetHint := EndOffset resp\<rparr> else ?s1 (Some resp))"
    have d2: "sup_dur D base hist members s2" and e2: "at_end hist s2"
      and same: "journal s2 = journal s" "acceptedCommands s2 = acceptedCommands s"
        "appends s2 = appends s @ [(append_request (Some op), Some resp)]"
      using d1 e unfolding s2_def by (auto simp: sup_dur_def at_end_def)
    have app: "sup_append D (events_record (ch_CommandId op)) s2 = (res, s')"
      using run call None False unfolding s2_def by (simp add: sup_appendEvents_def Let_def events_record_def)
    have ok: "rec_ok (env_MessageId D) (hist (journal s2)) (events_record (ch_CommandId op))"
      using op new False by (auto simp: rec_ok_def same)
    have conf: "confirmed (hist (journal s2)) (appends s2) (ch_CommandId op)"
      using op by (auto simp: confirmed_def same)
    from sup_append_result [OF laws d2 e2 ok _ _ app] conf False same show ?thesis
      by (auto simp: extends_def split: outcome.splits)
  qed
qed

lemma events_record_effect:
  assumes "hist_wf mid (rs @ [events_record i])"
  shows "pending_accepted mid (rs @ [events_record i]) = pending_accepted mid rs"
    and "pending_handled (rs @ [events_record i]) = filter (\<lambda>h. ch_CommandId h \<noteq> i) (pending_handled rs)"
    and "handled_ops (rs @ [events_record i]) = handled_ops rs"
    and "accepted_ops (rs @ [events_record i]) = accepted_ops rs"
  using pending_accepted_snoc(3) [OF assms events_record_simps] by simp_all

lemma distinct_pending_handled: "hist_wf mid rs \<Longrightarrow> distinct (map ch_CommandId (pending_handled rs))"
  using hist_wf_facts [of mid rs] by (simp add: pending_handled_def distinct_map_filter)

lemma sup_dur_wf: "sup_dur D base hist members s \<Longrightarrow> hist_wf (env_MessageId D) (hist (journal s))"
  by (simp add: sup_dur_def)

text \<open>The loop over the handled commands appends the events of all that are pending.\<close>

lemma append_all_result:
  assumes laws: "integration_laws D base hist members" and dur: "sup_dur D base hist members s"
    and e: "at_end hist s"
    and ops: "filter (\<lambda>h. ch_Events h \<noteq> []) ops = pending_handled (hist (journal s))"
      "set ops \<subseteq> set (handled_ops (hist (journal s)))"
    and run: "append_all D (map Some ops) s = (res, s')"
  shows "sup_dur D base hist members s' \<and> extends hist (hist (journal s)) s' \<and>
    (case res of
       Ok _ \<Rightarrow> at_end hist s' \<and> pending_handled (hist (journal s')) = [] \<and>
         pending_accepted (env_MessageId D) (hist (journal s')) = pending_accepted (env_MessageId D) (hist (journal s))
     | Err _ \<Rightarrow> True | Panic _ \<Rightarrow> False)"
  using dur e ops run
proof (induction ops arbitrary: s)
  case Nil
  then show ?case by auto
next
  case (Cons op ops)
  obtain r1 s1 where step: "sup_appendEvents D False (Some op) s = (r1, s1)" by fastforce
  have new: "ch_CommandId op \<notin> set (appended_ids (hist (journal s)))" if "ch_Events op \<noteq> []"
  proof -
    have "op \<in> set (pending_handled (hist (journal s)))" using that Cons.prems(3)[symmetric] by simp
    then show ?thesis by (simp add: pending_handled_def)
  qed
  note out = sup_appendEvents_result [OF laws Cons.prems(1,2) _ new step]
  show ?case
  proof (cases r1)
    case (Ok u)
    then have run: "append_all D (map Some ops) s1 = (res, s')" using Cons.prems(5) step by simp
    have d1: "sup_dur D base hist members s1" and e1: "at_end hist s1"
      and h1: "hist (journal s1) = hist (journal s) @
        (if ch_Events op = [] then [] else [events_record (ch_CommandId op)])"
      using out Ok Cons.prems(4) by auto
    have "filter (\<lambda>h. ch_Events h \<noteq> []) ops = pending_handled (hist (journal s1)) \<and>
        set ops \<subseteq> set (handled_ops (hist (journal s1))) \<and>
        pending_accepted (env_MessageId D) (hist (journal s1)) = pending_accepted (env_MessageId D) (hist (journal s))"
    proof (cases "ch_Events op = []")
      case True
      then show ?thesis using Cons.prems(3,4) h1 by simp
    next
      case False
      then have h: "hist (journal s1) = hist (journal s) @ [events_record (ch_CommandId op)]" using h1 by simp
      note eff = events_record_effect [OF sup_dur_wf [OF d1, unfolded h]]
      have p: "pending_handled (hist (journal s)) = op # filter (\<lambda>h. ch_Events h \<noteq> []) ops"
        using Cons.prems(3) False by simp
      have "distinct (map ch_CommandId (op # filter (\<lambda>h. ch_Events h \<noteq> []) ops))"
        using distinct_pending_handled [OF sup_dur_wf [OF Cons.prems(1)]] p by simp
      then have "filter (\<lambda>h. ch_CommandId h \<noteq> ch_CommandId op) (op # filter (\<lambda>h. ch_Events h \<noteq> []) ops) =
          filter (\<lambda>h. ch_Events h \<noteq> []) ops"
        by (auto simp: image_iff intro!: filter_cong)
      then show ?thesis using eff p Cons.prems(4) unfolding h by simp
    qed
    with Cons.IH [OF d1 e1 _ _ run] extends_trans [of hist "hist (journal s)" s1 s'] out Cons.prems(4)
    show ?thesis by (simp split: outcome.splits)
  next
    case (Err x)
    with out Cons.prems(4,5) step show ?thesis by auto
  next
    case (Panic t)
    with out Cons.prems(4) show ?thesis by auto
  qed
qed

section \<open>Handling a command\<close>

definition handled_record :: "('u, 'env) CommandHandled \<Rightarrow> ('u, 'env) op_record" where
  "handled_record op = op_RecordBuilder_Build (op_WithCommandHandled (Some op) op_NewRecordBuilder)"

lemma handled_record_simps [simp]: "op_Operation (handled_record op) = Some (Record_CommandHandled (Some op))"
  by (simp add: handled_record_def op_message_defs)

lemma select_stream_result:
  assumes "select_stream D s = (res, s')" and "sup_dur D base hist members s"
  shows "sup_dur D base hist members s' \<and> journal s' = journal s \<and> journalPos s' = journalPos s \<and>
    acceptedCommands s' = acceptedCommands s \<and> (\<forall>t. res \<noteq> Panic t)"
proof -
  have "journal s' = journal s \<and> journalPos s' = journalPos s \<and> acceptedCommands s' = acceptedCommands s \<and>
      appends s' = appends s \<and> (\<forall>t. res \<noteq> Panic t)"
    using assms(1) by (auto simp: select_stream_def Let_def split: if_splits prod.splits option.splits)
  with assms(2) show ?thesis by (simp add: sup_dur_def)
qed

text \<open>The last two steps: the record of the handled command, and its events.\<close>

text \<open>What appending the events of a command that was just handled makes of the history.\<close>

lemma handled_then_appended:
  assumes wf: "hist_wf mid (rs @ [handled_record op])" and none: "pending_handled rs = []"
    and rs': "rs' = (rs @ [handled_record op]) @ (if ch_Events op = [] then [] else [events_record (ch_CommandId op)])"
    and wf': "hist_wf mid rs'"
  shows "pending_handled rs' = [] \<and>
    pending_accepted mid rs' = filter (\<lambda>a. accepted_id mid a \<noteq> ch_CommandId op) (pending_accepted mid rs)"
proof (cases "ch_Events op = []")
  case True
  then show ?thesis using pending_accepted_snoc(2) [OF wf handled_record_simps] none by (simp add: rs')
next
  case False
  then have h2: "rs' = (rs @ [handled_record op]) @ [events_record (ch_CommandId op)]" by (simp add: rs')
  show ?thesis
    using pending_accepted_snoc(2) [OF wf handled_record_simps] events_record_effect [OF wf' [unfolded h2]] none False
    by (simp add: h2)
qed

lemma sup_finish_result:
  assumes laws: "integration_laws D base hist members" and dur: "sup_dur D base hist members s"
    and e: "at_end hist s" and none: "pending_handled (hist (journal s)) = []"
    and id: "ch_CommandId op \<in> set (accepted_ids (env_MessageId D) (hist (journal s)))"
      "ch_CommandId op \<notin> set (handled_ids (hist (journal s)))"
      "ch_CommandId op \<in> members (acceptedCommands s)"
    and run: "(case sup_append D (handled_record op) s of
        (Ok _, s4) \<Rightarrow> sup_appendEvents D True (Some op) s4
      | (Err x, s4) \<Rightarrow> (Err x, s4) | (Panic t, s4) \<Rightarrow> (Panic t, s4)) = (res, s')"
  shows "sup_dur D base hist members s' \<and> acceptedCommands s' = acceptedCommands s \<and>
    extends hist (hist (journal s)) s' \<and>
    (case res of
       Ok _ \<Rightarrow> at_end hist s' \<and> pending_handled (hist (journal s')) = [] \<and>
         pending_accepted (env_MessageId D) (hist (journal s')) =
           filter (\<lambda>a. accepted_id (env_MessageId D) a \<noteq> ch_CommandId op)
             (pending_accepted (env_MessageId D) (hist (journal s)))
     | Err _ \<Rightarrow> True | Panic _ \<Rightarrow> False)"
proof -
  let ?mid = "env_MessageId D"
  have ok: "rec_ok ?mid (hist (journal s)) (handled_record op)" using id by (simp add: rec_ok_def)
  have mem: "set (map ch_CommandId (rec_handled (handled_record op))) \<subseteq> members (acceptedCommands s)"
    using id(3) by simp
  obtain r1 s1 where app: "sup_append D (handled_record op) s = (r1, s1)" by fastforce
  note a = sup_append_result [OF laws dur e ok mem _ app]
  show ?thesis
  proof (cases r1)
    case (Ok u)
    then have h1: "hist (journal s1) = hist (journal s) @ [handled_record op]" and e1: "at_end hist s1"
      and d1: "sup_dur D base hist members s1" and m1: "acceptedCommands s1 = acceptedCommands s"
      using a by auto
    have wf1: "hist_wf ?mid (hist (journal s) @ [handled_record op])" using sup_dur_wf [OF d1] h1 by simp
    have app0: "set (appended_ids (hist (journal s))) \<subseteq> set (handled_ids (hist (journal s)))"
      using hist_wf_facts [OF sup_dur_wf [OF dur]] by force
    have run1: "sup_appendEvents D True (Some op) s1 = (res, s')" using run app Ok by simp
    have out: "sup_dur D base hist members s' \<and> acceptedCommands s' = acceptedCommands s1 \<and>
      extends hist (hist (journal s1)) s' \<and>
      (case res of
         Ok _ \<Rightarrow> at_end hist s' \<and>
           hist (journal s') = hist (journal s1) @ (if ch_Events op = [] then [] else [events_record (ch_CommandId op)])
       | Err _ \<Rightarrow> True | Panic _ \<Rightarrow> False)"
      by (rule sup_appendEvents_result [OF laws d1 e1 _ _ run1]) (use h1 app0 id(2) in auto)
    have ext: "extends hist (hist (journal s)) s'" using out h1 by (auto simp: extends_def)
    show ?thesis
    proof (cases res)
      case ok: (Ok v)
      from handled_then_appended [OF wf1 none, of "hist (journal s')"] sup_dur_wf [of D base hist members s'] out ok h1
      show ?thesis using ext m1 by simp
    next
      case (Err x)
      with out h1 m1 show ?thesis by (auto simp: extends_def)
    next
      case (Panic t)
      with out show ?thesis by simp
    qed
  next
    case (Err x)
    with run app a show ?thesis by auto
  next
    case (Panic t)
    with a show ?thesis by simp
  qed
qed

text \<open>
  A run of \<open>handleCommand\<close> stops early, having at most added the command to the set and
  talked to the outside, or reaches the last two steps with the command in the set.
\<close>

definition handled_op ::
  "'u option \<Rightarrow> 'env list \<Rightarrow> ('j, 'u, 'env, 'x, 'k, 'w, 'hid) supervisor \<Rightarrow> ('u, 'env) CommandHandled" where
  "handled_op i evs s =
     (if length evs \<noteq> 0
      then (zero_CommandHandled\<lparr>ch_CommandId := i, ch_Events := evs\<rparr>)
             \<lparr>ch_EventStreamId := eventStreamID s, ch_OffsetHint := eventOffsetHint s\<rparr>
      else zero_CommandHandled\<lparr>ch_CommandId := i, ch_Events := evs\<rparr>)"

lemma handled_op_simps [simp]: "ch_CommandId (handled_op i evs s) = i" "ch_Events (handled_op i evs s) = evs"
  by (simp_all add: handled_op_def)

definition sup_unchanged ::
  "('j, 'u, 'env, 'x, 'k, 'w, 'hid) supervisor \<Rightarrow> 'k \<Rightarrow> ('j, 'u, 'env, 'x, 'k, 'w, 'hid) supervisor \<Rightarrow> bool" where
  "sup_unchanged s k' s' \<longleftrightarrow> journal s' = journal s \<and> journalPos s' = journalPos s \<and>
     appends s' = appends s \<and> acceptedCommands s' = k'"

lemma select_stream_unchanged:
  "select_stream D s = (res, s') \<Longrightarrow> sup_unchanged s (acceptedCommands s) s' \<and> (\<forall>t. res \<noteq> Panic t)"
  by (auto simp: select_stream_def Let_def sup_unchanged_def split: if_splits prod.splits option.splits)

text \<open>What handling a command comes to when nothing fails before the record of its result is written.\<close>

lemma sup_handleCommand_stored:
  assumes "set_Add D (acceptedCommands s) (env_MessageId D env) = (None, k')" and "Unpack D env = Ok cmd" and "is_Command D cmd"
    and "HandleCommand D cmd (outside (s\<lparr>acceptedCommands := k'\<rparr>)) = ((calls, Ok v), w1)"
    and "run_scope D calls (\<lparr>sc_handler = HandlerIdentity s, sc_command = env, sc_events = []\<rparr>, w1) = (sc, w2)"
    and "(if length (sc_events sc) \<noteq> 0 then select_stream D (s\<lparr>acceptedCommands := k', outside := w2\<rparr>)
      else (Ok (), s\<lparr>acceptedCommands := k', outside := w2\<rparr>)) = (Ok u, s3)"
  shows "sup_handleCommand D env s =
    (case sup_append D (handled_record (handled_op (env_MessageId D env) (sc_events sc) s3)) s3 of
       (Ok _, s4) \<Rightarrow> sup_appendEvents D True (Some (handled_op (env_MessageId D env) (sc_events sc) s3)) s4
     | (Err x, s4) \<Rightarrow> (Err x, s4) | (Panic t, s4) \<Rightarrow> (Panic t, s4))"
  using assms unfolding handled_record_def handled_op_def
  by (cases "sc_events sc = []") (simp_all add: sup_handleCommand_def assert_Command_def Let_def cong: prod.case_cong outcome.case_cong)

lemma sup_handleCommand_cases:
  assumes run: "sup_handleCommand D env s = (res, s')"
  shows "\<exists>k' e. set_Add D (acceptedCommands s) (env_MessageId D env) = (e, k') \<and>
    (((\<exists>x. res = Err x) \<or> (\<exists>t. res = Panic t \<and> handler_panics D env t)) \<and> sup_unchanged s k' s' \<or>
     (\<exists>evs s3. e = None \<and> sup_unchanged s k' s3 \<and>
       (case sup_append D (handled_record (handled_op (env_MessageId D env) evs s3)) s3 of
          (Ok _, s4) \<Rightarrow> sup_appendEvents D True (Some (handled_op (env_MessageId D env) evs s3)) s4
        | (Err x, s4) \<Rightarrow> (Err x, s4) | (Panic t, s4) \<Rightarrow> (Panic t, s4)) = (res, s')))"
proof -
  let ?i = "env_MessageId D env"
  obtain e k' where add: "set_Add D (acceptedCommands s) ?i = (e, k')" by fastforce
  show ?thesis
  proof (cases e)
    case (Some x)
    with run add show ?thesis by (auto simp: sup_handleCommand_def sup_unchanged_def)
  next
    case None
    let ?s1 = "s\<lparr>acceptedCommands := k'\<rparr>"
    show ?thesis
    proof (cases "Unpack D env")
      case (Err x)
      with None run add show ?thesis by (auto simp: sup_handleCommand_def sup_unchanged_def Let_def)
    next
      case (Panic t)
      with None run add show ?thesis by (auto simp: sup_handleCommand_def sup_unchanged_def Let_def handler_panics_def)
    next
      case (Ok cmd)
      show ?thesis
      proof (cases "is_Command D cmd")
        case False
        with Ok None run add show ?thesis
          by (auto simp: sup_handleCommand_def sup_unchanged_def Let_def handler_panics_def assert_Command_def)
      next
      case cmd: True
      then have as: "assert_Command D cmd = Ok cmd" by (simp add: assert_Command_def)
      obtain calls herr w1 where hc: "HandleCommand D cmd (outside ?s1) = ((calls, herr), w1)" by (metis surj_pair)
      obtain sc w2 where sc: "run_scope D calls
          (\<lparr>sc_handler = HandlerIdentity s, sc_command = env, sc_events = []\<rparr>, w1) = (sc, w2)" by fastforce
      let ?s2 = "?s1\<lparr>outside := w2\<rparr>"
      obtain rs s3 where sel: "(if length (sc_events sc) \<noteq> 0 then select_stream D ?s2 else (Ok (), ?s2)) = (rs, s3)"
        by fastforce
      have s3: "sup_unchanged s k' s3" and rs: "\<forall>t. rs \<noteq> Panic t"
        using select_stream_unchanged [of D ?s2 rs s3] sel
        by (auto simp: sup_unchanged_def split: if_splits)
      show ?thesis
      proof (cases herr)
        case (Err x)
        with Ok None run add hc sc as show ?thesis by (auto simp: sup_handleCommand_def sup_unchanged_def Let_def)
      next
        case (Panic t)
        then have "handler_panics D env t" using Ok cmd hc by (auto simp: handler_panics_def)
        with Panic Ok None run add hc sc as show ?thesis by (auto simp: sup_handleCommand_def sup_unchanged_def Let_def)
      next
        case herr: (Ok v)
        show ?thesis
        proof (cases rs)
          case (Err x)
          with Ok None herr run add hc sc sel s3 as show ?thesis
            by (auto simp: sup_handleCommand_def Let_def)
        next
          case (Panic t)
          with rs show ?thesis by simp
        next
          case okrs: (Ok u)
          have "(case sup_append D (handled_record (handled_op ?i (sc_events sc) s3)) s3 of
              (Ok _, s4) \<Rightarrow> sup_appendEvents D True (Some (handled_op ?i (sc_events sc) s3)) s4
            | (Err x, s4) \<Rightarrow> (Err x, s4) | (Panic t, s4) \<Rightarrow> (Panic t, s4)) = (res, s')"
            using sup_handleCommand_stored [OF add [unfolded None] Ok cmd hc [unfolded herr] sc sel [unfolded okrs]] run by simp
          with add None s3 show ?thesis by blast
        qed
      qed
      qed
    qed
  qed
qed

lemma sup_handleCommand_result:
  assumes laws: "integration_laws D base hist members" and dur: "sup_dur D base hist members s"
    and e: "at_end hist s" and none: "pending_handled (hist (journal s)) = []"
    and id: "env_MessageId D env \<in> set (accepted_ids (env_MessageId D) (hist (journal s)))"
      "env_MessageId D env \<notin> set (handled_ids (hist (journal s)))"
    and run: "sup_handleCommand D env s = (res, s')"
  shows "sup_dur D base hist members s' \<and> extends hist (hist (journal s)) s' \<and>
    (case res of
       Ok _ \<Rightarrow> at_end hist s' \<and> pending_handled (hist (journal s')) = [] \<and>
         pending_accepted (env_MessageId D) (hist (journal s')) =
           filter (\<lambda>a. accepted_id (env_MessageId D) a \<noteq> env_MessageId D env)
             (pending_accepted (env_MessageId D) (hist (journal s)))
     | Err _ \<Rightarrow> True
     | Panic t \<Rightarrow> handler_panics D env t \<and> hist (journal s') = hist (journal s))"
proof -
  let ?i = "env_MessageId D env"
  obtain k' e1 where add: "set_Add D (acceptedCommands s) ?i = (e1, k')"
    and cs: "((\<exists>x. res = Err x) \<or> (\<exists>t. res = Panic t \<and> handler_panics D env t)) \<and> sup_unchanged s k' s' \<or>
     (\<exists>evs s3. e1 = None \<and> sup_unchanged s k' s3 \<and>
       (case sup_append D (handled_record (handled_op ?i evs s3)) s3 of
          (Ok _, s4) \<Rightarrow> sup_appendEvents D True (Some (handled_op ?i evs s3)) s4
        | (Err x, s4) \<Rightarrow> (Err x, s4) | (Panic t, s4) \<Rightarrow> (Panic t, s4)) = (res, s'))"
    using sup_handleCommand_cases [OF run] by blast
  have mem: "members k' = members (acceptedCommands s) \<or> members k' = insert ?i (members (acceptedCommands s))"
    by (rule set_Add_cases(1) [OF laws add])
  have durk: "sup_dur D base hist members u" if "sup_unchanged s k' u" for u
  proof -
    have "set (handled_ids (hist (journal s))) \<subseteq> members k'"
      "members k' \<subseteq> set (accepted_ids (env_MessageId D) (hist (journal s)))"
      using dur mem id(1) by (auto simp: sup_dur_def)
    with dur that show ?thesis by (simp add: sup_dur_def sup_unchanged_def)
  qed
  from cs show ?thesis
  proof (elim disjE exE conjE)
    fix x assume "res = Err x" "sup_unchanged s k' s'"
    with durk show ?thesis by (simp add: sup_unchanged_def extends_def)
  next
    fix t assume "res = Panic t" "handler_panics D env t" "sup_unchanged s k' s'"
    with durk show ?thesis by (simp add: sup_unchanged_def extends_def)
  next
    fix evs s3
    assume ok: "e1 = None" and s3: "sup_unchanged s k' s3"
      and fin: "(case sup_append D (handled_record (handled_op ?i evs s3)) s3 of
          (Ok _, s4) \<Rightarrow> sup_appendEvents D True (Some (handled_op ?i evs s3)) s4
        | (Err x, s4) \<Rightarrow> (Err x, s4) | (Panic t, s4) \<Rightarrow> (Panic t, s4)) = (res, s')"
    have same: "journal s3 = journal s" "journalPos s3 = journalPos s" "acceptedCommands s3 = k'"
      using s3 by (simp_all add: sup_unchanged_def)
    have k: "?i \<in> members (acceptedCommands s3)" using set_Add_cases(2) [OF laws add ok] same(3) by simp
    have e3: "at_end hist s3" using e by (simp add: at_end_def same)
    have pre: "pending_handled (hist (journal s3)) = []"
      "ch_CommandId (handled_op ?i evs s3) \<in> set (accepted_ids (env_MessageId D) (hist (journal s3)))"
      "ch_CommandId (handled_op ?i evs s3) \<notin> set (handled_ids (hist (journal s3)))"
      "ch_CommandId (handled_op ?i evs s3) \<in> members (acceptedCommands s3)"
      using none id k by (simp_all add: same(1))
    from sup_finish_result [OF laws durk [OF s3] e3 pre fin] show ?thesis
      by (simp add: same(1) split: outcome.splits)
  qed
qed

text \<open>A panic is one of handling a command that is pending.\<close>

definition panic_at ::
  "('j, 'u, 'env, 'x, 'k, 'w, 'msg, 'ev, 'arg, 'hid) integration_deps \<Rightarrow> ('u, 'env) op_record list \<Rightarrow> string \<Rightarrow> bool" where
  "panic_at D rs t \<longleftrightarrow> (\<exists>a \<in> set (pending_accepted (env_MessageId D) rs). handler_panics D (ca_Command a) t)"

text \<open>The loop over the accepted commands handles all that are pending.\<close>

lemma handle_all_result:
  assumes laws: "integration_laws D base hist members" and dur: "sup_dur D base hist members s"
    and e: "at_end hist s" and none: "pending_handled (hist (journal s)) = []"
    and ops: "ops = pending_accepted (env_MessageId D) (hist (journal s))"
    and run: "handle_all D (map Some ops) s = (res, s')"
  shows "sup_dur D base hist members s' \<and> extends hist (hist (journal s)) s' \<and>
    (case res of
       Ok _ \<Rightarrow> at_end hist s' \<and> complete (env_MessageId D) (hist (journal s'))
     | Err _ \<Rightarrow> True | Panic t \<Rightarrow> panic_at D (hist (journal s')) t)"
  using dur e none ops run
proof (induction ops arbitrary: s)
  case Nil
  then show ?case by (auto simp: complete_def)
next
  case (Cons op ops)
  let ?mid = "env_MessageId D"
  obtain r1 s1 where step: "sup_handleCommand D (ca_Command op) s = (r1, s1)" by fastforce
  have op: "op \<in> set (pending_accepted ?mid (hist (journal s)))" using Cons.prems(4) [symmetric] by simp
  have id: "?mid (ca_Command op) \<in> set (accepted_ids ?mid (hist (journal s)))"
    "?mid (ca_Command op) \<notin> set (handled_ids (hist (journal s)))"
    using op by (auto simp: pending_accepted_def accepted_id_def)
  note out = sup_handleCommand_result [OF laws Cons.prems(1-3) id step]
  show ?case
  proof (cases r1)
    case (Ok u)
    then have run: "handle_all D (map Some ops) s1 = (res, s')" using Cons.prems(5) step by simp
    have "distinct (map (accepted_id ?mid) (op # ops))"
      using hist_wf_facts [OF sup_dur_wf [OF Cons.prems(1)]] unfolding Cons.prems(4)
      by (simp add: pending_accepted_def distinct_map_filter)
    then have "filter (\<lambda>a. accepted_id ?mid a \<noteq> ?mid (ca_Command op)) (op # ops) = ops"
      by (auto simp: image_iff accepted_id_def filter_id_conv)
    then have "ops = pending_accepted ?mid (hist (journal s1))"
      using out Ok Cons.prems(4) by simp
    with Cons.IH [of s1] out Ok run extends_trans [of hist "hist (journal s)" s1 s'] show ?thesis by simp
  next
    case (Err x)
    with out Cons.prems(5) step show ?thesis by auto
  next
    case (Panic t)
    with out op Cons.prems(5) step show ?thesis by (auto simp: panic_at_def)
  qed
qed

section \<open>Recovery\<close>

text \<open>
  What a state may do: it never stops or stays, it fails only with the invariant, and panics only
  with it and while it handles a command.
\<close>

definition step_ok ::
  "('j, 'u, 'env, 'x, 'k, 'w, 'msg, 'ev, 'arg, 'hid) integration_deps \<Rightarrow> ('j \<Rightarrow> nat) \<Rightarrow>
   ('j \<Rightarrow> ('u, 'env) op_record list) \<Rightarrow> ('k \<Rightarrow> 'u option set) \<Rightarrow> ('u, 'env) op_record list \<Rightarrow>
   ('j, 'u, 'env, 'x, 'k, 'w, 'hid) sup_step \<Rightarrow> bool" where
  "step_ok D base hist members h0 r \<longleftrightarrow>
     (case r of
        Done (EnterState q) s' \<Rightarrow> q = Idle \<and> sup_dur D base hist members s' \<and> extends hist h0 s' \<and>
          at_end hist s' \<and> complete (env_MessageId D) (hist (journal s'))
      | Done (Fail x) s' \<Rightarrow> sup_dur D base hist members s' \<and> extends hist h0 s'
      | Panics t s' \<Rightarrow> sup_dur D base hist members s' \<and> extends hist h0 s' \<and> panic_at D (hist (journal s')) t
      | _ \<Rightarrow> False)"

lemma step_ok_simps [simp]:
  "step_ok D base hist members h0 (Panics t s') \<longleftrightarrow>
     sup_dur D base hist members s' \<and> extends hist h0 s' \<and> panic_at D (hist (journal s')) t"
  "step_ok D base hist members h0 (Done (Fail x) s') \<longleftrightarrow> sup_dur D base hist members s' \<and> extends hist h0 s'"
  "step_ok D base hist members h0 (Done (EnterState Idle) s') \<longleftrightarrow>
     sup_dur D base hist members s' \<and> extends hist h0 s' \<and> at_end hist s' \<and> complete (env_MessageId D) (hist (journal s'))"
  by (simp_all add: step_ok_def)

lemma sup_truncate_result:
  assumes laws: "integration_laws D base hist members" and dur: "sup_dur D base hist members s"
    and e: "at_end hist s" and c: "complete (env_MessageId D) (hist (journal s))"
    and call: "j_Truncate D (journal s) (journalPos s) = (e1, j')"
  shows "sup_dur D base hist members (s\<lparr>journal := j'\<rparr>) \<and> at_end hist (s\<lparr>journal := j'\<rparr>) \<and>
    complete (env_MessageId D) (hist j') \<and> hist j' = hist (journal s)"
proof -
  have J: "journal_laws D base hist" using laws by (simp add: integration_laws_def)
  have pos: "unat (journalPos s) = length (hist (journal s))" using e by (simp add: at_end_def)
  have t: "hist j' = hist (journal s)" "base j' \<le> max (base (journal s)) (unat (journalPos s))"
    using journal_Truncate [OF J call] pos by auto
  have "base j' \<le> length (hist j')" using t pos journal_size(1) [OF J, of "journal s"] by simp
  then have "truncated_ok (env_MessageId D) (base j') (hist j')"
    using c t(1) unfolding truncated_ok_def by (intro exI [of _ "length (hist j')"]) simp
  with dur e c t(1) show ?thesis by (simp add: sup_dur_def at_end_def)
qed

lemma sup_recover_pending_result:
  assumes laws: "integration_laws D base hist members" and dur: "sup_dur D base hist members s"
    and e: "at_end hist s"
    and ops: "filter (\<lambda>h. ch_Events h \<noteq> []) ops = pending_handled (hist (journal s))"
      "set ops \<subseteq> set (handled_ops (hist (journal s)))"
  shows "step_ok D base hist members (hist (journal s))
    (sup_recover_pending D (map Some (pending_accepted (env_MessageId D) (hist (journal s))), map Some ops) s)"
proof -
  obtain r1 s1 where one: "append_all D (map Some ops) s = (r1, s1)" by fastforce
  note a = append_all_result [OF laws dur e ops one]
  show ?thesis
  proof (cases r1)
    case (Ok u)
    obtain r2 s2 where two: "handle_all D (map Some (pending_accepted (env_MessageId D) (hist (journal s)))) s1 = (r2, s2)"
      by fastforce
    have b: "sup_dur D base hist members s2 \<and> extends hist (hist (journal s1)) s2 \<and>
      (case r2 of Ok _ \<Rightarrow> at_end hist s2 \<and> complete (env_MessageId D) (hist (journal s2))
       | Err _ \<Rightarrow> True | Panic t \<Rightarrow> panic_at D (hist (journal s2)) t)"
      by (rule handle_all_result [OF laws _ _ _ _ two]) (use a Ok in simp_all)
    have ext: "extends hist (hist (journal s)) s2"
      using a b extends_trans by blast
    show ?thesis
    proof (cases r2)
      case ok2: (Ok v)
      obtain e1 j' where tr: "j_Truncate D (journal s2) (journalPos s2) = (e1, j')" by fastforce
      have "sup_dur D base hist members (s2\<lparr>journal := j'\<rparr>) \<and> at_end hist (s2\<lparr>journal := j'\<rparr>) \<and>
          complete (env_MessageId D) (hist j') \<and> hist j' = hist (journal s2)"
        by (rule sup_truncate_result [OF laws _ _ _ tr]) (use b ok2 in simp_all)
      moreover from this ext have "extends hist (hist (journal s)) (s2\<lparr>journal := j'\<rparr>)"
        by (simp add: extends_def)
      ultimately show ?thesis using b by (cases e1) (simp_all add: sup_recover_pending_def one Ok two ok2 tr)
    next
      case (Err x)
      with b ext show ?thesis by (simp add: sup_recover_pending_def one Ok two)
    next
      case (Panic t)
      with b ext show ?thesis by (simp add: sup_recover_pending_def one Ok two)
    qed
  next
    case (Err x)
    with a show ?thesis by (simp add: sup_recover_pending_def one)
  next
    case (Panic t)
    with a show ?thesis by simp
  qed
qed

lemma sup_dur_pos:
  "sup_dur D base hist members s \<Longrightarrow> hist j' = hist (journal s) \<Longrightarrow> base j' = base (journal s) \<Longrightarrow>
     sup_dur D base hist members (s\<lparr>journal := j', journalPos := p\<rparr>) \<and>
     sup_dur D base hist members (s\<lparr>journal := j'\<rparr>)"
  by (simp add: sup_dur_def)

text \<open>The scan of all that is left of the journal finds what is pending.\<close>

lemma scan_finds_pending:
  fixes D :: "('j, 'u, 'env, 'x, 'k, 'w, 'msg, 'ev, 'arg, 'hid) integration_deps" and h :: "('u, 'env) op_record list"
  assumes wf: "hist_wf (env_MessageId D) h" and ids: "uuids_ok D" and tr: "truncated_ok (env_MessageId D) b h"
    and lt: "b < length h"
  shows "\<exists>ops. recover_scan D (positioned b h) p ([], []) =
      (Ok (map Some (pending_accepted (env_MessageId D) h), map Some ops), of_nat (length h)) \<and>
    filter (\<lambda>h. ch_Events h \<noteq> []) ops = pending_handled h \<and> set ops \<subseteq> set (handled_ops h)"
proof -
  let ?mid = "env_MessageId D"
  let ?ops = "filter (\<lambda>o1. ch_CommandId o1 \<notin> set (appended_ids h)) (handled_ops (drop b h))"
  note pend = recover_of_pending [OF wf tr]
  have ah: "recover_of ?mid b h = (map Some (pending_accepted ?mid h), map Some ?ops)"
    using pend(1) by (simp add: recover_of_def)
  have "map Some (filter (\<lambda>h. ch_Events h \<noteq> []) ?ops) = map Some (pending_handled h)"
    using pend(2) unfolding ah by (simp add: filter_map o_def)
  then have "filter (\<lambda>h. ch_Events h \<noteq> []) ?ops = pending_handled h" by (metis inj_Some map_injective)
  moreover have "set ?ops \<subseteq> set (handled_ops h)"
    by (metis (no_types) append_take_drop_id filter_is_subset le_supI2 ops_simps(4) order_trans set_append)
  ultimately show ?thesis using recover_scan_all [OF wf ids lt] ah by auto
qed

text \<open>
  What \<open>recover\<close> makes of the journal: it fails with a call of the journal and has changed
  nothing, or goes on with exactly what is pending, at the end of the journal.
\<close>

lemma sup_recover_cases:
  fixes D :: "('j, 'u, 'env, 'x, 'k, 'w, 'msg, 'ev, 'arg, 'hid) integration_deps"
  assumes laws: "integration_laws D base hist members" and dur: "sup_dur D base hist members s"
  obtains (failed) x j' p where "sup_recover D s = Done (Fail x) (s\<lparr>journal := j', journalPos := p\<rparr>)"
      "hist j' = hist (journal s)" "base j' = base (journal s)"
  | (pending) ops j' p where "sup_recover D s = sup_recover_pending D
        (map Some (pending_accepted (env_MessageId D) (hist (journal s))), map Some ops) (s\<lparr>journal := j', journalPos := p\<rparr>)"
      "hist j' = hist (journal s)" "base j' = base (journal s)" "unat p = length (hist (journal s))"
      "filter (\<lambda>h. ch_Events h \<noteq> []) ops = pending_handled (hist (journal s))"
      "set ops \<subseteq> set (handled_ops (hist (journal s)))"
proof -
  let ?mid = "env_MessageId D" and ?h = "hist (journal s)"
  have J: "journal_laws D base hist" and ids: "uuids_ok D" using laws by (simp_all add: integration_laws_def)
  have wf: "hist_wf ?mid ?h" and tr: "truncated_ok ?mid (base (journal s)) ?h" using dur by (simp_all add: sup_dur_def)
  obtain res j1 where bounds: "j_Bounds D (journal s) = (res, j1)" by fastforce
  note bd = journal_Bounds [OF J bounds]
  show thesis
  proof (cases res)
    case (Err x)
    have "s\<lparr>journal := j1\<rparr> = s\<lparr>journal := j1, journalPos := journalPos s\<rparr>" by simp
    with Err bounds bd(1,2) show thesis by (intro failed [where x = x and j' = j1 and p = "journalPos s"]) (simp_all add: sup_recover_def)
  next
    case (Panic t)
    with bd(3) show thesis by blast
  next
    case (Ok be)
    obtain b e where be: "be = (b, e)" by fastforce
    have b: "unat b = base (journal s)" and e: "unat e = length ?h" using bd(4) Ok be by blast+
    show thesis
    proof (cases "e \<le> b")
      case True
      then have len: "length ?h \<le> base (journal s)" using b e by (simp add: word_le_nat_alt)
      then have "complete ?mid ?h" using tr by (auto simp: truncated_ok_def)
      moreover have "unat b = length ?h" using b len journal_size(1) [OF J, of "journal s"] by simp
      ultimately show thesis using True bounds Ok be bd(1,2)
        by (intro pending [where ops = "[]" and j' = j1 and p = b]) (simp_all add: sup_recover_def Let_def complete_def)
    next
      case False
      then have lt: "base (journal s) < length ?h" using b e by (simp add: word_le_nat_alt)
      obtain rs rerr j2 where rng: "j_Range D j1 b = ((rs, rerr), j2)" by (metis surj_pair)
      note rg = journal_Range [OF J rng, unfolded bd(1,2)]
      show thesis
      proof (cases rerr)
        case (Some x)
        obtain n where "rs = take n (positioned (base (journal s)) ?h)" using rg(4) b lt by auto
        then obtain ah p where "recover_scan D rs b ([], []) = (Ok ah, p)"
          using recover_scan_some [OF wf ids lt] by blast
        with False bounds Ok be rng Some rg(1,2) show thesis
          by (intro failed [where x = x and j' = j2 and p = p]) (simp_all add: sup_recover_def Let_def)
      next
        case None
        have rs: "rs = positioned (base (journal s)) ?h" using rg(3) b lt None by simp
        obtain ops where "recover_scan D rs b ([], []) =
            (Ok (map Some (pending_accepted ?mid ?h), map Some ops), of_nat (length ?h))"
          "filter (\<lambda>h. ch_Events h \<noteq> []) ops = pending_handled ?h" "set ops \<subseteq> set (handled_ops ?h)"
          using scan_finds_pending [OF wf ids tr lt, of b] unfolding rs by blast
        with False bounds Ok be rng None rg(1,2) unat_of_nat_u64 [OF journal_size(2) [OF J, of "journal s"]] show thesis
          by (intro pending [where ops = ops and j' = j2 and p = "of_nat (length ?h)"]) (simp_all add: sup_recover_def Let_def)
      qed
    qed
  qed
qed

lemma sup_recover_result:
  assumes laws: "integration_laws D base hist members" and dur: "sup_dur D base hist members s"
  shows "step_ok D base hist members (hist (journal s)) (sup_recover D s)"
proof (rule sup_recover_cases [OF laws dur])
  fix x j' p assume "sup_recover D s = Done (Fail x) (s\<lparr>journal := j', journalPos := p\<rparr>)"
    "hist j' = hist (journal s)" "base j' = base (journal s)"
  with sup_dur_pos [OF dur, of j'] show ?thesis by (simp add: extends_def)
next
  fix ops j' p assume r: "sup_recover D s = sup_recover_pending D
        (map Some (pending_accepted (env_MessageId D) (hist (journal s))), map Some ops) (s\<lparr>journal := j', journalPos := p\<rparr>)"
    and j: "hist j' = hist (journal s)" "base j' = base (journal s)" "unat p = length (hist (journal s))"
    and ops: "filter (\<lambda>h. ch_Events h \<noteq> []) ops = pending_handled (hist (journal s))"
      "set ops \<subseteq> set (handled_ops (hist (journal s)))"
  let ?s = "s\<lparr>journal := j', journalPos := p\<rparr>"
  have d: "sup_dur D base hist members ?s" using sup_dur_pos [OF dur j(1,2)] by blast
  have "at_end hist ?s" using j by (simp add: at_end_def)
  from sup_recover_pending_result [OF laws d this, of ops] ops j(1) r show ?thesis by simp
qed

section \<open>Accepting a command\<close>

definition accepted_record :: "'env option \<Rightarrow> ('u, 'env) op_record" where
  "accepted_record env = op_RecordBuilder_Build
     (op_WithCommandAccepted (Some \<lparr>ca_Command = env\<rparr>) op_NewRecordBuilder)"

lemma accepted_record_simps [simp]:
  "op_Operation (accepted_record env) = Some (Record_CommandAccepted (Some \<lparr>ca_Command = env\<rparr>))"
  by (simp add: accepted_record_def op_message_defs)

definition fresh_ack :: "'env option ack_request \<Rightarrow> bool" where
  "fresh_ack req \<longleftrightarrow> Acknowledgement req = make_chan 1"

text \<open>
  The state of a request whose one reply is in its channel: an acknowledged command is in the
  history, a negative acknowledgement comes with an error of \<open>Run\<close>.
\<close>

definition reply_ok ::
  "('env option \<Rightarrow> 'u option) \<Rightarrow> ('u, 'env) op_record list \<Rightarrow> 'x option \<Rightarrow> 'env option ack_request \<Rightarrow> bool" where
  "reply_ok mid rs e req \<longleftrightarrow>
     (\<exists>a. buffer (Acknowledgement req) = [a] \<and>
        (if a = None then mid (Value req) \<in> set (accepted_ids mid rs) else e \<noteq> None))"

lemma reply_ok_weaken:
  "reply_ok mid rs None req \<Longrightarrow> reply_ok mid (rs @ rs') e req"
  by (auto simp: reply_ok_def split: if_splits)

definition acked :: "'env option ack_request \<Rightarrow> ack_error option \<Rightarrow> 'env option ack_request" where
  "acked req a = req\<lparr>Acknowledgement := \<lparr>capacity = 1, buffer = [a], closed = False\<rparr>\<rparr>"

lemma acknowledge_fresh:
  assumes "fresh_ack req"
  shows "acknowledge req (Ack req) s f = f (s\<lparr>replied := replied s @ [acked req None]\<rparr>)"
    and "acknowledge req (Nack req) s f = f (s\<lparr>replied := replied s @ [acked req (Some ErrNack)]\<rparr>)"
  using assms by (simp_all add: acknowledge_def fresh_ack_def Ack_def Nack_def acked_def chan_defs)

text \<open>
  The outcome of accepting a command: \<open>a\<close> is the reply. A negative acknowledgement ends the
  run with an error; once the reply is positive the command is in the history.
\<close>

definition accept_ok ::
  "('j, 'u, 'env, 'x, 'k, 'w, 'msg, 'ev, 'arg, 'hid) integration_deps \<Rightarrow> ('j \<Rightarrow> nat) \<Rightarrow>
   ('j \<Rightarrow> ('u, 'env) op_record list) \<Rightarrow> ('k \<Rightarrow> 'u option set) \<Rightarrow> 'env option ack_request \<Rightarrow>
   ('j, 'u, 'env, 'x, 'k, 'w, 'hid) supervisor \<Rightarrow> ('j, 'u, 'env, 'x, 'k, 'w, 'hid) sup_step \<Rightarrow> bool" where
  "accept_ok D base hist members req s r \<longleftrightarrow>
    step_ok D base hist members (hist (journal s)) r \<and>
    (case r of
       Done act s' \<Rightarrow>
         sup_cases s' = sup_cases s \<and> sup_ctx s' = sup_ctx s \<and>
         (\<exists>a. replied s' = replied s @ [acked req a] \<and>
            (if a = None
             then env_MessageId D (Value req) \<in> set (accepted_ids (env_MessageId D) (hist (journal s')))
             else \<exists>x. act = Fail x))
     | Panics t s' \<Rightarrow>
         sup_cases s' = sup_cases s \<and> sup_ctx s' = sup_ctx s \<and> replied s' = replied s @ [acked req None] \<and>
         env_MessageId D (Value req) \<in> set (accepted_ids (env_MessageId D) (hist (journal s')))
     | Blocks s' \<Rightarrow> False)"

lemma replied_frame:
  "sup_dur D base hist members (s\<lparr>replied := v\<rparr>) = sup_dur D base hist members s"
  "at_end hist (s\<lparr>replied := v\<rparr>) = at_end hist s"
  by (simp_all add: sup_dur_def at_end_def)

text \<open>A command that is not in the set is not in the history either, and is stored and handled.\<close>

lemma sup_accept_new:
  assumes laws: "integration_laws D base hist members" and dur: "sup_dur D base hist members s"
    and e: "at_end hist s" and c: "complete (env_MessageId D) (hist (journal s))" and fresh: "fresh_ack req"
    and new: "env_MessageId D (Value req) \<notin> members (acceptedCommands s)"
    and run: "(case sup_append D (accepted_record (Value req)) s of
        (Err x, s2) \<Rightarrow> acknowledge req (Nack req) s2 (Done (Fail x))
      | (Panic t, s2) \<Rightarrow> Panics t s2
      | (Ok _, s2) \<Rightarrow> acknowledge req (Ack req) s2 (\<lambda>s3.
          case sup_handleCommand D (Value req) s3 of
            (Err x, s4) \<Rightarrow> Done (Fail x) s4 | (Panic t, s4) \<Rightarrow> Panics t s4
          | (Ok _, s4) \<Rightarrow> Done (EnterState Idle) s4)) = r"
  shows "accept_ok D base hist members req s r"
proof -
  let ?mid = "env_MessageId D" and ?env = "Value req"
  have hid: "set (handled_ids (hist (journal s))) \<subseteq> members (acceptedCommands s)" using dur by (simp add: sup_dur_def)
  then have "?mid ?env \<notin> set (accepted_ids ?mid (hist (journal s)))" using new complete_accepted [OF c] by blast
  then have ok: "rec_ok ?mid (hist (journal s)) (accepted_record ?env)" by (simp add: rec_ok_def accepted_id_def)
  obtain r2 s2 where app: "sup_append D (accepted_record ?env) s = (r2, s2)" by fastforce
  have q2: "quiet s s2" by (rule quiet_append [OF app])
  note a = sup_append_result [OF laws dur e ok _ _ app]
  show ?thesis
  proof (cases r2)
    case (Err x)
    then have "r = Done (Fail x) (s2\<lparr>replied := replied s2 @ [acked req (Some ErrNack)]\<rparr>)"
      using run app by (simp add: acknowledge_fresh [OF fresh])
    with a q2 show ?thesis by (auto simp: accept_ok_def replied_frame quiet_def extends_def)
  next
    case (Panic t)
    with a show ?thesis by simp
  next
    case ok2: (Ok u)
    let ?s3 = "s2\<lparr>replied := replied s2 @ [acked req None]\<rparr>"
    obtain r4 s4 where hc: "sup_handleCommand D ?env ?s3 = (r4, s4)" by fastforce
    have h2: "hist (journal s2) = hist (journal s) @ [accepted_record ?env]" and d3: "sup_dur D base hist members ?s3"
      and e3: "at_end hist ?s3" using a ok2 by (simp_all add: replied_frame)
    note eff = pending_accepted_snoc(1) [OF sup_dur_wf [OF d3, simplified, unfolded h2] accepted_record_simps]
    have pre: "pending_handled (hist (journal ?s3)) = []"
      "?mid ?env \<in> set (accepted_ids ?mid (hist (journal ?s3)))"
      "?mid ?env \<notin> set (handled_ids (hist (journal ?s3)))"
      using eff c hid new by (auto simp: h2 complete_def accepted_id_def)
    note out = sup_handleCommand_result [OF laws d3 e3 pre hc]
    have q4: "quiet ?s3 s4" by (rule quiet_handleCommand [OF hc])
    have r: "r = (case r4 of Err x \<Rightarrow> Done (Fail x) s4 | Panic t \<Rightarrow> Panics t s4 | Ok _ \<Rightarrow> Done (EnterState Idle) s4)"
      using run app ok2 hc by (simp add: acknowledge_fresh [OF fresh])
    have hist4: "\<exists>rs. hist (journal s4) = hist (journal s) @ accepted_record ?env # rs"
      using out h2 by (auto simp: extends_def)
    then have "?mid ?env \<in> set (accepted_ids ?mid (hist (journal s4)))" by (auto simp: accepted_id_def)
    moreover have "complete ?mid (hist (journal s4))" if "r4 = Ok v" for v
      using out that eff c by (simp add: h2 complete_def accepted_id_def)
    moreover have "panic_at D (hist (journal s4)) t" if "r4 = Panic t" for t
      using out that eff by (simp add: h2 panic_at_def)
    ultimately show ?thesis
      using r out q2 q4 hist4 by (cases r4) (auto simp: accept_ok_def quiet_def extends_def)
  qed
qed

lemma sup_acceptCommand_result:
  assumes laws: "integration_laws D base hist members" and dur: "sup_dur D base hist members s"
    and e: "at_end hist s" and c: "complete (env_MessageId D) (hist (journal s))" and fresh: "fresh_ack req"
    and run: "sup_acceptCommand D req s = r"
  shows "accept_ok D base hist members req s r"
proof -
  let ?mid = "env_MessageId D" and ?env = "Value req"
  obtain res k' where has: "set_Has D (acceptedCommands s) (?mid ?env) = (res, k')" by fastforce
  note hs = set_Has_cases [OF laws has]
  let ?s1 = "s\<lparr>acceptedCommands := k'\<rparr>"
  have d1: "sup_dur D base hist members ?s1" using dur hs(1) by (simp add: sup_dur_def)
  have e1: "at_end hist ?s1" using e by (simp add: at_end_def)
  show ?thesis
  proof (cases res)
    case (Err x)
    with run has d1 show ?thesis
      by (auto simp: sup_acceptCommand_def accept_ok_def acknowledge_fresh [OF fresh] replied_frame extends_def)
  next
    case (Panic t)
    with hs(3) show ?thesis by blast
  next
    case (Ok b)
    show ?thesis
    proof (cases b)
      case True
      then have "?mid ?env \<in> set (accepted_ids ?mid (hist (journal s)))"
        using hs(2) Ok dur by (auto simp: sup_dur_def)
      with True Ok run has d1 e1 c show ?thesis
        by (auto simp: sup_acceptCommand_def accept_ok_def acknowledge_fresh [OF fresh] replied_frame extends_def)
    next
      case False
      then have "?mid ?env \<notin> members (acceptedCommands ?s1)" using hs(1,2) Ok by auto
      moreover have "complete ?mid (hist (journal ?s1))" using c by simp
      ultimately have "accept_ok D base hist members req ?s1 r"
        using run has Ok False
        by (intro sup_accept_new [OF laws d1 e1 _ fresh]) (simp_all add: sup_acceptCommand_def Let_def accepted_record_def)
      then show ?thesis unfolding accept_ok_def by (cases r) simp_all
    qed
  qed
qed

section \<open>The contract of the machine\<close>

fun sup_case_requests :: "('env, 'x) supervisor_case \<Rightarrow> 'env option ack_request list" where
  "sup_case_requests (SupReceived req) = [req]"
| "sup_case_requests _ = []"

fun sup_state_requests :: "'env sup_state \<Rightarrow> 'env option ack_request list" where
  "sup_state_requests (AcceptCommand req) = [req]"
| "sup_state_requests _ = []"

definition sup_requests ::
  "'env sup_state \<Rightarrow> ('j, 'u, 'env, 'x, 'k, 'w, 'hid) supervisor \<Rightarrow> 'env option ack_request list" where
  "sup_requests q s = sup_state_requests q @ concat (map sup_case_requests (sup_cases s))"

definition sup_conf ::
  "('j, 'u, 'env, 'x, 'k, 'w, 'msg, 'ev, 'arg, 'hid) integration_deps \<Rightarrow> ('j \<Rightarrow> nat) \<Rightarrow>
   ('j \<Rightarrow> ('u, 'env) op_record list) \<Rightarrow> ('k \<Rightarrow> 'u option set) \<Rightarrow> ('u, 'env) op_record list \<Rightarrow> 'env option list \<Rightarrow> 'x option \<Rightarrow>
   'env option ack_request list \<Rightarrow> ('j, 'u, 'env, 'x, 'k, 'w, 'hid) supervisor \<Rightarrow> bool" where
  "sup_conf D base hist members h0 vals e reqs s \<longleftrightarrow>
     sup_dur D base hist members s \<and> extends hist h0 s \<and> list_all fresh_ack reqs \<and>
     list_all (reply_ok (env_MessageId D) (hist (journal s)) e) (replied s) \<and>
     map Value (replied s) @ map Value reqs = vals"

definition at_rest ::
  "('j, 'u, 'env, 'x, 'k, 'w, 'msg, 'ev, 'arg, 'hid) integration_deps \<Rightarrow>
   ('j \<Rightarrow> ('u, 'env) op_record list) \<Rightarrow> ('j, 'u, 'env, 'x, 'k, 'w, 'hid) supervisor \<Rightarrow> bool" where
  "at_rest D hist s \<longleftrightarrow> at_end hist s \<and> complete (env_MessageId D) (hist (journal s))"

definition sup_inv ::
  "('j, 'u, 'env, 'x, 'k, 'w, 'msg, 'ev, 'arg, 'hid) integration_deps \<Rightarrow> ('j \<Rightarrow> nat) \<Rightarrow>
   ('j \<Rightarrow> ('u, 'env) op_record list) \<Rightarrow> ('k \<Rightarrow> 'u option set) \<Rightarrow> ('u, 'env) op_record list \<Rightarrow> 'env option list \<Rightarrow>
   'env sup_state \<Rightarrow> ('j, 'u, 'env, 'x, 'k, 'w, 'hid) supervisor \<Rightarrow> bool" where
  "sup_inv D base hist members h0 vals q s \<longleftrightarrow>
     integration_laws D base hist members \<and> sup_conf D base hist members h0 vals None (sup_requests q s) s \<and>
     (if q = Recover then replied s = [] else at_rest D hist s)"

definition sup_post ::
  "('j, 'u, 'env, 'x, 'k, 'w, 'msg, 'ev, 'arg, 'hid) integration_deps \<Rightarrow> ('j \<Rightarrow> nat) \<Rightarrow>
   ('j \<Rightarrow> ('u, 'env) op_record list) \<Rightarrow> ('k \<Rightarrow> 'u option set) \<Rightarrow> ('u, 'env) op_record list \<Rightarrow> 'env option list \<Rightarrow>
   'x option \<Rightarrow> ('j, 'u, 'env, 'x, 'k, 'w, 'hid) supervisor \<Rightarrow> bool" where
  "sup_post D base hist members h0 vals e s \<longleftrightarrow>
     sup_conf D base hist members h0 vals e (sup_requests Idle s) s \<and> (e = None \<longrightarrow> at_rest D hist s)"

definition sup_paused ::
  "('j, 'u, 'env, 'x, 'k, 'w, 'msg, 'ev, 'arg, 'hid) integration_deps \<Rightarrow> ('j \<Rightarrow> nat) \<Rightarrow>
   ('j \<Rightarrow> ('u, 'env) op_record list) \<Rightarrow> ('k \<Rightarrow> 'u option set) \<Rightarrow> ('u, 'env) op_record list \<Rightarrow> 'env option list \<Rightarrow>
   ('j, 'u, 'env, 'x, 'k, 'w, 'hid) supervisor \<Rightarrow> bool" where
  "sup_paused D base hist members h0 vals s \<longleftrightarrow>
     sup_conf D base hist members h0 vals None (sup_requests Idle s) s \<and> at_rest D hist s \<and> sup_cases s = []"

lemma sup_conf_weaken:
  assumes "sup_conf D base hist members h0 vals None reqs s"
  shows "sup_conf D base hist members h0 vals e reqs s"
proof -
  have "reply_ok mid rs e req" if "reply_ok mid rs None req" for mid rs req
    using reply_ok_weaken [OF that, of "[]" e] by simp
  with assms show ?thesis unfolding sup_conf_def list_all_iff by blast
qed

lemma quiet_recover_pending:
  "sup_recover_pending D ah s = Done act s' \<Longrightarrow> quiet s s' \<and> act \<noteq> Stop"
  "sup_recover_pending D ah s = Panics t s' \<Longrightarrow> quiet s s'"
  by (auto simp: sup_recover_pending_def quiet_def split: prod.splits outcome.splits option.splits
      dest!: quiet_append_all quiet_handle_all)

lemma quiet_recover:
  "sup_recover D s = Done act s' \<Longrightarrow> quiet s s' \<and> act \<noteq> Stop"
  "sup_recover D s = Panics t s' \<Longrightarrow> quiet s s'"
  by (auto simp: sup_recover_def Let_def quiet_def split: prod.splits outcome.splits option.splits if_splits
      dest!: quiet_recover_pending)

lemma recover_extends:
  assumes "sup_conf D base hist members h0 vals None reqs s" and "quiet s s'" and "replied s = []"
    and "sup_dur D base hist members s'" and "extends hist (hist (journal s)) s'"
  shows "sup_conf D base hist members h0 vals e reqs s'"
  using assms extends_trans [of hist h0 s s'] by (auto simp: sup_conf_def quiet_def)

lemma sup_requests_quiet: "sup_cases s' = sup_cases s \<Longrightarrow> sup_requests q s' = sup_requests q s"
  by (simp add: sup_requests_def)

definition sup_crashed ::
  "('j, 'u, 'env, 'x, 'k, 'w, 'msg, 'ev, 'arg, 'hid) integration_deps \<Rightarrow> ('j \<Rightarrow> nat) \<Rightarrow>
   ('j \<Rightarrow> ('u, 'env) op_record list) \<Rightarrow> ('k \<Rightarrow> 'u option set) \<Rightarrow> ('u, 'env) op_record list \<Rightarrow> 'env option list \<Rightarrow>
   string \<Rightarrow> ('j, 'u, 'env, 'x, 'k, 'w, 'hid) supervisor \<Rightarrow> bool" where
  "sup_crashed D base hist members h0 vals t s \<longleftrightarrow>
     sup_conf D base hist members h0 vals None (sup_requests Idle s) s \<and> panic_at D (hist (journal s)) t"

definition sup_step_ok where
  "sup_step_ok D base hist members h0 vals r \<longleftrightarrow>
     (case r of
        Blocks s' \<Rightarrow> sup_paused D base hist members h0 vals s'
      | Panics t s' \<Rightarrow> sup_crashed D base hist members h0 vals t s'
      | Done act s' \<Rightarrow>
          (case act of
             Stop \<Rightarrow> sup_post D base hist members h0 vals (sup_ctx s') s'
           | Fail x \<Rightarrow> sup_post D base hist members h0 vals (Some x) s'
           | EnterState q' \<Rightarrow> sup_inv D base hist members h0 vals q' s'
           | _ \<Rightarrow> False))"

lemma sup_recover_step:
  assumes "sup_inv D base hist members h0 vals Recover s"
  shows "sup_step_ok D base hist members h0 vals (sup_recover D s)"
proof -
  have laws: "integration_laws D base hist members" and rep: "replied s = []"
    and conf: "sup_conf D base hist members h0 vals None (sup_requests Idle s) s"
    using assms by (simp_all add: sup_inv_def sup_requests_def)
  then have "sup_dur D base hist members s" by (simp add: sup_conf_def)
  note out = sup_recover_result [OF laws this]
  show ?thesis
  proof (cases "sup_recover D s")
    case (Done act s')
    have q: "quiet s s'" "act \<noteq> Stop" using quiet_recover(1) [OF Done] by blast+
    then have req: "sup_requests Idle s' = sup_requests Idle s"
      by (intro sup_requests_quiet) (simp add: quiet_def)
    note ext = recover_extends [OF conf q(1) rep]
    have rep': "replied s' = []" using q(1) rep by (simp add: quiet_def)
    show ?thesis using out q(2) ext rep' laws unfolding Done
      by (cases act) (auto simp: step_ok_def sup_step_ok_def sup_post_def sup_inv_def req at_rest_def)
  next
    case (Panics t s')
    have q: "quiet s s'" by (rule quiet_recover(2) [OF Panics])
    then have "sup_requests Idle s' = sup_requests Idle s" by (intro sup_requests_quiet) (simp add: quiet_def)
    with recover_extends [OF conf q rep] out show ?thesis unfolding Panics by (simp add: sup_step_ok_def sup_crashed_def)
  qed (use out in \<open>simp_all add: step_ok_def\<close>)
qed

lemma sup_idle_step:
  assumes "sup_inv D base hist members h0 vals Idle s"
  shows "sup_step_ok D base hist members h0 vals (sup_idle s)"
proof -
  have laws: "integration_laws D base hist members" and rest: "at_rest D hist s"
    and conf: "sup_conf D base hist members h0 vals None (sup_requests Idle s) s"
    using assms by (simp_all add: sup_inv_def)
  have same: "sup_conf D base hist members h0 vals e reqs (s\<lparr>sup_cases := cs\<rparr>) = sup_conf D base hist members h0 vals e reqs s"
    "sup_conf D base hist members h0 vals e reqs (s\<lparr>sup_cases := cs, sup_ctx := x\<rparr>) = sup_conf D base hist members h0 vals e reqs s"
    "at_rest D hist (s\<lparr>sup_cases := cs\<rparr>) = at_rest D hist s"
    "at_rest D hist (s\<lparr>sup_cases := cs, sup_ctx := x\<rparr>) = at_rest D hist s" for e reqs cs x
    by (simp_all add: sup_conf_def sup_dur_def at_rest_def at_end_def extends_def)
  have w: "sup_conf D base hist members h0 vals e (sup_requests Idle s) s" for e
    by (rule sup_conf_weaken [OF conf])
  show ?thesis
    using laws rest conf w
    by (auto simp: sup_idle_def With_def sup_step_ok_def sup_paused_def sup_post_def sup_inv_def sup_requests_def same
        split: list.splits supervisor_case.splits)
qed

lemma sup_accept_step:
  fixes D :: "('j, 'u, 'env, 'x, 'k, 'w, 'msg, 'ev, 'arg, 'hid) integration_deps"
  assumes "sup_inv D base hist members h0 vals (AcceptCommand req) s"
  shows "sup_step_ok D base hist members h0 vals (sup_acceptCommand D req s)"
proof -
  let ?mid = "env_MessageId D"
  have laws: "integration_laws D base hist members"
    and rest: "at_end hist s" "complete ?mid (hist (journal s))"
    and conf: "sup_conf D base hist members h0 vals None (req # sup_requests Idle s) s"
    using assms by (simp_all add: sup_inv_def sup_requests_def at_rest_def)
  then have dur: "sup_dur D base hist members s" and fresh: "fresh_ack req"
    and tail: "list_all fresh_ack (sup_requests Idle s)"
    and rep: "list_all (reply_ok ?mid (hist (journal s)) (None :: 'x option)) (replied s)"
    and vals: "vals = map Value (replied s) @ Value req # map Value (sup_requests Idle s)"
    by (simp_all add: sup_conf_def)
  note out = sup_acceptCommand_result [OF laws dur rest fresh refl, unfolded accept_ok_def]
  show ?thesis
  proof (cases "sup_acceptCommand D req s")
    case (Done act s')
    obtain a where cs: "sup_cases s' = sup_cases s" and a: "replied s' = replied s @ [acked req a]"
        "if a = None then ?mid (Value req) \<in> set (accepted_ids ?mid (hist (journal s'))) else \<exists>x. act = Fail x"
      and ok: "step_ok D base hist members (hist (journal s)) (Done act s')"
      using out unfolding Done by auto
    have ext: "extends hist (hist (journal s)) s'"
      using ok by (auto simp: step_ok_def split: action.splits)
    then obtain rs where h: "hist (journal s') = hist (journal s) @ rs" by (auto simp: extends_def)
    have ext0: "extends hist h0 s'" using conf ext extends_trans by (auto simp: sup_conf_def)
    have req: "sup_requests Idle s' = sup_requests Idle s" by (rule sup_requests_quiet [OF cs])
    have conf': "sup_conf D base hist members h0 vals e (sup_requests Idle s') s'"
      if "sup_dur D base hist members s'" "a \<noteq> None \<Longrightarrow> e \<noteq> None" for e
    proof -
      have "list_all (reply_ok ?mid (hist (journal s')) e) (replied s)"
        using rep unfolding list_all_iff h by (blast intro: reply_ok_weaken)
      moreover have "reply_ok ?mid (hist (journal s')) e (acked req a)"
        using a(2) that(2) by (auto simp: reply_ok_def acked_def)
      ultimately show ?thesis using that(1) ext0 tail a(1) vals req by (simp add: sup_conf_def acked_def)
    qed
    show ?thesis using ok a(2) conf' laws unfolding Done
      by (cases act) (auto simp: step_ok_def sup_step_ok_def sup_post_def sup_inv_def at_rest_def split: if_splits)
  next
    case (Panics t s')
    have cs: "sup_cases s' = sup_cases s" and a: "replied s' = replied s @ [acked req None]"
        "?mid (Value req) \<in> set (accepted_ids ?mid (hist (journal s')))"
      and d: "sup_dur D base hist members s'" "extends hist (hist (journal s)) s'" "panic_at D (hist (journal s')) t"
      using out unfolding Panics by auto
    obtain rs where h: "hist (journal s') = hist (journal s) @ rs" using d(2) by (auto simp: extends_def)
    have ext0: "extends hist h0 s'" using conf d(2) extends_trans by (auto simp: sup_conf_def)
    have "list_all (reply_ok ?mid (hist (journal s')) (None :: 'x option)) (replied s)"
      using rep unfolding list_all_iff h by (blast intro: reply_ok_weaken)
    moreover have "reply_ok ?mid (hist (journal s')) (None :: 'x option) (acked req None)"
      using a(2) by (simp add: reply_ok_def acked_def)
    ultimately show ?thesis unfolding Panics
      using d ext0 tail a(1) vals sup_requests_quiet [OF cs]
      by (simp add: sup_step_ok_def sup_crashed_def sup_conf_def acked_def)
  qed (use out in simp_all)
qed

lemma sup_step: "sup_inv D base hist members h0 vals q s \<Longrightarrow> sup_step_ok D base hist members h0 vals (sup_machine D q s)"
  using sup_recover_step sup_idle_step sup_accept_step by (cases q) auto

interpretation sup_fsm: fsm_contract "sup_machine D" sup_ctx "sup_inv D base hist members h0 vals"
  "sup_post D base hist members h0 vals" "sup_paused D base hist members h0 vals"
  "sup_crashed D base hist members h0 vals"
  for D base hist members h0 vals
proof
  fix q s s' x q' t
  assume "sup_inv D base hist members h0 vals q s"
  note step = sup_step [OF this, unfolded sup_step_ok_def]
  show "sup_machine D q s = Done Stop s' \<Longrightarrow> sup_post D base hist members h0 vals (sup_ctx s') s'"
    using step by simp
  show "sup_machine D q s = Done (Fail x) s' \<Longrightarrow> sup_post D base hist members h0 vals (Some x) s'"
    using step by simp
  show "sup_machine D q s = Done StayInCurrentState s' \<Longrightarrow> sup_inv D base hist members h0 vals q s'"
    using step by simp
  show "sup_machine D q s = Done (EnterState q') s' \<Longrightarrow> sup_inv D base hist members h0 vals q' s'"
    using step by simp
  show "sup_machine D q s \<noteq> Done NoAction s'" using step by auto
  show "sup_machine D q s = Panics t s' \<Longrightarrow> sup_crashed D base hist members h0 vals t s'" using step by simp
  show "sup_machine D q s = Blocks s' \<Longrightarrow> sup_paused D base hist members h0 vals s'" using step by simp
qed

text \<open>Every turn of the machine uses up a case of \<open>idle\<close>, or leaves \<open>recover\<close>.\<close>

fun sup_meas :: "'env sup_state \<Rightarrow> ('j, 'u, 'env, 'x, 'k, 'w, 'hid) supervisor \<Rightarrow> nat" where
  "sup_meas Idle s = 2 * length (sup_cases s)"
| "sup_meas _ s = 2 * length (sup_cases s) + 1"

lemma acknowledge_Done:
  "acknowledge req sent s f = Done act s' \<Longrightarrow> \<exists>c. f (s\<lparr>replied := replied s @ [req\<lparr>Acknowledgement := c\<rparr>]\<rparr>) = Done act s'"
  by (auto simp: acknowledge_def split: chan_op.splits)

lemma sup_accept_quiet:
  assumes "sup_acceptCommand D req s = Done act s'"
  shows "sup_cases s' = sup_cases s \<and> act \<noteq> StayInCurrentState \<and> (\<forall>q. act = EnterState q \<longrightarrow> q = Idle)"
  using assms
  by (auto simp: sup_acceptCommand_def Let_def quiet_def
      split: prod.splits outcome.splits if_splits dest!: acknowledge_Done quiet_append quiet_handleCommand)

lemma sup_machine_meas:
  assumes "sup_machine D q s = Done act s'"
  shows "act \<noteq> StayInCurrentState \<and> (\<forall>q'. act = EnterState q' \<longrightarrow> sup_meas q' s' < sup_meas q s)"
proof (cases q)
  case Recover
  then have r: "sup_recover D s = Done act s'" using assms by simp
  have "act \<noteq> StayInCurrentState \<and> (\<forall>q'. act = EnterState q' \<longrightarrow> q' = Idle)"
    using r by (auto simp: sup_recover_def sup_recover_pending_def Let_def
        split: prod.splits outcome.splits option.splits if_splits)
  moreover have "sup_cases s' = sup_cases s" using quiet_recover(1) [OF r] by (simp add: quiet_def)
  ultimately show ?thesis using Recover by auto
next
  case Idle
  with assms show ?thesis by (auto simp: sup_idle_def With_def split: list.splits supervisor_case.splits)
next
  case (AcceptCommand req)
  with assms sup_accept_quiet [of D req s act s'] show ?thesis by auto
qed

interpretation sup_fsm: fsm_progress "sup_machine D" sup_ctx sup_meas
  for D
  by unfold_locales (use sup_machine_meas in blast)+

section \<open>Runs and restarts\<close>

text \<open>
  \<open>ended vals e s\<close>: what holds when \<open>Run\<close> returns \<open>e\<close> in the state \<open>s\<close>,
  where \<open>vals\<close> are the commands of all requests it could receive.
\<close>

definition ended ::
  "('j, 'u, 'env, 'x, 'k, 'w, 'msg, 'ev, 'arg, 'hid) integration_deps \<Rightarrow> ('j \<Rightarrow> nat) \<Rightarrow>
   ('j \<Rightarrow> ('u, 'env) op_record list) \<Rightarrow> ('k \<Rightarrow> 'u option set) \<Rightarrow> ('u, 'env) op_record list \<Rightarrow> 'env option list \<Rightarrow>
   'x option \<Rightarrow> ('j, 'u, 'env, 'x, 'k, 'w, 'hid) supervisor \<Rightarrow> bool" where
  "ended D base hist members h0 vals e s \<longleftrightarrow>
     sup_dur D base hist members s \<and> extends hist h0 s \<and>
     list_all (reply_ok (env_MessageId D) (hist (journal s)) e) (replied s) \<and>
     map Value (replied s) @ map Value (sup_requests Idle s) = vals \<and>
     (e = None \<longrightarrow> complete (env_MessageId D) (hist (journal s)))"

text \<open>
  \<open>crashed vals t s\<close>: what holds when it panics instead. All replies so far are positive, and the
  panic is one of handling a command that is accepted and not yet handled.
\<close>

definition crashed ::
  "('j, 'u, 'env, 'x, 'k, 'w, 'msg, 'ev, 'arg, 'hid) integration_deps \<Rightarrow> ('j \<Rightarrow> nat) \<Rightarrow>
   ('j \<Rightarrow> ('u, 'env) op_record list) \<Rightarrow> ('k \<Rightarrow> 'u option set) \<Rightarrow> ('u, 'env) op_record list \<Rightarrow> 'env option list \<Rightarrow>
   string \<Rightarrow> ('j, 'u, 'env, 'x, 'k, 'w, 'hid) supervisor \<Rightarrow> bool" where
  "crashed D base hist members h0 vals t s \<longleftrightarrow>
     sup_dur D base hist members s \<and> extends hist h0 s \<and>
     list_all (reply_ok (env_MessageId D) (hist (journal s)) (None :: 'x option)) (replied s) \<and>
     map Value (replied s) @ map Value (sup_requests Idle s) = vals \<and>
     panic_at D (hist (journal s)) t"

lemma sup_Run_result:
  assumes laws: "integration_laws D base hist members" and dur: "sup_dur D base hist members s"
    and rep: "replied s = []" and fresh: "list_all fresh_ack (sup_requests Idle s)"
  shows "case sup_Run D opened s of
      Some (Returned e s') \<Rightarrow>
        opened \<noteq> None \<and> e = opened \<and> s' = s \<or>
        ended D base hist members (hist (journal s)) (map Value (sup_requests Idle s)) e s'
    | Some (Blocked s') \<Rightarrow>
        ended D base hist members (hist (journal s)) (map Value (sup_requests Idle s)) None s' \<and>
        map Value (replied s') = map Value (sup_requests Idle s)
    | Some (Panicked t s') \<Rightarrow> crashed D base hist members (hist (journal s)) (map Value (sup_requests Idle s)) t s'
    | None \<Rightarrow> False"
proof (cases opened)
  case (Some x)
  then show ?thesis by (simp add: sup_Run_def)
next
  case None
  let ?vals = "map Value (sup_requests Idle s)"
  have "sup_requests Recover s = sup_requests Idle s" by (simp add: sup_requests_def)
  then have inv: "sup_inv D base hist members (hist (journal s)) ?vals Recover s"
    using assms by (simp add: sup_inv_def sup_conf_def)
  obtain r where r: "Start (sup_machine D) sup_ctx Recover None s = Some r"
    using sup_fsm.Start_returns by blast
  note ok = sup_fsm.Start_ok [OF inv r, unfolded sup_fsm.run_ok_def]
  have run: "sup_Run D opened s = Some r" using None r by (simp add: sup_Run_def)
  have pend: "ended D base hist members (hist (journal s)) ?vals None s' \<and> map Value (replied s') = ?vals"
    if "sup_paused D base hist members (hist (journal s)) ?vals s'" for s'
    using that by (auto simp: sup_paused_def at_rest_def ended_def sup_conf_def sup_requests_def)
  show ?thesis
  proof (cases r)
    case (Returned e s')
    with ok show ?thesis unfolding run by (auto simp: sup_post_def sup_conf_def ended_def at_rest_def)
  next
    case (Panicked t s')
    with ok show ?thesis unfolding run by (simp add: sup_crashed_def sup_conf_def crashed_def)
  next
    case (Blocked s')
    with ok pend show ?thesis unfolding run by simp
  qed
qed

definition acknowledged :: "('j, 'u, 'env, 'x, 'k, 'w, 'hid) supervisor \<Rightarrow> 'env option list" where
  "acknowledged s = map Value (filter (\<lambda>r. buffer (Acknowledgement r) = [None]) (replied s))"

text \<open>
  The life of a handler over any number of runs, on one or more supervisor objects: a run starts
  from the journal, the set and the log of the last one; everything else, in particular the
  memory of the supervisor and the world outside, may have changed. A run that was waiting may
  have been killed (killing it at another point leaves the durable state as a failure of its
  next external call does), and a run that panicked has taken its process with it.
\<close>

definition restarted ::
  "('j, 'u, 'env, 'x, 'k, 'w, 'hid) supervisor \<Rightarrow> ('j, 'u, 'env, 'x, 'k, 'w, 'hid) supervisor \<Rightarrow> bool" where
  "restarted s s' \<longleftrightarrow> journal s' = journal s \<and> acceptedCommands s' = acceptedCommands s \<and>
     appends s' = appends s \<and> replied s' = [] \<and> list_all fresh_ack (sup_requests Idle s')"

inductive sup_runs ::
  "('j, 'u, 'env, 'x, 'k, 'w, 'msg, 'ev, 'arg, 'hid) integration_deps \<Rightarrow>
   ('j, 'u, 'env, 'x, 'k, 'w, 'hid) supervisor \<Rightarrow> 'env option list \<Rightarrow>
   ('j, 'u, 'env, 'x, 'k, 'w, 'hid) supervisor \<Rightarrow> bool"
  for D s where
  none: "sup_runs D s [] s"
| returned: "sup_runs D s acks s1 \<Longrightarrow> restarted s1 s2 \<Longrightarrow> sup_Run D opened s2 = Some (Returned e s3) \<Longrightarrow>
     sup_runs D s (acks @ acknowledged s3) s3"
| killed: "sup_runs D s acks s1 \<Longrightarrow> restarted s1 s2 \<Longrightarrow> sup_Run D opened s2 = Some (Blocked s3) \<Longrightarrow>
     sup_runs D s (acks @ acknowledged s3) s3"
| panicked: "sup_runs D s acks s1 \<Longrightarrow> restarted s1 s2 \<Longrightarrow> sup_Run D opened s2 = Some (Panicked t s3) \<Longrightarrow>
     sup_runs D s (acks @ acknowledged s3) s3"

lemma crashed_acknowledged:
  assumes "crashed D base hist members h0 vals t s" "v \<in> set (acknowledged s)"
  shows "env_MessageId D v \<in> set (accepted_ids (env_MessageId D) (hist (journal s)))"
  using assms by (auto simp: crashed_def acknowledged_def list_all_iff reply_ok_def split: if_splits)

lemma ended_acknowledged:
  assumes "ended D base hist members h0 vals e s" "v \<in> set (acknowledged s)"
  shows "env_MessageId D v \<in> set (accepted_ids (env_MessageId D) (hist (journal s)))"
  using assms by (auto simp: ended_def acknowledged_def list_all_iff reply_ok_def split: if_splits)

lemma sup_Run_dur:
  assumes laws: "integration_laws D base hist members" and dur: "sup_dur D base hist members s1"
    and re: "restarted s1 s2" and run: "sup_Run D opened s2 = Some r"
    and r: "r = Returned e s3 \<or> r = Blocked s3 \<or> r = Panicked t s3"
  shows "sup_dur D base hist members s3 \<and> extends hist (hist (journal s1)) s3 \<and>
    (\<forall>v \<in> set (acknowledged s3). env_MessageId D v \<in> set (accepted_ids (env_MessageId D) (hist (journal s3))))"
proof -
  have d2: "sup_dur D base hist members s2" using dur re by (simp add: sup_dur_def restarted_def)
  have h: "hist (journal s2) = hist (journal s1)" "replied s2 = []" "list_all fresh_ack (sup_requests Idle s2)"
    using re by (simp_all add: restarted_def)
  from sup_Run_result [OF laws d2 h(2,3), of opened] run r consider
      "s3 = s2" | e' where "ended D base hist members (hist (journal s2)) (map Value (sup_requests Idle s2)) e' s3"
    | "crashed D base hist members (hist (journal s2)) (map Value (sup_requests Idle s2)) t s3"
    by (auto split: run_result.splits)
  then show ?thesis
  proof cases
    case 1
    with d2 h show ?thesis by (simp add: extends_def acknowledged_def)
  next
    case 2
    with ended_acknowledged [OF 2] h(1) show ?thesis by (simp add: ended_def)
  next
    case 3
    with crashed_acknowledged [OF 3] h(1) show ?thesis by (simp add: crashed_def)
  qed
qed

lemma extends_accepted:
  "extends hist rs s \<Longrightarrow> set (accepted_ids mid rs) \<subseteq> set (accepted_ids mid (hist (journal s)))"
  by (auto simp: extends_def)

lemma sup_runs_step:
  assumes "integration_laws D base hist members" and "restarted s1 s2"
    and "sup_Run D opened s2 = Some r" and "r = Returned e s3 \<or> r = Blocked s3 \<or> r = Panicked t s3"
    and IH: "sup_dur D base hist members s1 \<and> extends hist h0 s1 \<and>
      (\<forall>v \<in> set acks. env_MessageId D v \<in> set (accepted_ids (env_MessageId D) (hist (journal s1))))"
  shows "sup_dur D base hist members s3 \<and> extends hist h0 s3 \<and>
    (\<forall>v \<in> set (acks @ acknowledged s3).
       env_MessageId D v \<in> set (accepted_ids (env_MessageId D) (hist (journal s3))))"
proof -
  have new: "sup_dur D base hist members s3 \<and> extends hist (hist (journal s1)) s3 \<and>
    (\<forall>v \<in> set (acknowledged s3). env_MessageId D v \<in> set (accepted_ids (env_MessageId D) (hist (journal s3))))"
    by (rule sup_Run_dur [OF assms(1) _ assms(2-4)]) (use IH in blast)
  then have "set (accepted_ids (env_MessageId D) (hist (journal s1))) \<subseteq>
      set (accepted_ids (env_MessageId D) (hist (journal s3)))"
    using extends_accepted by blast
  moreover have "extends hist h0 s3" using IH new extends_trans by blast
  ultimately show ?thesis using IH new by (auto simp del: set_map)
qed

lemma sup_runs_result:
  assumes laws: "integration_laws D base hist members" and dur: "sup_dur D base hist members s"
    and runs: "sup_runs D s acks s'"
  shows "sup_dur D base hist members s' \<and> extends hist (hist (journal s)) s' \<and>
    (\<forall>v \<in> set acks. env_MessageId D v \<in> set (accepted_ids (env_MessageId D) (hist (journal s'))))"
  using runs
proof (induction rule: sup_runs.induct)
  case none
  with dur show ?case by simp
next
  case (returned acks s1 s2 opened e s3)
  show ?case by (rule sup_runs_step [OF laws returned.hyps(2,3) _ returned.IH]) simp
next
  case (killed acks s1 s2 opened s3)
  show ?case by (rule sup_runs_step [OF laws killed.hyps(2,3) _ killed.IH]) simp
next
  case (panicked acks s1 s2 opened t s3)
  show ?case by (rule sup_runs_step [OF laws panicked.hyps(2,3) _ panicked.IH]) simp
qed

lemma sup_dur_start:
  assumes "integration_laws D base hist members" "hist (journal s) = []" "members (acceptedCommands s) = {}"
    "appends s = []"
  shows "sup_dur D base hist members s"
proof -
  have "base (journal s) = 0"
    using journal_size(1) [of D base hist "journal s"] assms by (simp add: integration_laws_def)
  with assms show ?thesis by (simp add: sup_dur_def truncated_ok_def complete_def pending_accepted_def pending_handled_def)
qed

section \<open>A handler in memory\<close>

text \<open>
  The witnesses run a handler over the journal of \<open>Mem_Journal\<close> and a set held in a list.
  Messages are numbers, their envelopes and identifiers too, and those below 100 are commands;
  command \<open>n\<close> makes the handler log a line and record event \<open>n + 100\<close>. The world outside is the next offset of the
  one event stream.
\<close>

definition integ_mem ::
  "((nat, nat) op_record mem_journal, nat, nat, mem_err, nat option list, nat, nat, nat, unit, unit) integration_deps" where
  "integ_mem = \<lparr>j_Bounds = mem_Bounds, j_Range = mem_Range, j_Append = mem_Append,
     j_Truncate = mem_Truncate, j_LastRecord = mem_LastRecord, j_ScanFromSearchResult = mem_Scan,
     j_IsNotFound = (\<lambda>x. x = ErrNotFound),
     set_Has = (\<lambda>k u. (Ok (u \<in> set k), k)), set_Add = (\<lambda>k u. (None, u # k)),
     env_MessageId = (\<lambda>env. env), uuid_Equal = (=),
     Unpack = (\<lambda>env. case env of None \<Rightarrow> Err ErrInduced | Some n \<Rightarrow> Ok n),
     is_Command = (\<lambda>cmd. cmd < 100),
     Pack = (\<lambda>e hid cause w. (e, w)),
     HandleCommand = (\<lambda>cmd w. (([Log ''handling'' [], RecordEvent (cmd + 100)], Ok ()), w)),
     SelectEventStream = (\<lambda>w. ((Some 0, of_nat w, None), w)),
     AppendEvents = (\<lambda>req w. ((\<lparr>BeginOffset = of_nat w, EndOffset = of_nat (w + length (req_Events req)),
       AppendedByPriorAttempt = False\<rparr>, None), w + length (req_Events req)))\<rparr>"

lemma integ_mem_laws: "integration_laws integ_mem mem_base mem_hist set"
proof -
  have "journal_laws integ_mem mem_base mem_hist"
    by (rule journal_laws_fields [OF mem_journal_laws]; simp add: integ_mem_def mem_journal_api_def)
  then show ?thesis
    by (auto simp: integration_laws_def uuids_ok_def law_Has_def law_Add_def integ_mem_def split: option.splits)
qed

lemma integ_mem_fields:
  "set_Has integ_mem k u = (Ok (u \<in> set k), k)" "set_Add integ_mem k u = (None, u # k)"
  "env_MessageId integ_mem env = env" "Unpack integ_mem (Some n) = Ok n"
  "assert_Command integ_mem n = (if n < 100 then Ok n else Panic ''interface conversion: not a dogma.Command'')"
  "Pack integ_mem e hid cause w = (e, w)"
  "HandleCommand integ_mem cmd w = (([Log ''handling'' [], RecordEvent (cmd + 100)], Ok ()), w)"
  "SelectEventStream integ_mem w = ((Some 0, of_nat w, None), w)"
  "AppendEvents integ_mem req w = ((\<lparr>BeginOffset = of_nat w, EndOffset = of_nat (w + length (req_Events req)),
     AppendedByPriorAttempt = False\<rparr>, None), w + length (req_Events req))"
  by (simp_all add: integ_mem_def assert_Command_def)

definition integ_journal :: "(nat, nat) op_record list \<Rightarrow> (nat, nat) op_record mem_journal" where
  "integ_journal rs = \<lparr>mbase = 0, mhist = rs, mfaults = []\<rparr>"

definition integ_state ::
  "(nat, mem_err) supervisor_case list \<Rightarrow>
   ((nat, nat) op_record mem_journal, nat, nat, mem_err, nat option list, nat, unit) supervisor" where
  "integ_state cs = \<lparr>journal = integ_journal [], acceptedCommands = [],
     outside = 3, HandlerIdentity = (), journalPos = 0, eventStreamID = None, eventOffsetHint = 0,
     sup_cases = cs, replied = [], appends = [], sup_ctx = None\<rparr>"

lemma integ_journal_hist: "length rs < 3 \<Longrightarrow> mem_hist (integ_journal rs) = rs" "mem_base (integ_journal rs) = 0"
  by (simp_all add: mem_hist_def mem_base_def integ_journal_def)

lemma integ_append:
  assumes "journal s = integ_journal rs" "unat (journalPos s) = length rs" "length rs < 3"
  shows "sup_append integ_mem r s =
    (Ok (), s\<lparr>journal := integ_journal (rs @ [r]), journalPos := journalPos s + 1\<rparr>)"
proof -
  have "mem_Append (integ_journal rs) (journalPos s) r = (None, integ_journal (rs @ [r]))"
    using assms integ_journal_hist
    by (simp add: mem_Append_def mem_fault_def mem_next_def Let_def) (simp add: integ_journal_def)
  then show ?thesis using assms(1) by (simp add: sup_append_def) (simp add: integ_mem_def)
qed

lemma integ_recover:
  "sup_recover integ_mem (integ_state cs) = Done (EnterState Idle) (integ_state cs)"
  by (simp add: sup_recover_def sup_recover_pending_def integ_mem_def integ_state_def mem_Bounds_def
      mem_Truncate_def mem_fault_def mem_next_def integ_journal_def mem_base_def mem_hist_def)

definition integ_op :: "(nat, nat) CommandHandled" where
  "integ_op = \<lparr>ch_CommandId = Some 7, ch_Events = [107], ch_EventStreamId = Some 0, ch_OffsetHint = 3\<rparr>"

definition integ_accepted ::
  "(nat, mem_err) supervisor_case list \<Rightarrow>
   ((nat, nat) op_record mem_journal, nat, nat, mem_err, nat option list, nat, unit) supervisor" where
  "integ_accepted cs = \<lparr>journal = integ_journal [accepted_record (Some 7), handled_record integ_op, events_record (Some 7)],
     acceptedCommands = [Some 7], outside = 4, HandlerIdentity = (), journalPos = 3,
     eventStreamID = Some 0, eventOffsetHint = 4, sup_cases = cs,
     replied = [acked (Queue_New (Some 7)) None], appends = [(append_request (Some integ_op), Some \<lparr>BeginOffset = 3, EndOffset = 4, AppendedByPriorAttempt = False\<rparr>)], sup_ctx = None\<rparr>"

lemma integ_handle_command:
  "sup_handleCommand integ_mem (Some 7) ((integ_state cs)\<lparr>journal := integ_journal [accepted_record (Some 7)],
     journalPos := 1, replied := [acked (Queue_New (Some 7)) None]\<rparr>) = (Ok (), integ_accepted cs)"
proof -
  have op: "zero_CommandHandled\<lparr>ch_CommandId := Some 7, ch_Events := [107], ch_EventStreamId := Some 0,
      ch_OffsetHint := 3\<rparr> = integ_op" by (simp add: zero_CommandHandled_def integ_op_def)
  have op': "integ_op\<lparr>ch_CommandId := Some 7, ch_Events := [107], ch_EventStreamId := Some 0,
      ch_OffsetHint := 3\<rparr> = integ_op" by (simp add: integ_op_def)
  show ?thesis
    by (simp add: sup_handleCommand_def Let_def integ_mem_fields run_scope_def select_stream_def integ_state_def
        integ_append op flip: handled_record_def)
      (simp add: sup_appendEvents_def Let_def integ_mem_fields same_pointer_def append_request_def
        integ_append integ_op_def integ_accepted_def flip: events_record_def)
qed

lemma integ_handle:
  "sup_acceptCommand integ_mem (Queue_New (Some 7)) (integ_state cs) = Done (EnterState Idle) (integ_accepted cs)"
proof -
  have fresh: "fresh_ack (Queue_New (Some (7 :: nat)))" by (simp add: fresh_ack_def Queue_New_def)
  have val: "Value (Queue_New (Some (7 :: nat))) = Some 7" by (simp add: Queue_New_def)
  have k: "acceptedCommands (integ_state cs) = []" "(integ_state cs)\<lparr>acceptedCommands := []\<rparr> = integ_state cs"
    "replied (integ_state cs) = []"
    by (simp_all add: integ_state_def)
  have app: "sup_append integ_mem (accepted_record (Some 7)) (integ_state cs) =
      (Ok (), (integ_state cs)\<lparr>journal := integ_journal [accepted_record (Some 7)], journalPos := 1\<rparr>)"
    by (subst integ_append [of _ "[]"]) (simp_all add: integ_state_def)
  show ?thesis
    unfolding sup_acceptCommand_def Let_def val integ_mem_fields k accepted_record_def [symmetric] app
    by (simp add: acknowledge_fresh [OF fresh] k app integ_handle_command)
qed

definition integ_start ::
  "((nat, nat) op_record mem_journal, nat, nat, mem_err, nat option list, nat, unit) supervisor" where
  "integ_start = integ_state [SupReceived (Queue_New (Some 7)), SupShutdown]"

lemma integ_run: "sup_Run integ_mem None integ_start = Some (Returned None (integ_accepted []))"
proof -
  let ?m = "\<lambda>q. \<lparr>current = Some q, final = None, err = None\<rparr> :: (nat sup_state, mem_err) fsm"
  let ?loop = "fsm_loop (sup_machine integ_mem) sup_ctx"
  let ?req = "Queue_New (Some 7) :: nat option ack_request"
  have "sup_Run integ_mem None integ_start = ?loop (?m Recover) (integ_state [SupReceived ?req, SupShutdown])"
    by (simp add: sup_Run_def Start_def integ_start_def)
  also have "\<dots> = ?loop (?m Idle) (integ_state [SupReceived ?req, SupShutdown])"
    by (rule fsm_loop_turns(2)) (simp add: fsm_turn_def execute_def integ_recover)
  also have "\<dots> = ?loop (?m (AcceptCommand ?req)) (integ_state [SupShutdown])"
    by (rule fsm_loop_turns(2)) (simp add: fsm_turn_def execute_def sup_idle_def With_def integ_state_def)
  also have "\<dots> = ?loop (?m Idle) (integ_accepted [SupShutdown])"
    by (rule fsm_loop_turns(2)) (simp add: fsm_turn_def execute_def integ_handle)
  also have "\<dots> = ?loop \<lparr>current = None, final = None, err = None\<rparr> (integ_accepted [])"
    by (rule fsm_loop_turns(2)) (simp add: fsm_turn_def execute_def sup_idle_def With_def integ_accepted_def)
  also have "\<dots> = Some (Returned None (integ_accepted []))"
    by (simp add: fsm_loop_turns(1) [OF fsm_turn_stopped])
  finally show ?thesis .
qed

text \<open>A message that is not a command is accepted and acknowledged before the assertion panics.\<close>

definition integ_bad ::
  "((nat, nat) op_record mem_journal, nat, nat, mem_err, nat option list, nat, unit) supervisor" where
  "integ_bad = integ_state [SupReceived (Queue_New (Some 100))]"

definition integ_crashed ::
  "((nat, nat) op_record mem_journal, nat, nat, mem_err, nat option list, nat, unit) supervisor" where
  "integ_crashed = (integ_state [])\<lparr>journal := integ_journal [accepted_record (Some 100)], journalPos := 1,
     replied := [acked (Queue_New (Some 100)) None], acceptedCommands := [Some 100]\<rparr>"

lemma integ_bad_accept:
  "sup_acceptCommand integ_mem (Queue_New (Some 100)) (integ_state []) =
     Panics ''interface conversion: not a dogma.Command'' integ_crashed"
proof -
  have fresh: "fresh_ack (Queue_New (Some (100 :: nat)))" by (simp add: fresh_ack_def Queue_New_def)
  have val: "Value (Queue_New (Some (100 :: nat))) = Some 100" by (simp add: Queue_New_def)
  have k: "acceptedCommands (integ_state []) = []" "(integ_state [])\<lparr>acceptedCommands := []\<rparr> = integ_state []"
    "replied (integ_state []) = []"
    by (simp_all add: integ_state_def)
  have app: "sup_append integ_mem (accepted_record (Some 100)) (integ_state []) =
      (Ok (), (integ_state [])\<lparr>journal := integ_journal [accepted_record (Some 100)], journalPos := 1\<rparr>)"
    by (subst integ_append [of _ "[]"]) (simp_all add: integ_state_def)
  show ?thesis
    unfolding sup_acceptCommand_def Let_def val integ_mem_fields k accepted_record_def [symmetric] app
    by (simp add: acknowledge_fresh [OF fresh] k app sup_handleCommand_def Let_def integ_mem_fields)
      (simp add: integ_crashed_def integ_state_def)
qed

lemma integ_bad_run:
  "sup_Run integ_mem None integ_bad = Some (Panicked ''interface conversion: not a dogma.Command'' integ_crashed)"
proof -
  let ?m = "\<lambda>q. \<lparr>current = Some q, final = None, err = None\<rparr> :: (nat sup_state, mem_err) fsm"
  let ?loop = "fsm_loop (sup_machine integ_mem) sup_ctx"
  let ?req = "Queue_New (Some 100) :: nat option ack_request"
  have "sup_Run integ_mem None integ_bad = ?loop (?m Recover) (integ_state [SupReceived ?req])"
    by (simp add: sup_Run_def Start_def integ_bad_def)
  also have "\<dots> = ?loop (?m Idle) (integ_state [SupReceived ?req])"
    by (rule fsm_loop_turns(2)) (simp add: fsm_turn_def execute_def integ_recover)
  also have "\<dots> = ?loop (?m (AcceptCommand ?req)) (integ_state [])"
    by (rule fsm_loop_turns(2)) (simp add: fsm_turn_def execute_def sup_idle_def With_def integ_state_def)
  also have "\<dots> = Some (Panicked ''interface conversion: not a dogma.Command'' integ_crashed)"
    by (rule fsm_loop_turns(1)) (simp add: fsm_turn_def execute_def integ_bad_accept)
  finally show ?thesis .
qed

lemma integ_start_ok:
  "mem_hist (journal integ_start) = []" "set (acceptedCommands integ_start) = {}" "appends integ_start = []"
  "replied integ_start = []" "list_all fresh_ack (sup_requests Idle integ_start)" "restarted integ_start integ_start"
  by (simp_all add: integ_start_def integ_state_def integ_journal_hist sup_requests_def fresh_ack_def Queue_New_def
      restarted_def)

lemma integ_runs: "sup_runs integ_mem integ_start [Some 7] (integ_accepted [])"
proof -
  have "acknowledged (integ_accepted []) = [Some 7]"
    by (simp add: acknowledged_def integ_accepted_def acked_def Queue_New_def)
  with sup_runs.returned [OF sup_runs.none integ_start_ok(6) integ_run] show ?thesis by simp
qed

lemma integ_hist:
  "mem_hist (journal (integ_accepted [])) = [accepted_record (Some 7), handled_record integ_op, events_record (Some 7)]"
  by (simp add: integ_accepted_def integ_journal_def mem_hist_def)

text \<open>
  The supervisor is a server of acknowledged commands. A run is the state in which it started,
  from what earlier runs left, and how it ended: it returned, waits, or panicked.
\<close>

type_synonym ('j, 'u, 'env, 'x, 'k, 'w, 'hid) sup_run =
  "('j, 'u, 'env, 'x, 'k, 'w, 'hid) supervisor \<times> ('x, ('j, 'u, 'env, 'x, 'k, 'w, 'hid) supervisor) run_result"

definition sup_ran ::
  "('j, 'u, 'env, 'x, 'k, 'w, 'msg, 'ev, 'arg, 'hid) integration_deps \<Rightarrow> ('j \<Rightarrow> nat) \<Rightarrow>
   ('j \<Rightarrow> ('u, 'env) op_record list) \<Rightarrow> ('k \<Rightarrow> 'u option set) \<Rightarrow> ('j, 'u, 'env, 'x, 'k, 'w, 'hid) sup_run \<Rightarrow> bool" where
  "sup_ran D base hist members w \<longleftrightarrow>
     integration_laws D base hist members \<and> sup_dur D base hist members (fst w) \<and> replied (fst w) = [] \<and>
     list_all fresh_ack (sup_requests Idle (fst w)) \<and> sup_Run D None (fst w) = Some (snd w)"

definition sup_asked :: "('j, 'u, 'env, 'x, 'k, 'w, 'hid) sup_run \<Rightarrow> 'env option list" where
  "sup_asked w = received (map Value (sup_requests Idle (fst w))) (map Value (sup_requests Idle (run_world (snd w))))"

definition sup_replies :: "('j, 'u, 'env, 'x, 'k, 'w, 'hid) sup_run \<Rightarrow> ('env option \<times> ack_error option) list" where
  "sup_replies w = replies_on Value (\<lambda>r. buffer (Acknowledgement r)) (replied (run_world (snd w)))"

definition sup_truthful ::
  "('j, 'u, 'env, 'x, 'k, 'w, 'msg, 'ev, 'arg, 'hid) integration_deps \<Rightarrow> ('j \<Rightarrow> ('u, 'env) op_record list) \<Rightarrow>
   ('j, 'u, 'env, 'x, 'k, 'w, 'hid) sup_run \<Rightarrow> 'env option \<Rightarrow> ack_error option \<Rightarrow> bool" where
  "sup_truthful D hist w v a \<longleftrightarrow>
     (if a = None
      then env_MessageId D v \<in> set (accepted_ids (env_MessageId D) (hist (journal (run_world (snd w)))))
      else \<exists>x s'. snd w = Returned (Some x) s')"

lemma sup_ran_ended:
  assumes "sup_ran D base hist members (s, r)" and "r = Returned e s' \<or> r = Blocked s' \<and> e = None"
  shows "ended D base hist members (hist (journal s)) (map Value (sup_requests Idle s)) e s'"
  using sup_Run_result [of D base hist members s None] assms by (auto simp: sup_ran_def)

lemma reply_ok_truthful:
  assumes "reply_ok (env_MessageId D) (hist (journal (run_world r))) e q" and "e \<noteq> None \<Longrightarrow> \<exists>x s'. r = Returned (Some x) s'"
  shows "\<exists>a. buffer (Acknowledgement q) = [a] \<and> sup_truthful D hist (s, r) (Value q) a"
proof -
  obtain a where a: "buffer (Acknowledgement q) = [a]"
    "if a = None then env_MessageId D (Value q) \<in> set (accepted_ids (env_MessageId D) (hist (journal (run_world r)))) else e \<noteq> None"
    using assms(1) unfolding reply_ok_def by blast
  then have "sup_truthful D hist (s, r) (Value q) a" using assms(2) by (cases a) (simp_all add: sup_truthful_def)
  with a(1) show ?thesis by blast
qed

lemma sup_ran_replies:
  assumes ran: "sup_ran D base hist members (s, r)"
  shows "list_all (\<lambda>q. \<exists>a. buffer (Acknowledgement q) = [a] \<and> sup_truthful D hist (s, r) (Value q) a) (replied (run_world r))"
    and "map Value (replied (run_world r)) @ map Value (sup_requests Idle (run_world r)) = map Value (sup_requests Idle s)"
proof -
  have "list_all (\<lambda>q. \<exists>a. buffer (Acknowledgement q) = [a] \<and> sup_truthful D hist (s, r) (Value q) a) (replied (run_world r)) \<and>
    map Value (replied (run_world r)) @ map Value (sup_requests Idle (run_world r)) = map Value (sup_requests Idle s)"
  proof (cases r)
    case (Returned e s')
    with sup_ran_ended [OF ran, of e s'] have en: "ended D base hist members (hist (journal s)) (map Value (sup_requests Idle s)) e s'"
      by simp
    have "\<exists>x s''. r = Returned (Some x) s''" if "e \<noteq> None" using that Returned by auto
    note rt = reply_ok_truthful [where r = r and e = e and D = D and hist = hist and s = s, OF _ this]
    show ?thesis using en rt unfolding Returned run_world.simps ended_def list_all_iff by blast
  next
    case (Blocked s')
    with sup_ran_ended [OF ran, of None s'] have en: "ended D base hist members (hist (journal s)) (map Value (sup_requests Idle s)) None s'"
      by simp
    note rt = reply_ok_truthful [where r = r and e = None and D = D and hist = hist and s = s]
    show ?thesis using en rt unfolding Blocked run_world.simps ended_def list_all_iff by blast
  next
    case (Panicked t s')
    then have "crashed D base hist members (hist (journal s)) (map Value (sup_requests Idle s)) t s'"
      using sup_Run_result [of D base hist members s None] ran by (simp add: sup_ran_def)
    note cr = this
    note rt = reply_ok_truthful [where r = r and e = None and D = D and hist = hist and s = s]
    show ?thesis using cr rt unfolding Panicked run_world.simps crashed_def list_all_iff by blast
  qed
  then show "list_all (\<lambda>q. \<exists>a. buffer (Acknowledgement q) = [a] \<and> sup_truthful D hist (s, r) (Value q) a) (replied (run_world r))"
    "map Value (replied (run_world r)) @ map Value (sup_requests Idle (run_world r)) = map Value (sup_requests Idle s)"
    by blast+
qed

interpretation sup_srv: server "sup_ran D base hist members" sup_asked sup_replies "sup_truthful D hist"
  for D base hist members
proof
  fix w assume good: "sup_ran D base hist members w"
  obtain s r where w: "w = (s, r)" by fastforce
  note once = sup_ran_replies [OF good [unfolded w]]
  have "sup_asked w = map Value (replied (run_world r))" using once(2) by (simp add: sup_asked_def w received_prefix)
  then show "map fst (sup_replies w) = sup_asked w"
    by (simp add: sup_replies_def w replies_on_once [OF once(1)])
  fix v a assume "(v, a) \<in> set (sup_replies w)"
  then have "(v, a) \<in> set (replies_on Value (\<lambda>r. buffer (Acknowledgement r)) (replied (run_world r)))"
    by (simp add: sup_replies_def w)
  from replies_on_mem [OF once(1) this] show "sup_truthful D hist w v a" unfolding w by blast
qed

lemma sup_replies_acknowledged:
  "(v, None) \<in> set (sup_replies (s, r)) \<Longrightarrow> sup_ran D base hist members (s, r) \<Longrightarrow> v \<in> set (acknowledged (run_world r))"
  using replies_on_mem [OF sup_ran_replies(1), of D base hist members s r v None]
  by (force simp: sup_replies_def acknowledged_def)

lemma restarted_ran:
  assumes "integration_laws D base hist members"
    and "hist (journal s) = []" and "members (acceptedCommands s) = {}" and "appends s = []"
    and "sup_runs D s acks s1" and "restarted s1 s2" and "sup_Run D None s2 = Some r"
  shows "sup_ran D base hist members (s2, r)"
  using sup_runs_result [OF assms(1) sup_dur_start [OF assms(1-4)] assms(5)] assms(1,6,7)
  by (auto simp: sup_ran_def sup_dur_def restarted_def)

lemma restarted_ended:
  assumes "integration_laws D base hist members"
    and "hist (journal s) = []" and "members (acceptedCommands s) = {}" and "appends s = []"
    and "sup_runs D s acks s1" and "restarted s1 s2"
    and "sup_Run D None s2 = Some (Returned None s3) \<or> sup_Run D None s2 = Some (Blocked s3)"
  shows "ended D base hist members (hist (journal s2)) (map Value (sup_requests Idle s2)) None s3"
  using assms(7) restarted_ran [OF assms(1-6)] sup_ran_ended by blast

text \<open>A run takes the history of runs one further, and histories follow one another.\<close>

lemma sup_runs_run:
  "sup_runs D s acks s1 \<Longrightarrow> restarted s1 s2 \<Longrightarrow> sup_Run D opened s2 = Some r \<Longrightarrow>
   sup_runs D s (acks @ acknowledged (run_world r)) (run_world r)"
  by (cases r) (auto intro: sup_runs.intros)

lemma sup_runs_trans:
  assumes "sup_runs D s acks s1" and "sup_runs D s1 acks' s2"
  shows "sup_runs D s (acks @ acks') s2"
  using assms(2,1)
proof (induction rule: sup_runs.induct)
  case (returned acks1 s2 s3 opened e s4)
  from sup_runs.returned [OF returned.IH [OF returned.prems] returned.hyps(2,3)] show ?case by simp
next
  case (killed acks1 s2 s3 opened s4)
  from sup_runs.killed [OF killed.IH [OF killed.prems] killed.hyps(2,3)] show ?case by simp
next
  case (panicked acks1 s2 s3 opened t s4)
  from sup_runs.panicked [OF panicked.IH [OF panicked.prems] panicked.hyps(2,3)] show ?case by simp
qed simp

lemma acknowledged_handled:
  assumes "integration_laws D base hist members"
    and "hist (journal s) = []" and "members (acceptedCommands s) = {}" and "appends s = []"
    and "sup_runs D s acks s1" and "restarted s1 s2"
    and "sup_Run D None s2 = Some (Returned None s3) \<or> sup_Run D None s2 = Some (Blocked s3)"
    and "v \<in> set (acks @ acknowledged s3)"
  shows "\<exists>h \<in> set (handled_ops (hist (journal s3))). ch_CommandId h = env_MessageId D v \<and>
    (ch_Events h \<noteq> [] \<longrightarrow> env_MessageId D v \<in> set (appended_ids (hist (journal s3))))"
proof -
  note r = sup_runs_result [OF assms(1) sup_dur_start [OF assms(1-4)] assms(5)]
  have h2: "hist (journal s2) = hist (journal s1)" using assms(6) by (simp add: restarted_def)
  note en = restarted_ended [OF assms(1-7)]
  then have c: "complete (env_MessageId D) (hist (journal s3))"
    and ex: "extends hist (hist (journal s1)) s3" by (simp_all add: ended_def h2)
  have "env_MessageId D v \<in> set (accepted_ids (env_MessageId D) (hist (journal s3)))"
  proof -
    have "v \<in> set acks \<or> v \<in> set (acknowledged s3)" using assms(8) by simp
    then show ?thesis using ended_acknowledged [OF en] r extends_accepted [OF ex, of "env_MessageId D"] by blast
  qed
  then have "env_MessageId D v \<in> set (handled_ids (hist (journal s3)))" using complete_accepted [OF c] by blast
  then obtain h where h: "h \<in> set (handled_ops (hist (journal s3)))" "ch_CommandId h = env_MessageId D v" by auto
  then have "ch_Events h \<noteq> [] \<longrightarrow> ch_CommandId h \<in> set (appended_ids (hist (journal s3)))"
    using c unfolding complete_def pending_handled_def filter_empty_conv by blast
  with h show ?thesis by auto
qed

lemma handled_ops_unique:
  assumes "sup_dur D base hist members s"
    and "op \<in> set (handled_ops (hist (journal s)))" "op' \<in> set (handled_ops (hist (journal s)))"
    and "ch_CommandId op' = ch_CommandId op"
  shows "op' = op"
proof -
  have "distinct (handled_ids (hist (journal s)))" using hist_wf_facts [OF sup_dur_wf [OF assms(1)]] by blast
  then have "inj_on ch_CommandId (set (handled_ops (hist (journal s))))" by (simp add: distinct_map)
  with assms(2-) show ?thesis by (auto dest: inj_onD)
qed

section \<open>Properties\<close>

text \<open>
C6: At most once in the journal, whatever happens. Over any number of runs, with any failures
of the journal, the set, the handler and the event recorder, panics, restarts, kills and truncations, a
command is accepted at most once, handled at most once and only after it was accepted, and its
events are recorded as appended at most once and only after it was handled with events.
\<close>

theorem commands_at_most_once:
  assumes "integration_laws D base hist members"
    and "hist (journal s) = []" and "members (acceptedCommands s) = {}" and "appends s = []"
    and "sup_runs D s acks s'"
  shows "distinct (accepted_ids (env_MessageId D) (hist (journal s'))) \<and>
    distinct (handled_ids (hist (journal s'))) \<and> distinct (appended_ids (hist (journal s'))) \<and>
    set (handled_ids (hist (journal s'))) \<subseteq> set (accepted_ids (env_MessageId D) (hist (journal s'))) \<and>
    (\<forall>i \<in> set (appended_ids (hist (journal s'))).
       \<exists>h \<in> set (handled_ops (hist (journal s'))). ch_CommandId h = i \<and> ch_Events h \<noteq> [])"
  using hist_wf_facts [OF sup_dur_wf] sup_runs_result [OF assms(1) sup_dur_start [OF assms(1-4)] assms(5)]
  by blast

theorem commands_at_most_once_witness:
  "distinct (accepted_ids (env_MessageId integ_mem) (mem_hist (journal (integ_accepted [])))) \<and>
     handled_ids (mem_hist (journal (integ_accepted []))) = [Some 7] \<and>
     appended_ids (mem_hist (journal (integ_accepted []))) = [Some 7]"
  using commands_at_most_once [OF integ_mem_laws integ_start_ok(1-3) integ_runs]
  by (simp add: integ_hist integ_op_def)

text \<open>
C2: No acknowledged command is lost. After any history of runs, when a further run stops without
an error or waits for more, every command that was ever acknowledged, in this run or before, has
been handled, and if it produced events they have been appended to their stream.
\<close>

theorem acknowledged_commands_complete:
  assumes "integration_laws D base hist members"
    and "hist (journal s) = []" and "members (acceptedCommands s) = {}" and "appends s = []"
    and "sup_runs D s acks s1" and "restarted s1 s2"
    and "sup_Run D None s2 = Some (Returned None s3) \<or> sup_Run D None s2 = Some (Blocked s3)"
    and "v \<in> set (acks @ acknowledged s3)"
  shows "\<exists>h \<in> set (handled_ops (hist (journal s3))). ch_CommandId h = env_MessageId D v \<and>
    (ch_Events h \<noteq> [] \<longrightarrow> env_MessageId D v \<in> set (appended_ids (hist (journal s3))))"
  by (rule acknowledged_handled [OF assms])

theorem acknowledged_commands_complete_witness:
  "sup_Run integ_mem None integ_start = Some (Returned None (integ_accepted [])) \<and>
   (\<exists>h \<in> set (handled_ops (mem_hist (journal (integ_accepted [])))). ch_CommandId h = Some 7)"
proof -
  have v: "Some 7 \<in> set ([] @ acknowledged (integ_accepted []))"
    by (simp add: acknowledged_def integ_accepted_def acked_def Queue_New_def)
  have r: "sup_Run integ_mem None integ_start = Some (Returned None (integ_accepted [])) \<or>
      sup_Run integ_mem None integ_start = Some (Blocked (integ_accepted []))" using integ_run by simp
  from acknowledged_commands_complete [OF integ_mem_laws integ_start_ok(1-3) sup_runs.none integ_start_ok(6) r v]
  show ?thesis using integ_run by (auto simp: integ_mem_fields)
qed

text \<open>
C10: Appends are retried identically. Every request that was ever made of the event recorder, by
whatever run, is the one stored in the journal for its command, and there is only one for each
command: a retry has the same stream, the same events and the same offset hint as the first try,
which is what the deduplication of the event stream relies on.
\<close>

theorem append_requests_stored:
  assumes "integration_laws D base hist members"
    and "hist (journal s) = []" and "members (acceptedCommands s) = {}" and "appends s = []"
    and "sup_runs D s acks s'" and "(req, v) \<in> set (appends s')"
  shows "\<exists>op \<in> set (handled_ops (hist (journal s'))). req = append_request (Some op) \<and>
    (\<forall>op' \<in> set (handled_ops (hist (journal s'))). ch_CommandId op' = ch_CommandId op \<longrightarrow> op' = op)"
proof -
  have d: "sup_dur D base hist members s'"
    using sup_runs_result [OF assms(1) sup_dur_start [OF assms(1-4)] assms(5)] by blast
  with assms(6) obtain op where "op \<in> set (handled_ops (hist (journal s')))" "req = append_request (Some op)"
    by (auto simp: sup_dur_def)
  then show ?thesis using handled_ops_unique [OF d] by blast
qed

theorem append_requests_stored_witness:
  "\<exists>op \<in> set (handled_ops (mem_hist (journal (integ_accepted [])))).
     \<lparr>StreamID = Some 0, req_Events = [107], OffsetHint = 3\<rparr> = append_request (Some op)"
proof -
  have "\<lparr>StreamID = Some 0, req_Events = [107], OffsetHint = 3\<rparr> \<in> fst ` set (appends (integ_accepted []))"
    by (simp add: integ_accepted_def append_request_def integ_op_def)
  then show ?thesis using append_requests_stored [OF integ_mem_laws integ_start_ok(1-3) integ_runs] by fastforce
qed

text \<open>
C8: One run. It always ends, waits or panics; it replies to the requests it receives in order,
once each, and leaves the rest untouched; a positive reply is sent only once the command is in
the journal, and a negative one only when \<open>Run\<close> returns an error. If it ends without an error,
or waits, nothing is pending. It panics only while it handles a command that is in the journal as
accepted and not as handled, and then because unpacking the envelope panics, because the message
in it is not a command, or because the handler panics; the journal is then as well formed as
ever, and every reply that was sent is positive.
\<close>

theorem sup_Run_contract:
  fixes D :: "('j, 'u, 'env, 'x, 'k, 'w, 'msg, 'ev, 'arg, 'hid) integration_deps"
  assumes "integration_laws D base hist members" and "sup_dur D base hist members s"
    and "replied s = []" and "list_all fresh_ack (sup_requests Idle s)"
  shows "case sup_Run D opened s of
      Some (Returned e s') \<Rightarrow>
        opened \<noteq> None \<and> e = opened \<and> s' = s \<or>
        ended D base hist members (hist (journal s)) (map Value (sup_requests Idle s)) e s'
    | Some (Blocked s') \<Rightarrow>
        ended D base hist members (hist (journal s)) (map Value (sup_requests Idle s)) None s' \<and>
        map Value (replied s') = map Value (sup_requests Idle s)
    | Some (Panicked t s') \<Rightarrow>
        sup_dur D base hist members s' \<and> extends hist (hist (journal s)) s' \<and>
        list_all (reply_ok (env_MessageId D) (hist (journal s')) (None :: 'x option)) (replied s') \<and>
        map Value (replied s') @ map Value (sup_requests Idle s') = map Value (sup_requests Idle s) \<and>
        (\<exists>a \<in> set (pending_accepted (env_MessageId D) (hist (journal s'))). handler_panics D (ca_Command a) t)
    | None \<Rightarrow> False"
  using sup_Run_result [OF assms, of opened]
  by (auto simp: crashed_def panic_at_def split: option.splits run_result.splits)

theorem sup_Run_contract_witness:
  "ended integ_mem mem_base mem_hist set [] [Some 7] None (integ_accepted []) \<and>
   list_all (reply_ok (env_MessageId integ_mem) (mem_hist (journal integ_crashed)) (None :: mem_err option)) (replied integ_crashed) \<and>
   handler_panics integ_mem (Some 100) ''interface conversion: not a dogma.Command''"
proof -
  have "sup_dur integ_mem mem_base mem_hist set integ_start"
    by (rule sup_dur_start [OF integ_mem_laws integ_start_ok(1-3)])
  from sup_Run_contract [OF integ_mem_laws this integ_start_ok(4,5), of None]
  have "ended integ_mem mem_base mem_hist set [] [Some 7] None (integ_accepted [])"
    by (simp add: integ_run integ_start_ok(1)) (simp add: integ_start_def integ_state_def sup_requests_def Queue_New_def)
  moreover have "sup_dur integ_mem mem_base mem_hist set integ_bad"
    by (rule sup_dur_start [OF integ_mem_laws]) (simp_all add: integ_bad_def integ_state_def integ_journal_hist)
  note sup_Run_contract [OF integ_mem_laws this, of None, unfolded integ_bad_run]
  moreover have "replied integ_bad = []" "list_all fresh_ack (sup_requests Idle integ_bad)"
    by (simp_all add: integ_bad_def integ_state_def sup_requests_def fresh_ack_def Queue_New_def)
  moreover have "mem_hist (journal integ_crashed) = [accepted_record (Some 100)]"
    by (simp add: integ_crashed_def integ_state_def integ_journal_hist)
  ultimately show ?thesis by (simp add: pending_accepted_def)
qed

text \<open>
C9: Recovery computes what is pending. On the journal of a well-formed history, of which
truncation has removed any part of a completed prefix, the scan of \<open>recover\<close> finds, in
order, exactly the commands that were accepted but not handled and, among the handled ones with
events, exactly those whose events are not recorded as appended, and the end of the journal.
\<close>

theorem recover_finds_pending:
  assumes "uuids_ok D" and "hist_wf (env_MessageId D) rs" and "truncated_ok (env_MessageId D) b rs"
    and "b < length rs"
  shows "case recover_scan D (positioned b rs) p ([], []) of
      (Ok (acc, hnd), p') \<Rightarrow> acc = map Some (pending_accepted (env_MessageId D) rs) \<and>
        filter (\<lambda>op. ch_GetEvents op \<noteq> []) hnd = map Some (pending_handled rs) \<and> p' = of_nat (length rs)
    | _ \<Rightarrow> False"
  using recover_scan_all [OF assms(2,1,4)] recover_of_pending [OF assms(2,3)]
  by (cases "recover_of (env_MessageId D) b rs") simp

theorem recover_finds_pending_witness:
  "\<exists>hnd. recover_scan integ_mem (positioned 0 [accepted_record (Some 7), accepted_record (Some 8),
       handled_record integ_op]) 0 ([], []) = (Ok ([Some \<lparr>ca_Command = Some 8\<rparr>], hnd), 3)"
proof -
  let ?rs = "[accepted_record (Some 7), accepted_record (Some 8), handled_record integ_op]"
  have ids: "uuids_ok integ_mem" using integ_mem_laws by (simp add: integration_laws_def)
  have "hist_wf (env_MessageId integ_mem) ?rs"
    by (simp add: hist_wf_def less_Suc_eq rec_ok_def accepted_id_def integ_mem_fields integ_op_def)
  moreover have "truncated_ok (env_MessageId integ_mem) 0 ?rs"
    unfolding truncated_ok_def
    by (rule exI [of _ 0]) (simp add: complete_def pending_accepted_def pending_handled_def)
  ultimately show ?thesis
    using recover_finds_pending [OF ids, of ?rs 0 0]
    by (auto simp: pending_accepted_def accepted_id_def integ_mem_fields integ_op_def
        split: prod.splits outcome.splits)
qed

end
