(* ===== verification/Integration_Restart.thy ===== *)
theory Integration_Restart
  imports Integration_Correct
begin

text \<open>
  Restarts of an integration supervisor with nothing to recover (\<open>Supervisor.recover\<close> of
  \<open>internal/integration/supervisor.go\<close>): what the last run has finished is not done again.
\<close>

section \<open>Nothing but the journal is touched\<close>

definition untouched ::
  "('j \<Rightarrow> ('u, 'env) op_record list) \<Rightarrow> ('j, 'u, 'env, 'x, 'k, 'w, 'hid) supervisor \<Rightarrow>
   ('j, 'u, 'env, 'x, 'k, 'w, 'hid) supervisor \<Rightarrow> bool" where
  "untouched hist s s' \<longleftrightarrow> hist (journal s') = hist (journal s) \<and> acceptedCommands s' = acceptedCommands s \<and>
     outside s' = outside s \<and> appends s' = appends s \<and> replied s' = replied s"

text \<open>Operations that were handled without events are skipped.\<close>

lemma append_all_nothing:
  "\<forall>op \<in> set ops. ch_Events op = [] \<Longrightarrow> append_all D (map Some ops) s = (Ok (), s)"
  by (induction ops) (simp_all add: sup_appendEvents_def)

lemma recover_nothing:
  fixes D :: "('j, 'u, 'env, 'x, 'k, 'w, 'msg, 'ev, 'arg, 'hid) integration_deps"
  assumes J: "journal_laws D base hist" and ops: "\<forall>op \<in> set ops. ch_Events op = []"
    and p: "unat (journalPos s) \<le> length (hist (journal s))"
  shows "\<exists>act s'. sup_recover_pending D ([], map Some ops) s = Done act s' \<and>
    (act = EnterState Idle \<or> (\<exists>x. act = Fail x)) \<and> untouched hist s s' \<and> sup_cases s' = sup_cases s"
proof -
  obtain e j' where tr: "j_Truncate D (journal s) (journalPos s) = (e, j')" by fastforce
  show ?thesis
    using journal_Truncate [OF J tr p] tr
    by (cases e) (auto simp: sup_recover_pending_def append_all_nothing [OF ops] untouched_def)
qed

lemma sup_recover_complete:
  assumes laws: "integration_laws D base hist members" and dur: "sup_dur D base hist members s"
    and c: "complete (env_MessageId D) (hist (journal s))"
  shows "\<exists>act s'. sup_recover D s = Done act s' \<and>
    (act = EnterState Idle \<or> (\<exists>x. act = Fail x)) \<and> untouched hist s s' \<and> sup_cases s' = sup_cases s"
proof (rule sup_recover_cases [OF laws dur])
  fix x j' p assume "sup_recover D s = Done (Fail x) (s\<lparr>journal := j', journalPos := p\<rparr>)"
    "hist j' = hist (journal s)"
  then show ?thesis by (simp add: untouched_def)
next
  fix ops j' p assume r: "sup_recover D s = sup_recover_pending D
        (map Some (pending_accepted (env_MessageId D) (hist (journal s))), map Some ops) (s\<lparr>journal := j', journalPos := p\<rparr>)"
    and j: "hist j' = hist (journal s)" "unat p = length (hist (journal s))"
    and ops: "filter (\<lambda>h. ch_Events h \<noteq> []) ops = pending_handled (hist (journal s))"
  have J: "journal_laws D base hist" using laws by (simp add: integration_laws_def)
  have "pending_accepted (env_MessageId D) (hist (journal s)) = []" "\<forall>op \<in> set ops. ch_Events op = []"
    using c ops by (auto simp: complete_def filter_empty_conv)
  with recover_nothing [OF J, of ops "s\<lparr>journal := j', journalPos := p\<rparr>"] r j
  show ?thesis by (auto simp: untouched_def)
qed

text \<open>A run without requests: recovery, and then the machine waits or stops.\<close>

lemma sup_Run_nothing:
  assumes laws: "integration_laws D base hist members" and dur: "sup_dur D base hist members s"
    and c: "complete (env_MessageId D) (hist (journal s))" and none: "sup_requests Idle s = []"
  shows "case sup_Run D None s of
      Some (Returned e s') \<Rightarrow> untouched hist s s'
    | Some (Blocked s') \<Rightarrow> untouched hist s s'
    | _ \<Rightarrow> False"
proof -
  let ?m = "\<lambda>q. \<lparr>current = q, final = None, err = None\<rparr> :: ('env sup_state, 'x) fsm"
  obtain act s1 where rec: "sup_recover D s = Done act s1" "untouched hist s s1" "sup_cases s1 = sup_cases s"
    and act: "act = EnterState Idle \<or> (\<exists>x. act = Fail x)" using sup_recover_complete [OF laws dur c] by blast
  have run: "sup_Run D None s = fsm_loop (sup_machine D) sup_ctx (apply_action (sup_ctx s1) act (?m (Some Recover))) s1"
    unfolding sup_Run_def Start_def option.case
    by (rule fsm_loop_turns(2)) (use rec(1) act in \<open>auto simp: fsm_turn_def execute_def\<close>)
  show ?thesis
  proof (cases "\<exists>x. act = Fail x")
    case True
    then show ?thesis unfolding run using rec(2) by (auto simp: fsm_loop_turns(1) [OF fsm_turn_stopped])
  next
    case False
    then have idle: "sup_Run D None s = fsm_loop (sup_machine D) sup_ctx (?m (Some Idle)) s1"
      unfolding run using act by auto
    show ?thesis
    proof (cases "sup_cases s1")
      case Nil
      then have "fsm_turn (sup_machine D) sup_ctx (?m (Some Idle)) s1 = Inl (Blocked s1)"
        by (simp add: fsm_turn_def execute_def sup_idle_def)
      from fsm_loop_turns(1) [OF this] idle rec(2) show ?thesis by simp
    next
      case (Cons k ks)
      then have "\<forall>req. k \<noteq> SupReceived req" using none rec(3) by (auto simp: sup_requests_def)
      then obtain s2 where "sup_idle s1 = Done Stop s2" "untouched hist s s2"
        using Cons rec(2) by (cases k) (auto simp: sup_idle_def untouched_def)
      then have "fsm_turn (sup_machine D) sup_ctx (?m (Some Idle)) s1 = Inr (?m None\<lparr>err := sup_ctx s2\<rparr>, s2)"
        "untouched hist s s2"
        by (simp_all add: fsm_turn_def execute_def)
      from fsm_loop_turns(2) [OF this(1)] this(2) idle show ?thesis by (simp add: fsm_loop_turns(1) [OF fsm_turn_stopped])
    qed
  qed
qed

section \<open>Properties\<close>

text \<open>
C7: What is done is not done again. After any history of runs, when a run of the supervisor has
stopped without an error or is waiting and is killed, the next one, if it receives no command,
leaves the history of the journal and the set of accepted commands as they are, calls neither
the handler nor the event recorder, and sends no reply, even if calls of the journal fail.
\<close>

theorem restart_does_nothing:
  assumes "integration_laws D base hist members"
    and "hist (journal s) = []" and "members (acceptedCommands s) = {}" and "appends s = []"
    and "sup_runs D s acks s1" and "restarted s1 s2"
    and "sup_Run D None s2 = Some (Returned None s3) \<or> sup_Run D None s2 = Some (Blocked s3)"
    and "restarted s3 s4" and "sup_requests Idle s4 = []"
  shows "case sup_Run D None s4 of
      Some (Returned e s') \<Rightarrow> untouched hist s4 s'
    | Some (Blocked s') \<Rightarrow> untouched hist s4 s'
    | _ \<Rightarrow> False"
proof -
  note en = restarted_ended [OF assms(1-7), unfolded ended_def]
  then have "sup_dur D base hist members s4" "complete (env_MessageId D) (hist (journal s4))"
    using assms(8) by (simp_all add: sup_dur_def restarted_def)
  from sup_Run_nothing [OF assms(1) this assms(9)] show ?thesis .
qed

text \<open>The handler of the example, restarted after its run and told to shut down.\<close>

definition integ_again ::
  "((nat, nat) op_record mem_journal, nat, nat, mem_err, nat option list, nat, unit) supervisor" where
  "integ_again = (integ_accepted [SupShutdown])\<lparr>replied := []\<rparr>"

theorem restart_does_nothing_witness:
  "case sup_Run integ_mem None integ_again of
      Some (Returned e s') \<Rightarrow> untouched mem_hist integ_again s'
    | Some (Blocked s') \<Rightarrow> untouched mem_hist integ_again s'
    | _ \<Rightarrow> False"
proof -
  have "restarted (integ_accepted []) integ_again" "sup_requests Idle integ_again = []"
    by (simp_all add: restarted_def integ_again_def integ_accepted_def sup_requests_def)
  from restart_does_nothing [OF integ_mem_laws integ_start_ok(1-3) sup_runs.none integ_start_ok(6) _ this] integ_run
  show ?thesis by blast
qed

end
