(* ===== verification/Integration_Liveness.thy ===== *)
theory Integration_Liveness
  imports Integration_Correct
begin

text \<open>
  Liveness of the integration supervisor (\<open>internal/integration/supervisor.go\<close>): when the calls
  it makes succeed, nothing fails. It recovers, accepts and handles every command that it reads,
  and stops only because it is told to.
\<close>

section \<open>Calls that succeed\<close>

text \<open>
  \<open>up j\<close>: the journal in state \<open>j\<close> works, which it goes on to do. It then appends at its end as
  long as there are positions left.
\<close>

definition journal_works ::
  "('j, 'u, 'env, 'x, 'k, 'w, 'msg, 'ev, 'arg, 'hid) integration_deps \<Rightarrow> ('j \<Rightarrow> nat) \<Rightarrow>
   ('j \<Rightarrow> ('u, 'env) op_record list) \<Rightarrow> ('j \<Rightarrow> bool) \<Rightarrow> bool" where
  "journal_works D base hist up \<longleftrightarrow> (\<forall>j. up j \<longrightarrow>
     (\<exists>be j'. j_Bounds D j = (Ok be, j') \<and> up j') \<and>
     (\<forall>p. base j \<le> unat p \<and> unat p < length (hist j) \<longrightarrow> (\<exists>rs j'. j_Range D j p = ((rs, None), j') \<and> up j')) \<and>
     (\<forall>p r. unat p = length (hist j) \<and> Suc (length (hist j)) < 2 ^ 64 \<longrightarrow> (\<exists>j'. j_Append D j p r = (None, j') \<and> up j')) \<and>
     (\<forall>p. unat p \<le> length (hist j) \<longrightarrow> (\<exists>j'. j_Truncate D j p = (None, j') \<and> up j')))"

definition supervisor_works ::
  "('j, 'u, 'env, 'x, 'k, 'w, 'msg, 'ev, 'arg, 'hid) integration_deps \<Rightarrow> ('j \<Rightarrow> nat) \<Rightarrow>
   ('j \<Rightarrow> ('u, 'env) op_record list) \<Rightarrow> ('j \<Rightarrow> bool) \<Rightarrow> bool" where
  "supervisor_works D base hist up \<longleftrightarrow> journal_laws D base hist \<and> journal_works D base hist up \<and>
     (\<forall>k u. \<exists>b k'. set_Has D k u = (Ok b, k')) \<and> (\<forall>k u. \<exists>k'. set_Add D k u = (None, k')) \<and>
     (\<forall>w. \<exists>i off w'. SelectEventStream D w = ((i, off, None), w')) \<and>
     (\<forall>req w. \<exists>res w'. AppendEvents D req w = ((res, None), w'))"

text \<open>The envelope holds a command, and the handler handles it.\<close>

definition handles ::
  "('j, 'u, 'env, 'x, 'k, 'w, 'msg, 'ev, 'arg, 'hid) integration_deps \<Rightarrow> 'env option \<Rightarrow> bool" where
  "handles D env \<longleftrightarrow> (\<exists>msg. Unpack D env = Ok msg \<and> is_Command D msg \<and>
     (\<forall>w. \<exists>calls w'. HandleCommand D msg w = ((calls, Ok ()), w')))"

text \<open>The supervisor is at the end of a journal that works and has room for \<open>n\<close> more records.\<close>

definition ready ::
  "('j \<Rightarrow> ('u, 'env) op_record list) \<Rightarrow> ('j \<Rightarrow> bool) \<Rightarrow> nat \<Rightarrow> ('j, 'u, 'env, 'x, 'k, 'w, 'hid) supervisor \<Rightarrow> bool" where
  "ready hist up n s \<longleftrightarrow> up (journal s) \<and> at_end hist s \<and> length (hist (journal s)) + n < 2 ^ 64"

lemma ready_le: "ready hist up m s \<Longrightarrow> n \<le> m \<Longrightarrow> ready hist up n s"
  by (simp add: ready_def)

lemma ready_frame:
  "journal s' = journal s \<Longrightarrow> journalPos s' = journalPos s \<Longrightarrow> ready hist up n s' = ready hist up n s"
  by (simp add: ready_def at_end_def)

lemma worksD:
  assumes "supervisor_works D base hist up"
  shows "journal_laws D base hist" "journal_works D base hist up"
    and "\<exists>b k'. set_Has D k u = (Ok b, k')" and "\<exists>k'. set_Add D k u = (None, k')"
    and "\<exists>i off w'. SelectEventStream D w = ((i, off, None), w')"
    and "\<exists>res w'. AppendEvents D req w = ((res, None), w')"
  using assms unfolding supervisor_works_def by blast+

section \<open>Operations\<close>

lemma sup_append_works:
  assumes works: "supervisor_works D base hist up" and rd: "ready hist up (Suc n) s"
  shows "\<exists>s'. sup_append D r s = (Ok (), s') \<and> ready hist up n s'"
proof -
  have up: "up (journal s)" and pos: "unat (journalPos s) = length (hist (journal s))"
    and room: "Suc (length (hist (journal s))) + n < 2 ^ 64"
    using rd by (simp_all add: ready_def at_end_def)
  obtain j' where app: "j_Append D (journal s) (journalPos s) r = (None, j')" "up j'"
    using worksD(2) [OF works] up pos room unfolding journal_works_def by (meson add_lessD1)
  have h: "hist j' = hist (journal s) @ [r]"
    using journal_Append(2) [OF worksD(1) [OF works] app(1)] pos by simp
  have "unat (journalPos s + 1) = Suc (length (hist (journal s)))"
    using unat_Suc_u64 [of "journalPos s"] pos room by simp
  with app h room show ?thesis by (simp add: sup_append_def ready_def at_end_def)
qed

lemma sup_appendEvents_works:
  assumes works: "supervisor_works D base hist up"
    and rd: "ready hist up (n + (if ch_GetEvents op = [] then 0 else 1)) s"
  shows "\<exists>s'. sup_appendEvents D sh op s = (Ok (), s') \<and> ready hist up n s'"
proof (cases "ch_GetEvents op = []")
  case True
  with rd show ?thesis by (simp add: sup_appendEvents_def)
next
  case False
  obtain res w' where ap: "AppendEvents D (append_request op) (outside s) = ((res, None), w')"
    using worksD(6) [OF works] by blast
  let ?s1 = "s\<lparr>outside := w', appends := appends s @ [(append_request op, Some res)]\<rparr>"
  let ?s2 = "if same_pointer sh (eventStreamID s) (ch_GetEventStreamId op) then ?s1\<lparr>eventOffsetHint := EndOffset res\<rparr> else ?s1"
  have "ready hist up (Suc n) ?s2" using rd False by (simp add: ready_def at_end_def)
  from sup_append_works [OF works this, of "events_record (ch_GetCommandId op)"] show ?thesis
    using False ap by (simp add: sup_appendEvents_def Let_def events_record_def)
qed

lemma select_stream_works:
  assumes works: "supervisor_works D base hist up"
  shows "\<exists>s'. select_stream D s = (Ok (), s')"
  using worksD(5) [OF works, of "outside s"] by (auto simp: select_stream_def Let_def)

lemma sup_handleCommand_works:
  assumes works: "supervisor_works D base hist up" and h: "handles D env" and rd: "ready hist up (n + 2) s"
  shows "\<exists>s'. sup_handleCommand D env s = (Ok (), s') \<and> ready hist up n s'"
proof -
  let ?i = "env_MessageId D env"
  obtain k' where add: "set_Add D (acceptedCommands s) ?i = (None, k')" using worksD(4) [OF works] by blast
  let ?s1 = "s\<lparr>acceptedCommands := k'\<rparr>"
  obtain msg calls w1 where msg: "Unpack D env = Ok msg" "is_Command D msg"
    and hc: "HandleCommand D msg (outside ?s1) = ((calls, Ok ()), w1)"
    using h unfolding handles_def by blast
  obtain sc w2 where sc: "run_scope D calls
      (\<lparr>sc_handler = HandlerIdentity s, sc_command = env, sc_events = []\<rparr>, w1) = (sc, w2)" by fastforce
  let ?s2 = "?s1\<lparr>outside := w2\<rparr>"
  obtain s3 where sel: "(if length (sc_events sc) \<noteq> 0 then select_stream D ?s2 else (Ok (), ?s2)) = (Ok (), s3)"
    using select_stream_works [OF works, of ?s2] by (cases "sc_events sc") auto
  have "journal s3 = journal s" "journalPos s3 = journalPos s"
    using select_stream_unchanged [of D ?s2 "Ok ()" s3] sel by (auto simp: sup_unchanged_def split: if_splits)
  then have "ready hist up (Suc (n + 1)) s3" using rd ready_frame [of s3 s hist up] by simp
  from sup_append_works [OF works this] obtain s4
    where s4: "sup_append D (handled_record (handled_op ?i (sc_events sc) s3)) s3 = (Ok (), s4)" "ready hist up (n + 1) s4"
    by blast
  have "ready hist up (n + (if ch_GetEvents (Some (handled_op ?i (sc_events sc) s3)) = [] then 0 else 1)) s4"
    by (rule ready_le [OF s4(2)]) simp
  from sup_appendEvents_works [OF works this, of True] s4(1) show ?thesis
    using sup_handleCommand_stored [OF add msg hc sc sel] by simp
qed

lemma append_all_works:
  assumes works: "supervisor_works D base hist up"
  shows "ready hist up (n + length (filter (\<lambda>h. ch_Events h \<noteq> []) ops)) s \<Longrightarrow>
    \<exists>s'. append_all D (map Some ops) s = (Ok (), s') \<and> ready hist up n s'"
proof (induction ops arbitrary: s)
  case (Cons op ops)
  let ?m = "n + length (filter (\<lambda>h. ch_Events h \<noteq> []) ops)"
  have "ready hist up (?m + (if ch_GetEvents (Some op) = [] then 0 else 1)) s"
    using Cons.prems by (cases "ch_Events op = []") simp_all
  from sup_appendEvents_works [OF works this, of False] Cons.IH show ?case by fastforce
qed simp

lemma handle_all_works:
  assumes works: "supervisor_works D base hist up"
  shows "ready hist up (n + 2 * length ops) s \<Longrightarrow> \<forall>op \<in> set ops. handles D (ca_Command op) \<Longrightarrow>
    \<exists>s'. handle_all D (map Some ops) s = (Ok (), s') \<and> ready hist up n s'"
proof (induction ops arbitrary: s)
  case (Cons op ops)
  have "ready hist up (n + 2 * length ops + 2) s" "handles D (ca_Command op)" using Cons.prems by simp_all
  from sup_handleCommand_works [OF works this(2,1)] Cons show ?case by fastforce
qed simp

section \<open>Recovery and acceptance\<close>

text \<open>How many records recovery may have to write.\<close>

definition owed :: "('env option \<Rightarrow> 'u option) \<Rightarrow> ('u, 'env) op_record list \<Rightarrow> nat" where
  "owed mid rs = length (pending_handled rs) + 2 * length (pending_accepted mid rs)"

lemma sup_recover_reads:
  assumes laws: "integration_laws D base hist members" and dur: "sup_dur D base hist members s"
    and works: "journal_works D base hist up" and up: "up (journal s)"
  shows "\<exists>ops j' p. sup_recover D s = sup_recover_pending D
      (map Some (pending_accepted (env_MessageId D) (hist (journal s))), map Some ops) (s\<lparr>journal := j', journalPos := p\<rparr>) \<and>
    up j' \<and> hist j' = hist (journal s) \<and> unat p = length (hist (journal s)) \<and>
    filter (\<lambda>h. ch_Events h \<noteq> []) ops = pending_handled (hist (journal s))"
proof -
  let ?mid = "env_MessageId D" and ?h = "hist (journal s)"
  have J: "journal_laws D base hist" and ids: "uuids_ok D" using laws by (simp_all add: integration_laws_def)
  have wf: "hist_wf ?mid ?h" and tr: "truncated_ok ?mid (base (journal s)) ?h" using dur by (simp_all add: sup_dur_def)
  obtain b e j1 where bounds: "j_Bounds D (journal s) = (Ok (b, e), j1)" and up1: "up j1"
    using works up unfolding journal_works_def by (metis surj_pair)
  note bd = journal_Bounds [OF J bounds]
  have b: "unat b = base (journal s)" and e: "unat e = length ?h" using bd(4) by blast+
  show ?thesis
  proof (cases "e \<le> b")
    case True
    then have len: "length ?h \<le> base (journal s)" using b e by (simp add: word_le_nat_alt)
    then have "complete ?mid ?h" using tr by (auto simp: truncated_ok_def)
    moreover have "unat b = length ?h" using b len journal_size(1) [OF J, of "journal s"] by simp
    ultimately show ?thesis using True bounds bd(1) up1
      by (intro exI [of _ "[]"] exI [of _ j1] exI [of _ b]) (simp add: sup_recover_def Let_def complete_def)
  next
    case False
    then have lt: "base (journal s) < length ?h" using b e by (simp add: word_le_nat_alt)
    obtain rs j2 where rng: "j_Range D j1 b = ((rs, None), j2)" and up2: "up j2"
      using works up1 b lt unfolding journal_works_def bd(1,2) by (metis bd(1,2) order_refl)
    note rg = journal_Range [OF J rng, unfolded bd(1,2)]
    have rs: "rs = positioned (base (journal s)) ?h" using rg(3) b lt by simp
    obtain ops where "recover_scan D rs b ([], []) =
        (Ok (map Some (pending_accepted ?mid ?h), map Some ops), of_nat (length ?h))"
      "filter (\<lambda>h. ch_Events h \<noteq> []) ops = pending_handled ?h"
      using scan_finds_pending [OF wf ids tr lt, of b] unfolding rs by blast
    with False bounds rng up2 rg(1) unat_of_nat_u64 [OF journal_size(2) [OF J, of "journal s"]] show ?thesis
      by (intro exI [of _ ops] exI [of _ j2] exI [of _ "of_nat (length ?h)"]) (simp add: sup_recover_def Let_def)
  qed
qed

lemma sup_recover_works:
  assumes laws: "integration_laws D base hist members" and dur: "sup_dur D base hist members s"
    and works: "supervisor_works D base hist up" and up: "up (journal s)"
    and room: "length (hist (journal s)) + (n + owed (env_MessageId D) (hist (journal s))) < 2 ^ 64"
    and h: "\<forall>op \<in> set (pending_accepted (env_MessageId D) (hist (journal s))). handles D (ca_Command op)"
  shows "\<exists>s'. sup_recover D s = Done (EnterState Idle) s' \<and> ready hist up n s'"
proof -
  let ?acc = "pending_accepted (env_MessageId D) (hist (journal s))"
  obtain ops j' p where r: "sup_recover D s = sup_recover_pending D (map Some ?acc, map Some ops) (s\<lparr>journal := j', journalPos := p\<rparr>)"
    and j: "up j'" "hist j' = hist (journal s)" "unat p = length (hist (journal s))"
    and ops: "filter (\<lambda>h. ch_Events h \<noteq> []) ops = pending_handled (hist (journal s))"
    using sup_recover_reads [OF laws dur worksD(2) [OF works] up] by blast
  have "ready hist up (n + 2 * length ?acc + length (filter (\<lambda>h. ch_Events h \<noteq> []) ops)) (s\<lparr>journal := j', journalPos := p\<rparr>)"
    using j room by (simp add: ready_def at_end_def owed_def ops)
  from append_all_works [OF works this] obtain s1
    where s1: "append_all D (map Some ops) (s\<lparr>journal := j', journalPos := p\<rparr>) = (Ok (), s1)" "ready hist up (n + 2 * length ?acc) s1"
    by blast
  from handle_all_works [OF works s1(2) h] obtain s2
    where s2: "handle_all D (map Some ?acc) s1 = (Ok (), s2)" "ready hist up n s2" by blast
  have "up (journal s2)" "unat (journalPos s2) = length (hist (journal s2))"
    using s2(2) by (simp_all add: ready_def at_end_def)
  then obtain j2 where tr: "j_Truncate D (journal s2) (journalPos s2) = (None, j2)" "up j2"
    using worksD(2) [OF works] unfolding journal_works_def by (metis order_refl)
  have "hist j2 = hist (journal s2)"
    using journal_Truncate [OF worksD(1) [OF works] tr(1)] \<open>unat (journalPos s2) = length (hist (journal s2))\<close> by simp
  with s2(2) tr(2) have "ready hist up n (s2\<lparr>journal := j2\<rparr>)" by (simp add: ready_def at_end_def)
  then show ?thesis by (simp add: r sup_recover_pending_def s1(1) s2(1) tr(1))
qed

lemma sup_accept_works:
  assumes works: "supervisor_works D base hist up" and h: "handles D (Value req)" and fresh: "fresh_ack req"
    and rd: "ready hist up (n + 3) s"
  shows "\<exists>s'. sup_acceptCommand D req s = Done (EnterState Idle) s' \<and> ready hist up n s' \<and>
    replied s' = replied s @ [acked req None] \<and> sup_ctx s' = sup_ctx s"
proof -
  let ?env = "Value req"
  obtain b k' where has: "set_Has D (acceptedCommands s) (env_MessageId D ?env) = (Ok b, k')"
    using worksD(3) [OF works] by blast
  let ?s1 = "s\<lparr>acceptedCommands := k'\<rparr>"
  show ?thesis
  proof (cases b)
    case True
    have "ready hist up n (?s1\<lparr>replied := replied s @ [acked req None]\<rparr>)"
      using ready_le [OF rd, of n] by (simp add: ready_def at_end_def)
    with True has show ?thesis by (simp add: sup_acceptCommand_def Let_def acknowledge_fresh [OF fresh])
  next
    case False
    have "ready hist up (Suc (n + 2)) ?s1" using rd by (simp add: ready_def at_end_def)
    from sup_append_works [OF works this] obtain s2
      where s2: "sup_append D (accepted_record ?env) ?s1 = (Ok (), s2)" "ready hist up (n + 2) s2" by blast
    let ?s3 = "s2\<lparr>replied := replied s2 @ [acked req None]\<rparr>"
    have "ready hist up (n + 2) ?s3" using s2(2) by (simp add: ready_def at_end_def)
    from sup_handleCommand_works [OF works h this] obtain s4
      where s4: "sup_handleCommand D ?env ?s3 = (Ok (), s4)" "ready hist up n s4" by blast
    have "sup_acceptCommand D req s = Done (EnterState Idle) s4"
      using False has s2(1) s4(1)
      by (simp add: sup_acceptCommand_def Let_def acknowledge_fresh [OF fresh] flip: accepted_record_def)
    with s4(2) quiet_append [OF s2(1)] quiet_handleCommand [OF s4(1)] show ?thesis by (simp add: quiet_def)
  qed
qed

section \<open>The machine\<close>

text \<open>
  The cases of \<open>idle\<close> up to the first that stops the machine: the requests before it, whether there
  is one, and the error of the context if it is that the context is done.
\<close>

fun sup_stop :: "('env, 'x) supervisor_case \<Rightarrow> bool" where
  "sup_stop (SupReceived req) = False"
| "sup_stop _ = True"

fun requests_before :: "('env, 'x) supervisor_case list \<Rightarrow> 'env option ack_request list" where
  "requests_before (SupReceived req # cs) = req # requests_before cs"
| "requests_before _ = []"

fun stop_error :: "('env, 'x) supervisor_case list \<Rightarrow> 'x option" where
  "stop_error (SupReceived req # cs) = stop_error cs"
| "stop_error (SupCtxDone x # cs) = Some x"
| "stop_error _ = None"

text \<open>What is left to serve; the replies so far are positive and those to the requests before it.\<close>

definition ahead :: "'env sup_state \<Rightarrow> ('j, 'u, 'env, 'x, 'k, 'w, 'hid) supervisor \<Rightarrow> 'env option ack_request list" where
  "ahead q s = sup_state_requests q @ requests_before (sup_cases s)"

definition serving ::
  "('j, 'u, 'env, 'x, 'k, 'w, 'msg, 'ev, 'arg, 'hid) integration_deps \<Rightarrow> 'env option list \<Rightarrow> bool \<Rightarrow> 'x option \<Rightarrow>
   'env sup_state \<Rightarrow> ('j, 'u, 'env, 'x, 'k, 'w, 'hid) supervisor \<Rightarrow> bool" where
  "serving D served stop e q s \<longleftrightarrow> sup_ctx s = None \<and>
     (\<forall>req \<in> set (ahead q s). handles D (Value req)) \<and>
     map Value (replied s) @ map Value (ahead q s) = served \<and>
     (\<forall>req \<in> set (replied s). buffer (Acknowledgement req) = [None]) \<and>
     list_ex sup_stop (sup_cases s) = stop \<and> stop_error (sup_cases s) = e"

definition room ::
  "('j, 'u, 'env, 'x, 'k, 'w, 'msg, 'ev, 'arg, 'hid) integration_deps \<Rightarrow> ('j \<Rightarrow> ('u, 'env) op_record list) \<Rightarrow>
   ('j \<Rightarrow> bool) \<Rightarrow> 'env sup_state \<Rightarrow> ('j, 'u, 'env, 'x, 'k, 'w, 'hid) supervisor \<Rightarrow> bool" where
  "room D hist up q s \<longleftrightarrow>
     (if q = Recover
      then up (journal s) \<and>
        length (hist (journal s)) + (3 * length (ahead q s) + owed (env_MessageId D) (hist (journal s))) < 2 ^ 64 \<and>
        (\<forall>op \<in> set (pending_accepted (env_MessageId D) (hist (journal s))). handles D (ca_Command op))
      else ready hist up (3 * length (ahead q s)) s)"

definition live_inv where
  "live_inv D base hist members h0 vals up served stop e q s \<longleftrightarrow>
     sup_inv D base hist members h0 vals q s \<and> supervisor_works D base hist up \<and>
     serving D served stop e q s \<and> room D hist up q s"

definition live_end where
  "live_end D hist members served s \<longleftrightarrow> map Value (replied s) = served \<and>
     (\<forall>req \<in> set (replied s). buffer (Acknowledgement req) = [None]) \<and> complete (env_MessageId D) (hist (journal s))"

definition live_post where
  "live_post D hist members served stop e0 e s \<longleftrightarrow> stop \<and> e = e0 \<and> live_end D hist members served s"

definition live_paused where
  "live_paused D hist members served stop e0 s \<longleftrightarrow> \<not> stop \<and> live_end D hist members served s"

definition live_step where
  "live_step D base hist members h0 vals up served stop e r \<longleftrightarrow>
     (case r of
        Done Stop s' \<Rightarrow> live_post D hist members served stop e (sup_ctx s') s'
      | Done (EnterState q') s' \<Rightarrow> live_inv D base hist members h0 vals up served stop e q' s'
      | Blocks s' \<Rightarrow> live_paused D hist members served stop e s'
      | _ \<Rightarrow> False)"

lemma live_recover:
  assumes i: "live_inv D base hist members h0 vals up served stop e Recover s"
  shows "live_step D base hist members h0 vals up served stop e (sup_recover D s)"
proof -
  let ?n = "3 * length (ahead Recover s)"
  have inv: "sup_inv D base hist members h0 vals Recover s" and works: "supervisor_works D base hist up"
    and sv: "serving D served stop e Recover s" and rm: "room D hist up Recover s"
    using i by (simp_all add: live_inv_def)
  have laws: "integration_laws D base hist members" and dur: "sup_dur D base hist members s"
    using inv by (simp_all add: sup_inv_def sup_conf_def)
  obtain s' where r: "sup_recover D s = Done (EnterState Idle) s'" and rd: "ready hist up ?n s'"
    using sup_recover_works [OF laws dur works, of ?n] rm by (auto simp: room_def)
  have "sup_inv D base hist members h0 vals Idle s'"
    using sup_recover_step [OF inv] r by (simp add: sup_step_ok_def)
  moreover have q: "quiet s s'" using quiet_recover(1) [OF r] by blast
  then have "ahead Idle s' = ahead Recover s" by (simp add: ahead_def quiet_def)
  ultimately show ?thesis using sv rd works q
    by (simp add: r live_step_def live_inv_def serving_def room_def quiet_def)
qed

lemma live_idle:
  assumes i: "live_inv D base hist members h0 vals up served stop e Idle s"
  shows "live_step D base hist members h0 vals up served stop e (sup_idle s)"
proof -
  have inv: "sup_inv D base hist members h0 vals Idle s" and works: "supervisor_works D base hist up"
    and sv: "serving D served stop e Idle s" and rd: "ready hist up (3 * length (ahead Idle s)) s"
    using i by (simp_all add: live_inv_def room_def)
  have c: "complete (env_MessageId D) (hist (journal s))" using inv by (simp add: sup_inv_def at_rest_def)
  note step = sup_idle_step [OF inv]
  show ?thesis
  proof (cases "sup_cases s")
    case Nil
    with sv c show ?thesis
      by (auto simp: sup_idle_def live_step_def live_paused_def live_end_def serving_def ahead_def)
  next
    case (Cons k cs)
    show ?thesis
    proof (cases k)
      case (SupReceived req)
      then have r: "sup_idle s = Done (EnterState (AcceptCommand req)) (s\<lparr>sup_cases := cs\<rparr>)"
        using Cons by (simp add: sup_idle_def With_def)
      moreover have "ahead (AcceptCommand req) (s\<lparr>sup_cases := cs\<rparr>) = ahead Idle s"
        using Cons SupReceived by (simp add: ahead_def)
      moreover have "sup_inv D base hist members h0 vals (AcceptCommand req) (s\<lparr>sup_cases := cs\<rparr>)"
        using step r by (simp add: sup_step_ok_def)
      ultimately show ?thesis using sv rd works Cons SupReceived
        by (simp add: live_step_def live_inv_def serving_def room_def ready_def at_end_def)
    qed (use Cons sv c in \<open>auto simp: sup_idle_def live_step_def live_post_def live_end_def serving_def ahead_def\<close>)
  qed
qed

lemma live_accept:
  assumes i: "live_inv D base hist members h0 vals up served stop e (AcceptCommand req) s"
  shows "live_step D base hist members h0 vals up served stop e (sup_acceptCommand D req s)"
proof -
  have inv: "sup_inv D base hist members h0 vals (AcceptCommand req) s" and works: "supervisor_works D base hist up"
    and sv: "serving D served stop e (AcceptCommand req) s"
    and rd: "ready hist up (3 * length (ahead (AcceptCommand req) s)) s"
    using i by (simp_all add: live_inv_def room_def)
  have fresh: "fresh_ack req" using inv by (simp add: sup_inv_def sup_conf_def sup_requests_def)
  have h: "handles D (Value req)" using sv by (simp add: serving_def ahead_def)
  have "ready hist up (3 * length (requests_before (sup_cases s)) + 3) s" using rd by (simp add: ahead_def add.commute)
  from sup_accept_works [OF works h fresh this] obtain s' where
    r: "sup_acceptCommand D req s = Done (EnterState Idle) s'" "ready hist up (3 * length (requests_before (sup_cases s))) s'"
    and s': "replied s' = replied s @ [acked req None]" "sup_ctx s' = sup_ctx s" by blast
  have cs: "sup_cases s' = sup_cases s" using sup_accept_quiet [OF r(1)] by blast
  have "sup_inv D base hist members h0 vals Idle s'"
    using sup_accept_step [OF inv] r(1) by (simp add: sup_step_ok_def)
  moreover have "Value (acked req None) = Value req" "buffer (Acknowledgement (acked req None)) = [None]"
    by (simp_all add: acked_def)
  ultimately show ?thesis using sv r works s' cs
    by (auto simp: live_step_def live_inv_def serving_def room_def ahead_def)
qed

lemma live_machine:
  "live_inv D base hist members h0 vals up served stop e q s \<Longrightarrow>
   live_step D base hist members h0 vals up served stop e (sup_machine D q s)"
  using live_recover live_idle live_accept by (cases q) auto

interpretation sup_live: fsm_contract "sup_machine D" sup_ctx "live_inv D base hist members h0 vals up served stop e"
  "live_post D hist members served stop e" "live_paused D hist members served stop e" "\<lambda>t s. False"
  for D base hist members h0 vals up served stop e
proof
  fix q s s' x q' t
  assume "live_inv D base hist members h0 vals up served stop e q s"
  note step = live_machine [OF this, unfolded live_step_def]
  show "sup_machine D q s = Done Stop s' \<Longrightarrow> live_post D hist members served stop e (sup_ctx s') s'"
    using step by simp
  show "sup_machine D q s = Done (Fail x) s' \<Longrightarrow> live_post D hist members served stop e (Some x) s'"
    using step by simp
  show "sup_machine D q s = Done StayInCurrentState s' \<Longrightarrow> live_inv D base hist members h0 vals up served stop e q s'"
    using step by simp
  show "sup_machine D q s = Done (EnterState q') s' \<Longrightarrow> live_inv D base hist members h0 vals up served stop e q' s'"
    using step by simp
  show "sup_machine D q s \<noteq> Done NoAction s'" using step by auto
  show "sup_machine D q s = Panics t s' \<Longrightarrow> False" using step by simp
  show "sup_machine D q s = Blocks s' \<Longrightarrow> live_paused D hist members served stop e s'" using step by simp
qed

section \<open>The example\<close>

text \<open>The journal in memory works when no more faults are scheduled.\<close>

definition mem_up :: "'r mem_journal \<Rightarrow> bool" where
  "mem_up j \<longleftrightarrow> mfaults j = []"

lemma integ_mem_works: "supervisor_works integ_mem mem_base mem_hist mem_up"
proof -
  have "journal_laws integ_mem mem_base mem_hist" using integ_mem_laws by (simp add: integration_laws_def)
  moreover have "journal_works integ_mem mem_base mem_hist mem_up"
    by (auto simp: journal_works_def mem_up_def integ_mem_def mem_Bounds_def mem_Range_def mem_Append_def
        mem_Truncate_def mem_fault_def mem_next_def Let_def)
  ultimately show ?thesis by (simp add: supervisor_works_def integ_mem_fields)
qed

lemma integ_handles: "n < 100 \<Longrightarrow> handles integ_mem (Some n)"
  by (auto simp: handles_def integ_mem_def)

section \<open>Properties\<close>

text \<open>
C40: A supervisor whose calls succeed serves every command. When the journal, the set, the event
recorder and the handler do their work, and the journal has positions left, a run fails
nowhere: it completes what is pending, and every command that it reads before it is told to stop
is acknowledged positively, is in the journal as handled, and has its events appended, nothing
being left pending. The run returns when it is told to stop, with the error of the context if
that is what told it and nil otherwise, and else it waits for more.
\<close>

theorem sup_Run_serves:
  assumes "integration_laws D base hist members" and "sup_dur D base hist members s"
    and "replied s = []" and "list_all fresh_ack (sup_requests Idle s)" and "sup_ctx s = None"
    and "supervisor_works D base hist up" and "up (journal s)"
    and "\<forall>req \<in> set (requests_before (sup_cases s)). handles D (Value req)"
    and "\<forall>op \<in> set (pending_accepted (env_MessageId D) (hist (journal s))). handles D (ca_Command op)"
    and "length (hist (journal s)) + (3 * length (requests_before (sup_cases s)) +
      owed (env_MessageId D) (hist (journal s))) < 2 ^ 64"
  shows "\<exists>s'. sup_Run D None s =
      Some (if list_ex sup_stop (sup_cases s) then Returned (stop_error (sup_cases s)) s' else Blocked s') \<and>
    map Value (replied s') = map Value (requests_before (sup_cases s)) \<and>
    (\<forall>req \<in> set (replied s'). buffer (Acknowledgement req) = [None]) \<and>
    (\<forall>req \<in> set (requests_before (sup_cases s)).
       env_MessageId D (Value req) \<in> set (handled_ids (hist (journal s')))) \<and>
    complete (env_MessageId D) (hist (journal s'))"
proof -
  let ?vals = "map Value (sup_requests Idle s)" and ?served = "map Value (requests_before (sup_cases s))"
  have "sup_requests Recover s = sup_requests Idle s" by (simp add: sup_requests_def)
  then have "live_inv D base hist members (hist (journal s)) ?vals up ?served (list_ex sup_stop (sup_cases s))
      (stop_error (sup_cases s)) Recover s"
    using assms by (simp add: live_inv_def sup_inv_def sup_conf_def serving_def room_def ahead_def)
  note ok = sup_live.Start_ok [OF this, unfolded sup_live.run_ok_def]
  obtain r where r: "sup_Run D None s = Some r"
    using sup_fsm.Start_returns [of D Recover s] by (auto simp: sup_Run_def)
  obtain s' where s': "r = (if list_ex sup_stop (sup_cases s) then Returned (stop_error (sup_cases s)) s' else Blocked s')"
    and e: "live_end D hist members ?served s'"
    using ok [of r] r by (auto simp: sup_Run_def live_post_def live_paused_def split: run_result.splits)
  have ran: "sup_ran D base hist members (s, r)" using assms(1-4) r by (simp add: sup_ran_def)
  have w: "run_world r = s'" using s' by simp
  have "env_MessageId D (Value req) \<in> set (handled_ids (hist (journal s')))" if "req \<in> set (replied s')" for req
  proof -
    have b: "buffer (Acknowledgement req) = [None]" and c: "complete (env_MessageId D) (hist (journal s'))"
      using e that by (simp_all add: live_end_def)
    have "sup_truthful D hist (s, r) (Value req) None"
      using sup_ran_replies(1) [OF ran] that b unfolding w list_all_iff by fastforce
    then have "env_MessageId D (Value req) \<in> set (accepted_ids (env_MessageId D) (hist (journal s')))"
      by (simp only: sup_truthful_def snd_conv w simp_thms if_True)
    then show ?thesis by (rule subsetD [OF complete_accepted [OF c]])
  qed
  note handled = this
  have v: "map Value (replied s') = ?served" and pos: "\<forall>req \<in> set (replied s'). buffer (Acknowledgement req) = [None]"
    and c: "complete (env_MessageId D) (hist (journal s'))"
    using e unfolding live_end_def by blast+
  have "env_MessageId D (Value req) \<in> set (handled_ids (hist (journal s')))" if "req \<in> set (requests_before (sup_cases s))" for req
  proof -
    have "Value req \<in> set (map Value (replied s'))" using that unfolding v by (simp only: set_map imageI)
    then obtain q where "q \<in> set (replied s')" "Value req = Value q" by (auto simp only: set_map)
    with handled [of q] show ?thesis by (simp only:)
  qed
  with r s' v pos c show ?thesis by blast
qed

theorem sup_Run_serves_witness:
  "\<exists>s'. sup_Run integ_mem None integ_start = Some (Returned None s') \<and> map Value (replied s') = [Some 7] \<and>
    Some 7 \<in> set (handled_ids (mem_hist (journal s')))"
proof -
  have d: "sup_dur integ_mem mem_base mem_hist set integ_start"
    by (rule sup_dur_start [OF integ_mem_laws integ_start_ok(1-3)])
  have c: "sup_cases integ_start = [SupReceived (Queue_New (Some 7)), SupShutdown]" "sup_ctx integ_start = None"
    "mem_up (journal integ_start)"
    by (simp_all add: integ_start_def integ_state_def integ_journal_def mem_up_def)
  from sup_Run_serves [OF integ_mem_laws d integ_start_ok(4,5) c(2) integ_mem_works c(3)] integ_handles [of 7]
  show ?thesis
    by (auto simp: c(1) integ_start_ok(1) owed_def pending_accepted_def pending_handled_def Queue_New_def integ_mem_fields)
qed

end
