(* ===== verification/Integration_Stream.thy ===== *)
theory Integration_Stream
  imports Integration_Correct
begin

text \<open>
  The integration supervisor on top of the event stream workers. The repository has no
  implementation of \<open>EventRecorder\<close>; what is needed of one is that it passes requests on to
  workers of the stream as they are, and returns a response only when a worker gave it.
\<close>

section \<open>The event recorder\<close>

definition forwards :: "('u, 'ev) AppendRequest \<Rightarrow> ('v, 'ev) AppendRequest \<Rightarrow> bool" where
  "forwards a b \<longleftrightarrow> req_Events b = req_Events a \<and> OffsetHint b = OffsetHint a"

text \<open>
  What it did for the requests with first event \<open>i\<close>: \<open>log\<close> is what the supervisor asked of
  it over all runs, \<open>tr\<close> is what happened to the stream.
\<close>

definition recorder_ok ::
  "('j, 'ev, 'id, 'x) stream_deps \<Rightarrow> 'id \<Rightarrow> (('u, 'ev) AppendRequest \<times> AppendResponse option) list \<Rightarrow>
   ('v, 'ev) stream_label list \<Rightarrow> bool" where
  "recorder_ok D i log tr \<longleftrightarrow>
     (\<forall>l \<in> set tr. \<forall>b. label_request l = Some b \<longrightarrow> request_id D b = i \<longrightarrow> (\<exists>(a, v) \<in> set log. forwards a b)) \<and>
     (\<forall>a v. (a, Some v) \<in> set log \<longrightarrow> request_id D a = i \<longrightarrow> (\<exists>n b. Appended n b v \<in> set tr \<and> forwards a b))"

lemma forwards_id: "forwards a b \<Longrightarrow> request_id D b = request_id D a"
  by (simp add: forwards_def request_id_def)

text \<open>The packer gives every event an identifier of its own.\<close>

definition event_ids_ok ::
  "('j, 'ev, 'id, 'x) stream_deps \<Rightarrow> ('u, 'ev) CommandHandled list \<Rightarrow> bool" where
  "event_ids_ok D ops \<longleftrightarrow> (\<forall>op \<in> set ops. \<forall>op' \<in> set ops.
     request_id D (append_request (Some op)) = request_id D (append_request (Some op')) \<longrightarrow> op = op')"

lemma append_request_simps [simp]:
  "req_Events (append_request (Some op)) = ch_Events op" "OffsetHint (append_request (Some op)) = ch_OffsetHint op"
  by (simp_all add: append_request_def)

text \<open>When nothing is pending, what was handled with events has been confirmed.\<close>

lemma complete_confirmed:
  assumes d: "sup_dur D base hist members s" and c: "complete (env_MessageId D) (hist (journal s))"
    and h: "h \<in> set (handled_ops (hist (journal s)))" "ch_Events h \<noteq> []"
  shows "\<exists>v. (append_request (Some h), Some v) \<in> set (appends s)"
proof -
  have "ch_CommandId h \<in> set (appended_ids (hist (journal s)))"
    using c h unfolding complete_def pending_handled_def filter_empty_conv by blast
  then have "confirmed (hist (journal s)) (appends s) (ch_CommandId h)" using d unfolding sup_dur_def by blast
  then obtain op v where op: "op \<in> set (handled_ops (hist (journal s)))" "ch_CommandId op = ch_CommandId h"
    and v: "(append_request (Some op), Some v) \<in> set (appends s)"
    unfolding confirmed_def by blast
  from handled_ops_unique [OF d h(1) op] v show ?thesis by blast
qed

lemma run_complete:
  assumes "integration_laws D base hist members"
    and "hist (journal s) = []" and "members (acceptedCommands s) = {}" and "appends s = []"
    and "sup_runs D s acks s1" and "restarted s1 s2"
    and "sup_Run D None s2 = Some (Returned None s3) \<or> sup_Run D None s2 = Some (Blocked s3)"
  shows "sup_dur D base hist members s3" "complete (env_MessageId D) (hist (journal s3))"
  using restarted_ended [OF assms] by (simp_all add: ended_def)

section \<open>An example\<close>

text \<open>
  The run of \<open>Integration_Correct\<close> that handles command 7, whose event 107 a worker appends to
  the stream of the example of \<open>Stream_Worker\<close>.
\<close>

definition event_request :: "(nat, nat) AppendRequest" where
  "event_request = \<lparr>StreamID = 0, req_Events = [107], OffsetHint = 3\<rparr>"

definition event_trace :: "(nat, nat) stream_label list" where
  "event_trace = [Opened 0, Appended 0 event_request \<lparr>BeginOffset = 3, EndOffset = 4, AppendedByPriorAttempt = False\<rparr>]"

definition event_start :: "nat stream_record mem_journal stream_cluster" where
  "event_start = (mem_stream example_stream [Healthy, Healthy], Map.empty)"

lemma event_append:
  "appendEvents stream_mem event_request \<lparr>wpos = 1, woff = 3\<rparr> (mem_stream example_stream [Healthy]) =
     (Ok \<lparr>BeginOffset = 3, EndOffset = 4, AppendedByPriorAttempt = False\<rparr>, \<lparr>wpos = 2, woff = 4\<rparr>,
      mem_stream (example_stream @ [append_record 3 4 [107]]) [])"
  by (simp add: appendEvents_def mightBeDuplicates_def appendToJournal_def stream_mem_def mem_Append_def
      example_stream_def event_request_def) (simp add: mem_stream_def)

lemma event_run:
  "\<exists>ws. stream_trace stream_mem event_start event_trace (mem_stream (example_stream @ [append_record 3 4 [107]]) [], ws)"
proof -
  have e: "req_Events event_request \<noteq> []" by (simp add: event_request_def)
  have w: "worker_at (Some (0, append_record 0 3 [1, 2, 3 :: nat])) zero_worker = \<lparr>wpos = 1, woff = 3\<rparr>"
    by (simp add: worker_at_def zero_worker_def)
  have "stream_trace stream_mem event_start event_trace (mem_stream (example_stream @ [append_record 3 4 [107]]) [],
      Map.empty(0 \<mapsto> \<lparr>wpos = 1, woff = 3\<rparr>, 0 \<mapsto> \<lparr>wpos = 2, woff = 4\<rparr>))"
    unfolding event_start_def event_trace_def
  proof (intro stream_trace_Cons)
    show "stream_step stream_mem (mem_stream example_stream [Healthy, Healthy], Map.empty)
        (Opened 0) (mem_stream example_stream [Healthy], Map.empty(0 \<mapsto> \<lparr>wpos = 1, woff = 3\<rparr>))"
      using stream_step.opened [where ws = Map.empty and i = 0, OF example_open1] w by metis
    show "stream_step stream_mem (mem_stream example_stream [Healthy], Map.empty(0 \<mapsto> \<lparr>wpos = 1, woff = 3\<rparr>))
        (Appended 0 event_request \<lparr>BeginOffset = 3, EndOffset = 4, AppendedByPriorAttempt = False\<rparr>)
        (mem_stream (example_stream @ [append_record 3 4 [107]]) [], Map.empty(0 \<mapsto> \<lparr>wpos = 1, woff = 3\<rparr>,
          0 \<mapsto> \<lparr>wpos = 2, woff = 4\<rparr>))"
      by (rule stream_step.appended [OF _ e event_append]) simp
  qed (rule stream_trace.start)
  then show ?thesis by blast
qed

section \<open>Properties\<close>

text \<open>
C3: The events of a command are stored exactly once. After any history of runs of the integration
supervisor and of the workers of the stream, with failures, crashes and retries on both sides,
when a run stops without an error or waits, the stream has exactly one record with the events of
each command that was handled with events, and it holds all of them. This needs a recorder that
passes requests on as they are, identifiers of events that are unique, and an offset hint that
was not beyond the end of the stream when the command was handled.
\<close>

theorem events_stored_once:
  assumes "integration_laws D base hist members"
    and "hist (journal s) = []" and "members (acceptedCommands s) = {}" and "appends s = []"
    and "sup_runs D s acks s1" and "restarted s1 s2"
    and "sup_Run D None s2 = Some (Returned None s3) \<or> sup_Run D None s2 = Some (Blocked s3)"
    and "journal_laws SD sbase shist" and "ids_ok SD" and "cluster_ok sbase shist c" and "stream_trace SD c tr c'"
    and "stream_off (shist (fst c)) + sum_list (map label_length tr) < 2 ^ 64"
    and "h \<in> set (handled_ops (hist (journal s3)))" and "ch_Events h \<noteq> []"
    and "event_ids_ok SD (handled_ops (hist (journal s3)))"
    and "recorder_ok SD (MessageId SD (hd (ch_Events h))) (appends s3) tr"
    and "\<forall>r \<in> set (shist (fst c)). first_id SD r \<noteq> Some (MessageId SD (hd (ch_Events h)))"
    and "unat (ch_OffsetHint h) \<le> stream_off (shist (fst c))"
  shows "\<exists>r. held SD (MessageId SD (hd (ch_Events h))) (shist (fst c')) = [r] \<and> record_events r = ch_Events h"
proof -
  let ?i = "MessageId SD (hd (ch_Events h))" and ?q = "append_request (Some h)"
  have i: "request_id SD ?q = ?i" by (simp add: request_id_def)
  note d = run_complete [OF assms(1-7)]
  have attempts: "req_Events b = ch_Events h \<and> unat (OffsetHint b) \<le> stream_off (shist (fst c))"
    if l: "l \<in> set tr" "label_request l = Some b" "request_id SD b = ?i" for l b
  proof -
    obtain a v where a: "(a, v) \<in> set (appends s3)" "forwards a b"
      using assms(16) l unfolding recorder_ok_def by blast
    then obtain op where op: "op \<in> set (handled_ops (hist (journal s3)))" "a = append_request (Some op)"
      using d(1) unfolding sup_dur_def by blast
    have "request_id SD (append_request (Some op)) = request_id SD ?q"
      using forwards_id [OF a(2), of SD] l(3) op(2) i by simp
    then have "op = h" using assms(13,15) op(1) unfolding event_ids_ok_def by blast
    then show ?thesis using a(2) op(2) assms(18) by (simp add: forwards_def)
  qed
  note once = stream_trace_held [OF assms(11,8,9,10,12,17)]
  obtain v where "(?q, Some v) \<in> set (appends s3)" using complete_confirmed [OF d assms(13,14)] by blast
  then obtain n b where b: "Appended n b v \<in> set tr" "forwards ?q b"
    using assms(16) i unfolding recorder_ok_def by blast
  have "request_id SD b = ?i" using forwards_id [OF b(2), of SD] i by simp
  then have "answered_as (held SD ?i (shist (fst c'))) v" "held_once SD ?i (ch_Events h) (stream_off (shist (fst c))) (shist (fst c'))"
    using once [of "ch_Events h"] attempts b(1) by blast+
  then show ?thesis by (auto simp: answered_as_def held_once_def)
qed

theorem events_stored_once_witness:
  "\<exists>c' r. stream_trace stream_mem event_start event_trace c' \<and> held stream_mem 107 (mem_hist (fst c')) = [r]"
proof -
  obtain ws where tr: "stream_trace stream_mem event_start event_trace
      (mem_stream (example_stream @ [append_record 3 4 [107]]) [], ws)" using event_run by blast
  have h: "mem_hist (fst event_start) = example_stream" by (simp add: event_start_def example_stream_def)
  have ok: "cluster_ok mem_base mem_hist event_start"
    using example_stream_wf by (simp add: cluster_ok_def event_start_def example_stream_def)
  have room: "stream_off (mem_hist (fst event_start)) + sum_list (map label_length event_trace) < 2 ^ 64"
    using example_stream_wf(2) by (simp add: h event_trace_def label_length_def event_request_def)
  have op: "handled_ops (mem_hist (journal (integ_accepted []))) = [integ_op]" by (simp add: integ_hist)
  have r: "sup_Run integ_mem None integ_start = Some (Returned None (integ_accepted [])) \<or>
      sup_Run integ_mem None integ_start = Some (Blocked (integ_accepted []))" using integ_run by simp
  have rec: "recorder_ok stream_mem 107 (appends (integ_accepted [])) event_trace"
    by (auto simp: recorder_ok_def integ_accepted_def event_trace_def forwards_def event_request_def integ_op_def)
  have new: "\<forall>r \<in> set (mem_hist (fst event_start)). first_id stream_mem r \<noteq> Some 107"
    by (simp add: h) (simp add: example_stream_def first_id_def stream_mem_def)
  from events_stored_once [OF integ_mem_laws integ_start_ok(1-3) sup_runs.none integ_start_ok(6) r
      stream_mem_ok ok tr room, of integ_op] op rec new
  show ?thesis using tr example_stream_wf(2) by (auto simp: h event_ids_ok_def integ_op_def stream_mem_def)
qed

end
