(* ===== verification/Proto_Map.thy ===== *)
theory Proto_Map
  imports Prelude "HOL-Library.DAList"
begin

text \<open>
  \<open>maps.Proto\<close> of \<open>enginekit\<close>, as a parameter: a map keyed by a protocol buffers message
  (here always a UUID, compared by its value). The source of the module is not part of this
  repository: a \<open>proto_map\<close> is the operations the code calls, and \<open>proto_map_laws\<close> their
  documented behaviour. Iteration is in an unspecified order, so \<open>pm_All\<close> is any listing of
  the pairs. The witnesses use association lists without repeated keys.
\<close>

record ('m, 'k, 'v) proto_map =
  pm_zero :: 'm
  pm_TryGet :: "'m \<Rightarrow> 'k \<Rightarrow> 'v option"
  pm_Has :: "'m \<Rightarrow> 'k \<Rightarrow> bool"
  pm_Set :: "'m \<Rightarrow> 'k \<Rightarrow> 'v \<Rightarrow> 'm"
  pm_Remove :: "'m \<Rightarrow> 'k \<Rightarrow> 'm"
  pm_Len :: "'m \<Rightarrow> nat"
  pm_All :: "'m \<Rightarrow> ('k \<times> 'v) list"

definition proto_map_laws :: "('m, 'k, 'v, 'z) proto_map_scheme \<Rightarrow> bool" where
  "proto_map_laws M \<longleftrightarrow>
     pm_TryGet M (pm_zero M) = Map.empty \<and>
     (\<forall>m k v. pm_TryGet M (pm_Set M m k v) = (pm_TryGet M m)(k \<mapsto> v)) \<and>
     (\<forall>m k. pm_TryGet M (pm_Remove M m k) = (pm_TryGet M m)(k := None)) \<and>
     (\<forall>m k. pm_Has M m k \<longleftrightarrow> pm_TryGet M m k \<noteq> None) \<and>
     (\<forall>m. distinct (map fst (pm_All M m)) \<and> map_of (pm_All M m) = pm_TryGet M m) \<and>
     (\<forall>m. pm_Len M m = length (pm_All M m))"

lemma proto_map_simps:
  assumes "proto_map_laws M"
  shows "pm_TryGet M (pm_zero M) = Map.empty"
    and "pm_TryGet M (pm_Set M m k v) = (pm_TryGet M m)(k \<mapsto> v)"
    and "pm_TryGet M (pm_Remove M m k) = (pm_TryGet M m)(k := None)"
    and "pm_Has M m k \<longleftrightarrow> pm_TryGet M m k \<noteq> None"
    and "distinct (map fst (pm_All M m))" and "map_of (pm_All M m) = pm_TryGet M m"
    and "pm_Len M m = length (pm_All M m)"
  using assms unfolding proto_map_laws_def by blast+

lemma proto_map_All:
  assumes "proto_map_laws M"
  shows "(k, v) \<in> set (pm_All M m) \<longleftrightarrow> pm_TryGet M m k = Some v"
  using map_of_eq_Some_iff [OF proto_map_simps(5) [OF assms]] proto_map_simps(6) [OF assms] by metis

lemma proto_map_Len_0: "proto_map_laws M \<Longrightarrow> pm_Len M m = 0 \<longleftrightarrow> pm_TryGet M m = Map.empty"
  by (metis proto_map_simps(6,7) length_0_conv map_of_eq_empty_iff)

text \<open>The laws are about the operations, not about what a record of dependencies adds to them.\<close>

lemma proto_map_laws_fields:
  assumes "proto_map_laws K"
    and "pm_zero M = pm_zero K" "pm_TryGet M = pm_TryGet K" "pm_Has M = pm_Has K" "pm_Set M = pm_Set K"
    "pm_Remove M = pm_Remove K" "pm_Len M = pm_Len K" "pm_All M = pm_All K"
  shows "proto_map_laws M"
  using assms(1) unfolding proto_map_laws_def assms(2-) .

text \<open>Association lists.\<close>

definition alist_map :: "(('k, 'v) alist, 'k, 'v) proto_map" where
  "alist_map = \<lparr>pm_zero = DAList.empty, pm_TryGet = DAList.lookup,
     pm_Has = (\<lambda>m k. DAList.lookup m k \<noteq> None), pm_Set = (\<lambda>m k v. DAList.update k v m),
     pm_Remove = (\<lambda>m k. DAList.delete k m), pm_Len = (\<lambda>m. length (DAList.impl_of m)),
     pm_All = DAList.impl_of\<rparr>"

lemma alist_map_laws: "proto_map_laws alist_map"
  unfolding proto_map_laws_def alist_map_def proto_map.simps
  by (auto simp: lookup_update) (auto simp: DAList.lookup_def fun_eq_iff)

end
