(* ===== verification/Stream_Supervisor.thy ===== *)
theory Stream_Supervisor
  imports Stream_Worker Proto_Map
begin

text \<open>
  \<open>internal/eventstream/supervisor.go\<close>: the supervisor starts one worker per event stream,
  forwards each append request to the worker of its stream, and shuts the workers down.

  The goroutines of the workers are in the world: \<open>es_started\<close> lists the streams of all that
  were ever started (their number is their place in that list), \<open>es_live\<close> those whose result the
  supervisor has not yet received. Each \<open>select\<close> takes the next of \<open>es_cases\<close>, which is the
  case that was ready; one that cannot be ready there means that the supervisor waits.
\<close>

section \<open>State\<close>

record ('st, 'j, 'm, 'k, 'v, 'x) stream_sup_deps = "('m, 'k, 'v) proto_map" +
  j_Open :: "'st \<Rightarrow> string \<Rightarrow> ('x, 'j) outcome \<times> 'st"
  key_AsString :: "'k \<Rightarrow> string"
  errShuttingDown :: 'x

record 'j worker_ref =
  w_id :: nat
  w_Journal :: 'j

record ('u, 'x) workerResult =
  res_StreamID :: 'u
  res_Err :: "'x option"

datatype ('u, 'ev, 'x) sup_case =
  SupCtxDone 'x | WorkerReports nat "'x option" | SupReceived "('u, 'ev, 'x) append_exchange" | SendProceeds

text \<open>What became of an exchange: it was sent to a worker, or answered with an error.\<close>

datatype ('u, 'ev, 'x) dispatch =
  Forwarded nat "('u, 'ev, 'x) append_exchange" | Refused "('u, 'ev, 'x) append_exchange"

record ('st, 'm, 'u, 'ev, 'x) sup_world =
  es_journals :: 'st
  es_workers :: 'm
  es_shutdown :: latch
  es_started :: "'u list"
  es_live :: "(nat \<times> 'u) list"
  es_latches :: "nat \<Rightarrow> latch"
  es_cases :: "('u, 'ev, 'x) sup_case list"
  es_log :: "('u, 'ev, 'x) dispatch list"
  es_ctx_err :: "'x option"

datatype ('u, 'ev, 'x) sup_state =
  SupIdleState | ForwardAppendState "('u, 'ev, 'x) append_exchange" | ShutdownState

type_synonym ('st, 'j, 'm, 'u, 'x) es_deps = "('st, 'j, 'm, 'u, 'j worker_ref, 'x) stream_sup_deps"

type_synonym ('st, 'm, 'u, 'ev, 'x) sup_result =
  "(('u, 'ev, 'x) sup_state, 'x, ('st, 'm, 'u, 'ev, 'x) sup_world) state_result"

section \<open>Workers\<close>

definition Open ::
  "('st, 'j, 'm, 'u, 'v, 'x) stream_sup_deps \<Rightarrow> 'st \<Rightarrow> 'u \<Rightarrow> ('x, 'j) outcome \<times> 'st" where
  "Open D st streamID = j_Open D st (Name (key_AsString D) streamID)"

definition startWorkerForStreamID ::
  "('st, 'j, 'm, 'u, 'x) es_deps \<Rightarrow> 'u \<Rightarrow> ('st, 'm, 'u, 'ev, 'x) sup_world \<Rightarrow>
   ('x, 'j worker_ref) outcome \<times> ('st, 'm, 'u, 'ev, 'x) sup_world" where
  "startWorkerForStreamID D streamID s =
     (case Open D (es_journals s) streamID of
        (Err x, st') \<Rightarrow> (Err x, s\<lparr>es_journals := st'\<rparr>)
      | (Panic t, st') \<Rightarrow> (Panic t, s\<lparr>es_journals := st'\<rparr>)
      | (Ok j, st') \<Rightarrow>
          (let i = length (es_started s)
           in (Ok \<lparr>w_id = i, w_Journal = j\<rparr>,
               s\<lparr>es_journals := st', es_started := es_started s @ [streamID],
                 es_live := es_live s @ [(i, streamID)]\<rparr>)))"

definition workerByStreamID ::
  "('st, 'j, 'm, 'u, 'x) es_deps \<Rightarrow> 'u \<Rightarrow> ('st, 'm, 'u, 'ev, 'x) sup_world \<Rightarrow>
   ('x, 'j worker_ref) outcome \<times> ('st, 'm, 'u, 'ev, 'x) sup_world" where
  "workerByStreamID D streamID s =
     (case pm_TryGet D (es_workers s) streamID of
        Some w \<Rightarrow> (Ok w, s)
      | None \<Rightarrow>
          (case startWorkerForStreamID D streamID s of
             (Ok w, s') \<Rightarrow> (Ok w, s'\<lparr>es_workers := pm_Set D (es_workers s') streamID w\<rparr>)
           | (Err x, s') \<Rightarrow> (Err x, s')
           | (Panic t, s') \<Rightarrow> (Panic t, s')))"

text \<open>The result of worker \<open>i\<close>, received from the unbuffered channel: only a live one sends.\<close>

definition recv_workerStopped ::
  "nat \<Rightarrow> 'x option \<Rightarrow> ('st, 'm, 'u, 'ev, 'x) sup_world \<Rightarrow>
   (('u, 'x) workerResult \<times> ('st, 'm, 'u, 'ev, 'x) sup_world) option" where
  "recv_workerStopped i e s =
     (case map_of (es_live s) i of
        None \<Rightarrow> None
      | Some streamID \<Rightarrow>
          Some (\<lparr>res_StreamID = streamID, res_Err = e\<rparr>,
                s\<lparr>es_live := filter (\<lambda>p. fst p \<noteq> i) (es_live s)\<rparr>))"

definition remove_worker ::
  "('st, 'j, 'm, 'u, 'x) es_deps \<Rightarrow> ('u, 'x) workerResult \<Rightarrow>
   ('st, 'm, 'u, 'ev, 'x) sup_world \<Rightarrow> ('st, 'm, 'u, 'ev, 'x) sup_world" where
  "remove_worker D res s = s\<lparr>es_workers := pm_Remove D (es_workers s) (res_StreamID res)\<rparr>"

section \<open>States\<close>

definition sup_idleState ::
  "('st, 'j, 'm, 'u, 'x) es_deps \<Rightarrow> ('st, 'm, 'u, 'ev, 'x) sup_world \<Rightarrow> ('st, 'm, 'u, 'ev, 'x) sup_result" where
  "sup_idleState D s =
     (case es_cases s of
        SupCtxDone x # cs \<Rightarrow> Done Stop (s\<lparr>es_cases := cs, es_ctx_err := Some x\<rparr>)
      | WorkerReports i e # cs \<Rightarrow>
          (case recv_workerStopped i e (s\<lparr>es_cases := cs\<rparr>) of
             None \<Rightarrow> Blocks s
           | Some (res, s') \<Rightarrow>
               (case res_Err res of
                  Some x \<Rightarrow> Done (Fail x) (remove_worker D res s')
                | None \<Rightarrow> Done StayInCurrentState (remove_worker D res s')))
      | SupReceived ex # cs \<Rightarrow> Done (With ex ForwardAppendState) (s\<lparr>es_cases := cs\<rparr>)
      | _ \<Rightarrow> Blocks s)"

text \<open>\<open>ex.Err(errShuttingDown)\<close>, and then the action.\<close>

definition refuse ::
  "('st, 'j, 'm, 'u, 'x) es_deps \<Rightarrow> ('u, 'ev, 'x) append_exchange \<Rightarrow>
   (('u, 'ev, 'x) sup_state, 'x) action \<Rightarrow> ('st, 'm, 'u, 'ev, 'x) sup_world \<Rightarrow> ('st, 'm, 'u, 'ev, 'x) sup_result" where
  "refuse D ex act s =
     (case Exchange_Err zero_AppendResponse (errShuttingDown D) ex of
        Proceeds c \<Rightarrow> Done act (s\<lparr>es_log := es_log s @ [Refused (ex\<lparr>Response := c\<rparr>)]\<rparr>)
      | WouldBlock \<Rightarrow> Blocks s
      | ChanPanic t \<Rightarrow> Panics t s)"

definition forwardAppendState ::
  "('st, 'j, 'm, 'u, 'x) es_deps \<Rightarrow> ('u, 'ev, 'x) append_exchange \<Rightarrow>
   ('st, 'm, 'u, 'ev, 'x) sup_world \<Rightarrow> ('st, 'm, 'u, 'ev, 'x) sup_result" where
  "forwardAppendState D ex s =
     (case workerByStreamID D (StreamID (Request ex)) s of
        (Err x, s') \<Rightarrow> refuse D ex (Fail x) s'
      | (Panic t, s') \<Rightarrow> Panics t s'
      | (Ok w, s') \<Rightarrow>
          (case es_cases s' of
             SupCtxDone x # cs \<Rightarrow> refuse D ex Stop (s'\<lparr>es_cases := cs, es_ctx_err := Some x\<rparr>)
           | WorkerReports i e # cs \<Rightarrow>
               (case recv_workerStopped i e (s'\<lparr>es_cases := cs\<rparr>) of
                  None \<Rightarrow> Blocks s'
                | Some (res, s'') \<Rightarrow>
                    (case res_Err res of
                       Some x \<Rightarrow> refuse D ex (Fail x) (remove_worker D res s'')
                     | None \<Rightarrow> Done StayInCurrentState (remove_worker D res s'')))
           | SendProceeds # cs \<Rightarrow>
               if map_of (es_live s') (w_id w) = None then Blocks s'
               else Done (EnterState SupIdleState) (s'\<lparr>es_cases := cs, es_log := es_log s' @ [Forwarded (w_id w) ex]\<rparr>)
           | _ \<Rightarrow> Blocks s'))"

text \<open>The first loop of \<open>shutdownState\<close>, and the second, which waits for the workers.\<close>

fun signal_workers :: "('k \<times> 'j worker_ref) list \<Rightarrow> (nat \<Rightarrow> latch) \<Rightarrow> (nat \<Rightarrow> latch) option" where
  "signal_workers [] ls = Some ls"
| "signal_workers ((_, w) # ws) ls =
     (case latch_Signal (ls (w_id w)) of
        (Returned_pc, l) \<Rightarrow> signal_workers ws (ls(w_id w := l))
      | _ \<Rightarrow> None)"

fun await_workers ::
  "('st, 'j, 'm, 'u, 'x) es_deps \<Rightarrow> ('u, 'ev, 'x) sup_case list \<Rightarrow>
   ('st, 'm, 'u, 'ev, 'x) sup_world \<Rightarrow> ('st, 'm, 'u, 'ev, 'x) sup_result" where
  "await_workers D cs s =
     (if pm_Len D (es_workers s) = 0 then Done Stop (s\<lparr>es_cases := cs\<rparr>)
      else case cs of
        WorkerReports i e # cs' \<Rightarrow>
          (case recv_workerStopped i e s of
             None \<Rightarrow> Blocks (s\<lparr>es_cases := cs\<rparr>)
           | Some (res, s') \<Rightarrow> await_workers D cs' (remove_worker D res s'))
      | _ \<Rightarrow> Blocks (s\<lparr>es_cases := cs\<rparr>))"

declare await_workers.simps [simp del]

definition shutdownState ::
  "('st, 'j, 'm, 'u, 'x) es_deps \<Rightarrow> ('st, 'm, 'u, 'ev, 'x) sup_world \<Rightarrow> ('st, 'm, 'u, 'ev, 'x) sup_result" where
  "shutdownState D s =
     (case signal_workers (pm_All D (es_workers s)) (es_latches s) of
        None \<Rightarrow> Panics ''close of closed channel'' s
      | Some ls \<Rightarrow> await_workers D (es_cases s) (s\<lparr>es_latches := ls\<rparr>))"

fun es_machine ::
  "('st, 'j, 'm, 'u, 'x) es_deps \<Rightarrow>
   (('u, 'ev, 'x) sup_state, 'x, ('st, 'm, 'u, 'ev, 'x) sup_world) machine" where
  "es_machine D SupIdleState s = sup_idleState D s"
| "es_machine D (ForwardAppendState ex) s = forwardAppendState D ex s"
| "es_machine D ShutdownState s = shutdownState D s"

text \<open>\<open>Run\<close> makes the channel on which the results are received: none of its workers is live.\<close>

definition es_Run ::
  "('st, 'j, 'm, 'u, 'x) es_deps \<Rightarrow> ('st, 'm, 'u, 'ev, 'x) sup_world \<Rightarrow>
   ('x, ('st, 'm, 'u, 'ev, 'x) sup_world) run_result option" where
  "es_Run D s = Start (es_machine D) es_ctx_err SupIdleState (Some ShutdownState) (s\<lparr>es_live := []\<rparr>)"

definition es_Shutdown :: "('st, 'm, 'u, 'ev, 'x) sup_world \<Rightarrow> ('st, 'm, 'u, 'ev, 'x) sup_world" where
  "es_Shutdown s = s\<lparr>es_shutdown := snd (latch_Signal (es_shutdown s))\<rparr>"

section \<open>Invariant\<close>

text \<open>The workers in the map are the live goroutines, each under the stream it was started for.\<close>

definition es_wf :: "('st, 'j, 'm, 'u, 'x) es_deps \<Rightarrow> ('st, 'm, 'u, 'ev, 'x) sup_world \<Rightarrow> bool" where
  "es_wf D s \<longleftrightarrow>
     (\<forall>i u. (i, u) \<in> set (es_live s) \<longleftrightarrow> (\<exists>w. pm_TryGet D (es_workers s) u = Some w \<and> w_id w = i)) \<and>
     distinct (map fst (es_live s)) \<and>
     (\<forall>(i, u) \<in> set (es_live s). i < length (es_started s) \<and> es_started s ! i = u)"

fun dispatch_exchange :: "('u, 'ev, 'x) dispatch \<Rightarrow> ('u, 'ev, 'x) append_exchange" where
  "dispatch_exchange (Forwarded i ex) = ex"
| "dispatch_exchange (Refused ex) = ex"

fun sup_requests :: "('u, 'ev, 'x) sup_case list \<Rightarrow> ('u, 'ev) AppendRequest list" where
  "sup_requests [] = []"
| "sup_requests (SupReceived ex # cs) = Request ex # sup_requests cs"
| "sup_requests (_ # cs) = sup_requests cs"

fun dispatch_ok :: "('st, 'j, 'm, 'u, 'x) es_deps \<Rightarrow> 'u list \<Rightarrow> ('u, 'ev, 'x) dispatch \<Rightarrow> bool" where
  "dispatch_ok D started (Forwarded i ex) \<longleftrightarrow>
     i < length started \<and> started ! i = StreamID (Request ex) \<and> ex = Exchange_New (Request ex)"
| "dispatch_ok D started (Refused ex) \<longleftrightarrow>
     buffer (Response ex) = [\<lparr>f_value = zero_AppendResponse, f_err = Some (errShuttingDown D)\<rparr>]"

definition fresh_exchange :: "('u, 'ev, 'x) append_exchange \<Rightarrow> bool" where
  "fresh_exchange ex \<longleftrightarrow> ex = Exchange_New (Request ex)"

text \<open>
  \<open>reqs\<close> are all requests that the supervisor is sent, in order: those dispatched, then the
  one it holds, then those still to come.
\<close>

definition es_ok ::
  "('st, 'j, 'm, 'u, 'x) es_deps \<Rightarrow> ('u, 'ev) AppendRequest list \<Rightarrow> ('u, 'ev) AppendRequest list \<Rightarrow>
   ('st, 'm, 'u, 'ev, 'x) sup_world \<Rightarrow> bool" where
  "es_ok D reqs pend s \<longleftrightarrow> es_wf D s \<and>
     (\<forall>d \<in> set (es_log s). dispatch_ok D (es_started s) d) \<and>
     (\<forall>ex. SupReceived ex \<in> set (es_cases s) \<longrightarrow> fresh_exchange ex) \<and>
     reqs = map (Request \<circ> dispatch_exchange) (es_log s) @ pend @ sup_requests (es_cases s)"

definition sup_open_ok :: "('st, 'j, 'm, 'u, 'x) es_deps \<Rightarrow> bool" where
  "sup_open_ok D \<longleftrightarrow> proto_map_laws D \<and> (\<forall>st n t st'. j_Open D st n \<noteq> (Panic t, st'))"

lemma sup_open_okD:
  "sup_open_ok D \<Longrightarrow> proto_map_laws D" "sup_open_ok D \<Longrightarrow> j_Open D st n \<noteq> (Panic t, st')"
  by (simp_all add: sup_open_ok_def)

lemma es_wf_live_key:
  "es_wf D s \<Longrightarrow> (i, u) \<in> set (es_live s) \<longleftrightarrow> (\<exists>w. pm_TryGet D (es_workers s) u = Some w \<and> w_id w = i)"
  unfolding es_wf_def by blast

lemma es_wf_one_worker:
  assumes "es_wf D s"
  shows "distinct (map snd (es_live s))"
  unfolding distinct_map
proof (intro conjI inj_onI)
  show "distinct (es_live s)" using assms by (simp add: es_wf_def distinct_map)
  fix p q assume "p \<in> set (es_live s)" "q \<in> set (es_live s)" "snd p = snd q"
  moreover obtain i u where "p = (i, u)" by fastforce
  moreover obtain k v where "q = (k, v)" by fastforce
  ultimately show "p = q"
    using es_wf_live_key [OF assms, of i u] es_wf_live_key [OF assms, of k v] by auto
qed

lemma es_wf_started: "es_wf D s \<Longrightarrow> (i, u) \<in> set (es_live s) \<Longrightarrow> i < length (es_started s) \<and> es_started s ! i = u"
  unfolding es_wf_def by (blast dest: bspec [where x = "(i, u)"])

lemma es_wf_live: "es_wf D s \<Longrightarrow> map_of (es_live s) i = Some u \<longleftrightarrow> (i, u) \<in> set (es_live s)"
  unfolding es_wf_def using map_of_eq_Some_iff by metis

lemma es_wf_cong:
  "es_live s' = es_live s \<Longrightarrow> es_workers s' = es_workers s \<Longrightarrow> es_started s' = es_started s \<Longrightarrow>
   es_wf D s' \<longleftrightarrow> es_wf D s"
  by (simp add: es_wf_def)

lemma dispatch_ok_extend: "dispatch_ok D us d \<Longrightarrow> dispatch_ok D (us @ vs) d"
  by (cases d) (auto simp: nth_append)

text \<open>Starting a worker for a stream that has none.\<close>

lemma workerByStreamID_ok:
  assumes deps: "sup_open_ok D" and ok: "es_ok D reqs pend s"
    and w: "workerByStreamID D u s = (res, s')"
  shows "es_ok D reqs pend s' \<and> es_cases s' = es_cases s \<and> es_latches s' = es_latches s \<and>
    es_ctx_err s' = es_ctx_err s \<and>
    (case res of Ok r \<Rightarrow> (w_id r, u) \<in> set (es_live s') | Err x \<Rightarrow> True | Panic t \<Rightarrow> False)"
proof (cases "pm_TryGet D (es_workers s) u")
  case (Some r)
  with w have "res = Ok r" "s' = s" by (simp_all add: workerByStreamID_def)
  with ok Some show ?thesis by (auto simp: es_ok_def es_wf_def)
next
  case None
  obtain o' st' where o: "Open D (es_journals s) u = (o', st')" by fastforce
  show ?thesis
  proof (cases o')
    case (Err x)
    with w None o have "res = Err x" "s' = s\<lparr>es_journals := st'\<rparr>"
      by (simp_all add: workerByStreamID_def startWorkerForStreamID_def)
    with ok show ?thesis by (simp add: es_ok_def es_wf_def)
  next
    case (Panic t)
    with o sup_open_okD(2) [OF deps, of "es_journals s"] show ?thesis by (simp add: Open_def)
  next
    case (Ok j)
    let ?n = "length (es_started s)"
    from Ok w None o have eq: "res = Ok \<lparr>w_id = ?n, w_Journal = j\<rparr>"
      "s' = s\<lparr>es_journals := st', es_started := es_started s @ [u], es_live := es_live s @ [(?n, u)],
         es_workers := pm_Set D (es_workers s) u \<lparr>w_id = ?n, w_Journal = j\<rparr>\<rparr>"
      by (simp_all add: workerByStreamID_def startWorkerForStreamID_def Let_def)
    have wf: "es_wf D s" using ok by (simp add: es_ok_def)
    have fresh: "?n \<notin> set (map fst (es_live s))" using es_wf_started [OF wf] by fastforce
    note key = es_wf_live_key [OF wf]
    with None have nou: "(i, u) \<notin> set (es_live s)" for i by (simp add: key)
    have "es_wf D s'"
      unfolding es_wf_def
    proof (intro conjI allI)
      show "(i, v) \<in> set (es_live s') \<longleftrightarrow>
          (\<exists>w. pm_TryGet D (es_workers s') v = Some w \<and> w_id w = i)" for i v
        using nou [of i] by (auto simp: eq key proto_map_simps(2) [OF sup_open_okD(1) [OF deps]])
      show "distinct (map fst (es_live s'))" using wf fresh by (simp add: eq es_wf_def)
      show "\<forall>(i, v) \<in> set (es_live s'). i < length (es_started s') \<and> es_started s' ! i = v"
        using wf by (auto simp: eq es_wf_def nth_append)
    qed
    with ok eq show ?thesis by (auto simp: es_ok_def dispatch_ok_extend)
  qed
qed

text \<open>Receiving a result: the worker is removed from the map and is not live any more.\<close>

lemma recv_remove_ok:
  assumes deps: "sup_open_ok D" and ok: "es_ok D reqs pend s"
    and r: "recv_workerStopped i e s = Some (res, s1)"
  shows "res_Err res = e" "es_ok D reqs pend (remove_worker D res s1)"
    "es_latches s1 = es_latches s" "es_cases s1 = es_cases s" "es_ctx_err s1 = es_ctx_err s"
proof -
  have wf: "es_wf D s" using ok by (simp add: es_ok_def)
  from r obtain u where u: "map_of (es_live s) i = Some u"
    and eq: "res = \<lparr>res_StreamID = u, res_Err = e\<rparr>"
      "s1 = s\<lparr>es_live := filter (\<lambda>p. fst p \<noteq> i) (es_live s)\<rparr>"
    by (auto simp: recv_workerStopped_def split: option.splits)
  then have iu: "(i, u) \<in> set (es_live s)" using es_wf_live [OF wf] by blast
  note key = es_wf_live_key [OF wf]
  have other: "(k, v) \<in> set (es_live s) \<Longrightarrow> k \<noteq> i \<longleftrightarrow> v \<noteq> u" for k v
    using iu key [of i u] key [of k v] u es_wf_live [OF wf, of i v] by auto
  have "es_wf D (remove_worker D res s1)"
    unfolding es_wf_def
  proof (intro conjI allI)
    show "(k, v) \<in> set (es_live (remove_worker D res s1)) \<longleftrightarrow>
        (\<exists>w. pm_TryGet D (es_workers (remove_worker D res s1)) v = Some w \<and> w_id w = k)" for k v
      using key [of k v] other [of k v]
      by (auto simp: remove_worker_def eq proto_map_simps(3) [OF sup_open_okD(1) [OF deps]])
    show "distinct (map fst (es_live (remove_worker D res s1)))"
      using wf by (simp add: remove_worker_def eq es_wf_def distinct_map_filter)
    show "\<forall>(k, v) \<in> set (es_live (remove_worker D res s1)).
        k < length (es_started (remove_worker D res s1)) \<and> es_started (remove_worker D res s1) ! k = v"
      using wf by (auto simp: remove_worker_def eq es_wf_def)
  qed
  with ok show "es_ok D reqs pend (remove_worker D res s1)" by (simp add: es_ok_def remove_worker_def eq)
  show "res_Err res = e" "es_latches s1 = es_latches s" "es_cases s1 = es_cases s" "es_ctx_err s1 = es_ctx_err s"
    by (simp_all add: eq)
qed

lemma refuse_fresh:
  assumes "fresh_exchange ex"
  shows "refuse D ex act s = Done act (s\<lparr>es_log := es_log s @ [Refused (ex\<lparr>Response :=
    \<lparr>capacity = 1, buffer = [\<lparr>f_value = zero_AppendResponse, f_err = Some (errShuttingDown D)\<rparr>],
     closed = False\<rparr>\<rparr>)]\<rparr>)"
  using assms unfolding fresh_exchange_def
  by (cases ex) (simp add: refuse_def Exchange_Err_def Exchange_New_def chan_defs)

lemma es_ok_fields:
  "es_ok D reqs pend (s\<lparr>es_ctx_err := e\<rparr>) \<longleftrightarrow> es_ok D reqs pend s"
  "es_ok D reqs pend (s\<lparr>es_latches := ls\<rparr>) \<longleftrightarrow> es_ok D reqs pend s"
  by (simp_all add: es_ok_def es_wf_def)

text \<open>Taking the next case, and dispatching the exchange that is held.\<close>

lemma es_ok_case:
  assumes "es_ok D reqs pend s" "es_cases s = c # cs"
  shows "(\<forall>ex. c \<noteq> SupReceived ex) \<Longrightarrow> es_ok D reqs pend (s\<lparr>es_cases := cs\<rparr>)"
    and "c = SupReceived ex \<Longrightarrow> pend = [] \<Longrightarrow> es_ok D reqs [Request ex] (s\<lparr>es_cases := cs\<rparr>) \<and> fresh_exchange ex"
  using assms by (cases c; auto simp: es_ok_def es_wf_def)+

lemma es_ok_dispatch:
  assumes "es_ok D reqs [Request ex] s" "dispatch_ok D (es_started s) d" "Request (dispatch_exchange d) = Request ex"
  shows "es_ok D reqs [] (s\<lparr>es_log := es_log s @ [d]\<rparr>)"
  using assms by (auto simp: es_ok_def es_wf_def)

lemma es_ok_refuse:
  assumes "es_ok D reqs [Request ex] s" "fresh_exchange ex"
  shows "\<exists>s'. refuse D ex act s = Done act s' \<and> es_ok D reqs [] s' \<and>
    es_latches s' = es_latches s \<and> es_cases s' = es_cases s \<and> es_ctx_err s' = es_ctx_err s"
  unfolding refuse_fresh [OF assms(2)] using es_ok_dispatch [OF assms(1)] by simp

section \<open>Contract of the machine\<close>

fun sup_pending :: "('u, 'ev, 'x) sup_state \<Rightarrow> ('u, 'ev, 'x) append_exchange list" where
  "sup_pending (ForwardAppendState ex) = [ex]"
| "sup_pending _ = []"

definition es_inv ::
  "('st, 'j, 'm, 'u, 'x) es_deps \<Rightarrow> ('u, 'ev) AppendRequest list \<Rightarrow> ('u, 'ev, 'x) sup_state \<Rightarrow>
   ('st, 'm, 'u, 'ev, 'x) sup_world \<Rightarrow> bool" where
  "es_inv D reqs q s \<longleftrightarrow> sup_open_ok D \<and> q \<noteq> ShutdownState \<and>
     es_ok D reqs (map Request (sup_pending q)) s \<and> (\<forall>ex \<in> set (sup_pending q). fresh_exchange ex) \<and>
     es_latches s = (\<lambda>_. zero_latch)"

definition es_stopped ::
  "('st, 'j, 'm, 'u, 'x) es_deps \<Rightarrow> ('u, 'ev) AppendRequest list \<Rightarrow> 'x option \<Rightarrow>
   ('st, 'm, 'u, 'ev, 'x) sup_world \<Rightarrow> bool" where
  "es_stopped D reqs e s \<longleftrightarrow> sup_open_ok D \<and> e \<noteq> None \<and> es_ok D reqs [] s \<and> es_latches s = (\<lambda>_. zero_latch)"

definition es_post ::
  "('st, 'j, 'm, 'u, 'x) es_deps \<Rightarrow> ('u, 'ev) AppendRequest list \<Rightarrow> 'x option \<Rightarrow>
   ('st, 'm, 'u, 'ev, 'x) sup_world \<Rightarrow> bool" where
  "es_post D reqs e s \<longleftrightarrow> e \<noteq> None \<and> es_ok D reqs [] s \<and> es_live s = []"

definition es_paused ::
  "('st, 'j, 'm, 'u, 'x) es_deps \<Rightarrow> ('u, 'ev) AppendRequest list \<Rightarrow> ('st, 'm, 'u, 'ev, 'x) sup_world \<Rightarrow> bool" where
  "es_paused D reqs s \<longleftrightarrow> (\<exists>pend. length pend \<le> 1 \<and> es_ok D reqs pend s)"

fun es_action_ok ::
  "('st, 'j, 'm, 'u, 'x) es_deps \<Rightarrow> ('u, 'ev) AppendRequest list \<Rightarrow> ('u, 'ev, 'x) sup_state \<Rightarrow>
   ('st, 'm, 'u, 'ev, 'x) sup_result \<Rightarrow> bool" where
  "es_action_ok D reqs q (Done act s) \<longleftrightarrow>
     (case act of Stop \<Rightarrow> es_stopped D reqs (es_ctx_err s) s | Fail e \<Rightarrow> es_stopped D reqs (Some e) s
      | StayInCurrentState \<Rightarrow> es_inv D reqs q s | EnterState q' \<Rightarrow> es_inv D reqs q' s | NoAction \<Rightarrow> False)"
| "es_action_ok D reqs q (Panics t s) \<longleftrightarrow> False"
| "es_action_ok D reqs q (Blocks s) \<longleftrightarrow> es_paused D reqs s"

lemma es_ok_paused: "es_ok D reqs pend s \<Longrightarrow> length pend \<le> 1 \<Longrightarrow> es_paused D reqs s"
  by (auto simp: es_paused_def)

lemma sup_idleState_ok:
  assumes inv: "es_inv D reqs SupIdleState s"
  shows "es_action_ok D reqs SupIdleState (sup_idleState D s)"
proof -
  have deps: "sup_open_ok D" and ok: "es_ok D reqs [] s" and ls: "es_latches s = (\<lambda>_. zero_latch)"
    using inv by (simp_all add: es_inv_def)
  show ?thesis
  proof (cases "es_cases s")
    case Nil
    with ok show ?thesis by (simp add: sup_idleState_def es_ok_paused)
  next
    case (Cons c cs)
    note one = es_ok_case [OF ok Cons]
    show ?thesis
    proof (cases c)
      case (SupCtxDone x)
      with one(1) Cons deps ls show ?thesis by (simp add: sup_idleState_def es_stopped_def es_ok_fields)
    next
      case (WorkerReports i e)
      with one(1) have ok1: "es_ok D reqs [] (s\<lparr>es_cases := cs\<rparr>)" by simp
      show ?thesis
      proof (cases "recv_workerStopped i e (s\<lparr>es_cases := cs\<rparr>)")
        case None
        with Cons WorkerReports ok show ?thesis by (simp add: sup_idleState_def es_ok_paused)
      next
        case (Some p)
        obtain res s1 where p: "p = (res, s1)" by fastforce
        from recv_remove_ok [OF deps ok1 Some [unfolded p]] Cons WorkerReports Some p deps ls
        show ?thesis
          by (simp add: sup_idleState_def es_inv_def es_stopped_def remove_worker_def split: option.splits)
      qed
    next
      case (SupReceived ex)
      with one(2) [of ex] Cons deps ls show ?thesis by (simp add: sup_idleState_def With_def es_inv_def)
    next
      case SendProceeds
      with Cons ok show ?thesis by (simp add: sup_idleState_def es_ok_paused)
    qed
  qed
qed

text \<open>The report of a worker while the supervisor waits to send an exchange.\<close>

lemma forward_reports_ok:
  assumes deps: "sup_open_ok D" and ok: "es_ok D reqs [Request ex] s" and fresh: "fresh_exchange ex"
    and ls: "es_latches s = (\<lambda>_. zero_latch)" and cases: "es_cases s = WorkerReports i e # cs"
  shows "es_action_ok D reqs (ForwardAppendState ex)
    (case recv_workerStopped i e (s\<lparr>es_cases := cs\<rparr>) of
       None \<Rightarrow> Blocks s
     | Some (res, s') \<Rightarrow>
         (case res_Err res of
            Some x \<Rightarrow> refuse D ex (Fail x) (remove_worker D res s')
          | None \<Rightarrow> Done StayInCurrentState (remove_worker D res s')))"
proof (cases "recv_workerStopped i e (s\<lparr>es_cases := cs\<rparr>)")
  case None
  with ok show ?thesis by (simp add: es_ok_paused)
next
  case some: (Some p)
  obtain rs s2 where p: "p = (rs, s2)" by fastforce
  have "es_ok D reqs [Request ex] (s\<lparr>es_cases := cs\<rparr>)" using es_ok_case(1) [OF ok cases] by simp
  note r = recv_remove_ok [OF deps this some [unfolded p]]
  show ?thesis
  proof (cases e)
    case None
    with r some p deps ls fresh show ?thesis by (simp add: es_inv_def remove_worker_def)
  next
    case (Some x)
    with es_ok_refuse [OF r(2) fresh, of "Fail x"] r some p deps ls show ?thesis
      by (auto simp: es_stopped_def remove_worker_def)
  qed
qed

lemma forward_sent_ok:
  assumes "es_ok D reqs [Request ex] s" and "fresh_exchange ex" and live: "(i, StreamID (Request ex)) \<in> set (es_live s)"
    and "es_ok D reqs [Request ex] (s\<lparr>es_cases := cs\<rparr>)"
  shows "es_ok D reqs [] (s\<lparr>es_cases := cs, es_log := es_log s @ [Forwarded i ex]\<rparr>)"
    and "map_of (es_live s) i = Some (StreamID (Request ex))"
proof -
  have wf: "es_wf D s" using assms(1) by (simp add: es_ok_def)
  show "es_ok D reqs [] (s\<lparr>es_cases := cs, es_log := es_log s @ [Forwarded i ex]\<rparr>)"
    using es_ok_dispatch [OF assms(4), of "Forwarded i ex"] es_wf_started [OF wf live] assms(2)
    by (simp add: fresh_exchange_def)
  show "map_of (es_live s) i = Some (StreamID (Request ex))"
    using es_wf_live [OF wf] live by blast
qed

lemma forwardAppendState_ok:
  assumes inv: "es_inv D reqs (ForwardAppendState ex) s"
  shows "es_action_ok D reqs (ForwardAppendState ex) (forwardAppendState D ex s)"
proof -
  have deps: "sup_open_ok D" and ok: "es_ok D reqs [Request ex] s" and fresh: "fresh_exchange ex"
    and ls: "es_latches s = (\<lambda>_. zero_latch)" using inv by (simp_all add: es_inv_def)
  obtain res s1 where w: "workerByStreamID D (StreamID (Request ex)) s = (res, s1)" by fastforce
  note st = workerByStreamID_ok [OF deps ok w]
  then have ok1: "es_ok D reqs [Request ex] s1" and ls1: "es_latches s1 = (\<lambda>_. zero_latch)"
    using ls by auto
  show ?thesis
  proof (cases res)
    case (Err x)
    with es_ok_refuse [OF ok1 fresh, of "Fail x"] w deps ls1 show ?thesis
      by (auto simp: forwardAppendState_def es_stopped_def)
  next
    case (Panic t)
    with st show ?thesis by simp
  next
    case (Ok r)
    show ?thesis
    proof (cases "es_cases s1")
      case Nil
      with w Ok ok1 show ?thesis by (simp add: forwardAppendState_def es_ok_paused)
    next
      case (Cons c cs)
      note one = es_ok_case [OF ok1 Cons]
      show ?thesis
      proof (cases c)
        case (SupCtxDone x)
        with one(1) have "es_ok D reqs [Request ex] (s1\<lparr>es_cases := cs, es_ctx_err := Some x\<rparr>)"
          by (simp add: es_ok_fields)
        from es_ok_refuse [OF this fresh, of Stop] w Ok Cons SupCtxDone deps ls1 show ?thesis
          by (auto simp: forwardAppendState_def es_stopped_def)
      next
        case (WorkerReports i e)
        with forward_reports_ok [OF deps ok1 fresh ls1, of i e cs] w Ok Cons show ?thesis
          by (simp add: forwardAppendState_def)
      next
        case (SupReceived ex')
        with w Ok Cons ok1 show ?thesis by (simp add: forwardAppendState_def es_ok_paused)
      next
        case SendProceeds
        have "(w_id r, StreamID (Request ex)) \<in> set (es_live s1)" using st Ok by simp
        from forward_sent_ok [OF ok1 fresh this, of cs] one(1) w Ok Cons SendProceeds deps ls1 show ?thesis
          by (simp add: forwardAppendState_def es_inv_def)
      qed
    qed
  qed
qed

lemma recv_workerStopped_cases:
  "recv_workerStopped i e (s\<lparr>es_cases := cs\<rparr>) =
     map_option (\<lambda>(res, s'). (res, s'\<lparr>es_cases := cs\<rparr>)) (recv_workerStopped i e s)"
  by (simp add: recv_workerStopped_def split: option.splits)

lemma remove_worker_cases: "remove_worker D res (s\<lparr>es_cases := cs\<rparr>) = remove_worker D res s\<lparr>es_cases := cs\<rparr>"
  by (cases s) (simp add: remove_worker_def)

lemma es_ok_no_workers:
  assumes "sup_open_ok D" "es_ok D reqs pend s" "pm_Len D (es_workers s) = 0"
  shows "es_live s = []"
proof -
  have "pm_TryGet D (es_workers s) = Map.empty"
    using proto_map_Len_0 [OF sup_open_okD(1) [OF assms(1)]] assms(3) by blast
  then have "(i, u) \<notin> set (es_live s)" for i u
    using assms(2) es_wf_live_key [of D s i u] by (simp add: es_ok_def)
  then show ?thesis by (metis list.set_intros(1) neq_Nil_conv surj_pair)
qed

lemma await_workers_ok:
  assumes deps: "sup_open_ok D" and "es_ok D reqs [] (s\<lparr>es_cases := cs\<rparr>)"
  shows "case await_workers D cs s of
      Done act s' \<Rightarrow> act = Stop \<and> es_ok D reqs [] s' \<and> es_live s' = [] \<and> es_ctx_err s' = es_ctx_err s \<and>
        es_latches s' = es_latches s
    | Panics t s' \<Rightarrow> False | Blocks s' \<Rightarrow> es_ok D reqs [] s' \<and> es_latches s' = es_latches s"
  using assms(2)
proof (induction cs arbitrary: s)
  case Nil
  then show ?case
    using es_ok_no_workers [OF deps Nil.prems] by (simp add: await_workers.simps)
next
  case (Cons c cs)
  show ?case
  proof (cases "pm_Len D (es_workers s) = 0")
    case True
    with Cons.prems show ?thesis
      using es_ok_no_workers [OF deps Cons.prems] by (simp add: await_workers.simps)
  next
    case False
    show ?thesis
    proof (cases "\<exists>i e p. c = WorkerReports i e \<and> recv_workerStopped i e s = Some p")
      case True
      then obtain i e res s1 where c: "c = WorkerReports i e" "recv_workerStopped i e s = Some (res, s1)"
        by auto
      then have r: "recv_workerStopped i e (s\<lparr>es_cases := cs\<rparr>) = Some (res, s1\<lparr>es_cases := cs\<rparr>)"
        by (simp add: recv_workerStopped_cases)
      have "es_ok D reqs [] (s\<lparr>es_cases := cs\<rparr>)"
        using es_ok_case(1) [OF Cons.prems] c(1) by simp
      note rm = recv_remove_ok [OF deps this r]
      then have "es_ok D reqs [] (remove_worker D res s1\<lparr>es_cases := cs\<rparr>)"
        by (simp add: remove_worker_cases)
      from Cons.IH [OF this] c rm False show ?thesis
        by (subst await_workers.simps) (simp add: remove_worker_def cong: state_result.case_cong)
    next
      case no: False
      then have "await_workers D (c # cs) s = Blocks (s\<lparr>es_cases := c # cs\<rparr>)"
        using False by (subst await_workers.simps) (auto split: sup_case.splits option.splits)
      with Cons.prems show ?thesis by simp
    qed
  qed
qed

text \<open>The latches of all workers in the map are closed before the supervisor waits for them.\<close>

definition signalled :: latch where
  "signalled = snd (latch_Signal zero_latch)"

lemma latch_Signal_zero: "latch_Signal zero_latch = (Returned_pc, signalled)"
  by (simp add: signalled_def latch_Signal_def zero_latch_def latch_signal_def chan_defs)

lemma signalled_readable: "readable (fst (latch_Signaled signalled))"
  by (simp add: signalled_def latch_Signal_def zero_latch_def latch_signal_def latch_Signaled_def readable_def
      chan_defs)

lemma signal_workers_all:
  assumes "distinct (map (\<lambda>(k, w). w_id w) ws)" "\<forall>(k, w) \<in> set ws. ls (w_id w) = zero_latch"
  shows "signal_workers ws ls = Some (\<lambda>i. if i \<in> (\<lambda>(k, w). w_id w) ` set ws then signalled else ls i)"
  using assms
proof (induction ws arbitrary: ls)
  case (Cons p ws)
  obtain k w where p: "p = (k, w)" by fastforce
  have "w_id x \<noteq> w_id w" if "(u, x) \<in> set ws" for u x
    using Cons.prems(1) that p by force
  then have "\<forall>(k, x) \<in> set ws. (ls(w_id w := signalled)) (w_id x) = zero_latch"
    using Cons.prems(2) by auto
  with Cons.IH [of "ls(w_id w := signalled)"] Cons.prems p
  have "signal_workers (p # ws) ls =
      Some (\<lambda>i. if i \<in> (\<lambda>(k, w). w_id w) ` set ws then signalled else (ls(w_id w := signalled)) i)"
    by (simp add: latch_Signal_zero del: fun_upd_apply)
  with p show ?case by (simp add: fun_eq_iff)
qed simp

lemma signal_workers_live:
  assumes deps: "sup_open_ok D" and wf: "es_wf D s" and ls: "es_latches s = (\<lambda>_. zero_latch)"
  shows "signal_workers (pm_All D (es_workers s)) (es_latches s) =
    Some (\<lambda>i. if i \<in> fst ` set (es_live s) then signalled else zero_latch)"
proof -
  note laws = sup_open_okD(1) [OF deps]
  let ?ws = "pm_All D (es_workers s)"
  have mem: "(u, w) \<in> set ?ws \<longleftrightarrow> pm_TryGet D (es_workers s) u = Some w" for u w
    by (rule proto_map_All [OF laws])
  have "distinct (map (\<lambda>(k, w). w_id w) ?ws)"
    unfolding distinct_map
  proof (intro conjI inj_onI)
    show "distinct ?ws" using proto_map_simps(5) [OF laws] by (metis distinct_map)
    fix p q assume pq: "p \<in> set ?ws" "q \<in> set ?ws" "(case p of (k, w) \<Rightarrow> w_id w) = (case q of (k, w) \<Rightarrow> w_id w)"
    obtain u w v x where e: "p = (u, w)" "q = (v, x)" by fastforce
    have g: "pm_TryGet D (es_workers s) u = Some w" "pm_TryGet D (es_workers s) v = Some x" "w_id w = w_id x"
      using pq mem [of u w] mem [of v x] unfolding e by simp_all
    then have "map_of (es_live s) (w_id w) = Some u" "map_of (es_live s) (w_id w) = Some v"
      unfolding es_wf_live [OF wf] es_wf_live_key [OF wf] by simp_all
    with g e show "p = q" by simp
  qed
  moreover have "(\<lambda>(k, w). w_id w) ` set ?ws = fst ` set (es_live s)"
  proof (intro equalityI subsetI)
    fix i assume "i \<in> (\<lambda>(k, w). w_id w) ` set ?ws"
    then obtain u w where "(u, w) \<in> set ?ws" "i = w_id w" by auto
    then have "(i, u) \<in> set (es_live s)" using mem es_wf_live_key [OF wf] by blast
    then show "i \<in> fst ` set (es_live s)" by force
  next
    fix i assume "i \<in> fst ` set (es_live s)"
    then obtain u where "(i, u) \<in> set (es_live s)" by auto
    then obtain w where "(u, w) \<in> set ?ws" "w_id w = i" using mem es_wf_live_key [OF wf] by blast
    then show "i \<in> (\<lambda>(k, w). w_id w) ` set ?ws" by force
  qed
  ultimately show ?thesis using signal_workers_all [of ?ws "\<lambda>_. zero_latch"] unfolding ls by simp
qed

lemma shutdownState_ok:
  assumes st: "es_stopped D reqs e s"
  shows "case shutdownState D s of
      Done act s' \<Rightarrow> act = Stop \<and> es_post D reqs e s' \<and>
        (\<forall>i \<in> fst ` set (es_live s). es_latches s' i = signalled)
    | Panics t s' \<Rightarrow> False
    | Blocks s' \<Rightarrow> es_paused D reqs s' \<and> (\<forall>i \<in> fst ` set (es_live s). es_latches s' i = signalled)"
proof -
  have deps: "sup_open_ok D" and ok: "es_ok D reqs [] s" and ls: "es_latches s = (\<lambda>_. zero_latch)" and "e \<noteq> None"
    using st by (simp_all add: es_stopped_def)
  define l where "l = (\<lambda>i. if i \<in> fst ` set (es_live s) then signalled else zero_latch)"
  have eq: "shutdownState D s = await_workers D (es_cases s) (s\<lparr>es_latches := l\<rparr>)"
    using signal_workers_live [OF deps _ ls] ok by (simp add: shutdownState_def l_def es_ok_def)
  have "s\<lparr>es_latches := l, es_cases := es_cases s\<rparr> = s\<lparr>es_latches := l\<rparr>" by simp
  with ok have "es_ok D reqs [] (s\<lparr>es_latches := l, es_cases := es_cases s\<rparr>)" by (simp add: es_ok_fields)
  from await_workers_ok [OF deps this] \<open>e \<noteq> None\<close> show ?thesis
    unfolding eq es_post_def by (auto simp: l_def es_ok_paused split: state_result.splits)
qed

lemma es_machine_ok: "es_inv D reqs q s \<Longrightarrow> es_action_ok D reqs q (es_machine D q s)"
  by (cases q) (simp_all add: sup_idleState_ok forwardAppendState_ok, simp add: es_inv_def)

interpretation es_fsm: fsm_final_contract "es_machine D" es_ctx_err "es_inv D reqs" "es_stopped D reqs"
  "es_paused D reqs" "\<lambda>t s. False" ShutdownState "es_post D reqs"
proof unfold_locales
  fix q s
  assume inv: "es_inv D reqs q s"
  note ok = es_machine_ok [OF inv]
  show "es_stopped D reqs (es_ctx_err s') s'" if "es_machine D q s = Done Stop s'" for s'
    using ok that by simp
  show "es_stopped D reqs (Some e) s'" if "es_machine D q s = Done (Fail e) s'" for e s'
    using ok that by simp
  show "es_inv D reqs q s'" if "es_machine D q s = Done StayInCurrentState s'" for s'
    using ok that by simp
  show "es_inv D reqs q' s'" if "es_machine D q s = Done (EnterState q') s'" for q' s'
    using ok that by simp
  show "es_machine D q s \<noteq> Done NoAction s'" for s' using ok by auto
  show False if "es_machine D q s = Panics t s'" for t s' using ok that by auto
  show "es_paused D reqs s'" if "es_machine D q s = Blocks s'" for s' using ok that by simp
next
  fix e s
  assume st: "es_stopped D reqs e s"
  note ok = shutdownState_ok [OF st]
  have some: "(case e of None \<Rightarrow> es_ctx_err s' | Some x \<Rightarrow> Some x) = e" for s'
    using st by (auto simp: es_stopped_def)
  show "act = Stop \<and> es_post D reqs (case e of None \<Rightarrow> es_ctx_err s' | Some x \<Rightarrow> Some x) s'"
    if "es_machine D ShutdownState s = Done act s'" for act s'
    unfolding some using ok that by simp
  show False if "es_machine D ShutdownState s = Panics t s'" for t s' using ok that by auto
  show "es_paused D reqs s'" if "es_machine D ShutdownState s = Blocks s'" for s' using ok that by simp
qed

text \<open>Every turn but the last uses up a case.\<close>

definition es_meas :: "('u, 'ev, 'x) sup_state \<Rightarrow> ('st, 'm, 'u, 'ev, 'x) sup_world \<Rightarrow> nat" where
  "es_meas q s = length (es_cases s)"

lemma recv_workerStopped_length:
  "recv_workerStopped i e s = Some (res, s') \<Longrightarrow> es_cases (remove_worker D res s') = es_cases s"
  by (auto simp: recv_workerStopped_def remove_worker_def split: option.splits)

lemma workerByStreamID_cases: "workerByStreamID D u s = (res, s') \<Longrightarrow> es_cases s' = es_cases s"
  by (auto simp: workerByStreamID_def startWorkerForStreamID_def Let_def split: option.splits outcome.splits prod.splits)

lemma refuse_moves: "refuse D ex act s = Done act' s' \<Longrightarrow> act' = act"
  by (auto simp: refuse_def split: chan_op.splits)

lemma await_workers_action: "await_workers D cs s = Done act s' \<Longrightarrow> act = Stop"
proof (induction cs arbitrary: s)
  case Nil
  then show ?case by (simp add: await_workers.simps split: if_splits)
next
  case (Cons c cs)
  then show ?case
    by (subst (asm) (2) await_workers.simps) (auto split: if_splits sup_case.splits option.splits)
qed

lemma es_machine_moves:
  assumes "es_machine D q s = Done act s'" "act = StayInCurrentState \<or> act = EnterState q'"
  shows "length (es_cases s') < length (es_cases s)"
proof (cases q)
  case SupIdleState
  with assms show ?thesis
    by (auto simp: sup_idleState_def With_def dest!: recv_workerStopped_length [where D = D]
        split: list.splits sup_case.splits option.splits)
next
  case (ForwardAppendState ex)
  obtain res s1 where w: "workerByStreamID D (StreamID (Request ex)) s = (res, s1)" by fastforce
  from assms ForwardAppendState w workerByStreamID_cases [OF w] show ?thesis
    by (auto simp: forwardAppendState_def dest: refuse_moves dest!: recv_workerStopped_length [where D = D]
        split: outcome.splits list.splits sup_case.splits option.splits if_splits)
next
  case ShutdownState
  with assms show ?thesis
    by (auto simp: shutdownState_def dest: await_workers_action split: option.splits)
qed

interpretation es_fsm: fsm_final_progress "es_machine D" es_ctx_err es_meas ShutdownState
  by unfold_locales (auto simp: es_meas_def shutdownState_def dest: es_machine_moves await_workers_action
      split: option.splits)

section \<open>The shutdown latch\<close>

text \<open>No state reads the latch of the supervisor.\<close>

lemma es_machine_shutdown:
  fixes l :: latch
  defines "f \<equiv> \<lambda>s. s\<lparr>es_shutdown := l\<rparr>"
  shows "es_machine D q (f s) = map_state_result id id f (es_machine D q s)"
proof -
  have recv: "recv_workerStopped i e (f s) = map_option (map_prod id f) (recv_workerStopped i e s)" for i e s
    by (simp add: recv_workerStopped_def f_def split: option.splits)
  have rm: "remove_worker D res (f s) = f (remove_worker D res s)" for res s
    by (simp add: remove_worker_def f_def)
  have upd: "(f s)\<lparr>es_cases := cs\<rparr> = f (s\<lparr>es_cases := cs\<rparr>)" "(f s)\<lparr>es_latches := ls\<rparr> = f (s\<lparr>es_latches := ls\<rparr>)"
    "(f s)\<lparr>es_ctx_err := x\<rparr> = f (s\<lparr>es_ctx_err := x\<rparr>)" "(f s)\<lparr>es_log := lg\<rparr> = f (s\<lparr>es_log := lg\<rparr>)"
    "es_cases (f s) = es_cases s" "es_workers (f s) = es_workers s" "es_latches (f s) = es_latches s"
    "es_log (f s) = es_log s" "es_live (f s) = es_live s" for s cs ls x lg
    by (simp_all add: f_def)
  have ref: "refuse D ex act (f s) = map_state_result id id f (refuse D ex act s)" for ex act s
    by (simp add: refuse_def f_def action.map_id split: chan_op.split)
  have wk: "workerByStreamID D u (f s) = map_prod id f (workerByStreamID D u s)" for u s
    by (simp add: workerByStreamID_def startWorkerForStreamID_def f_def Let_def
        split: option.split outcome.split prod.split)
  have aw: "await_workers D cs (f s) = map_state_result id id f (await_workers D cs s)" for cs s
  proof (induction cs arbitrary: s)
    case Nil
    show ?case by (simp add: await_workers.simps upd)
  next
    case (Cons c cs)
    show ?case
      by (subst (1 2) await_workers.simps)
        (simp add: upd recv rm Cons.IH id_def split: sup_case.split option.split prod.split)
  qed
  show ?thesis
  proof (cases q)
    case SupIdleState
    then show ?thesis
      by (simp add: sup_idleState_def upd recv rm With_def split: list.split sup_case.split option.split prod.split)
  next
    case (ForwardAppendState ex)
    then show ?thesis
      by (simp add: forwardAppendState_def upd recv rm ref wk
          split: list.split sup_case.split option.split prod.split outcome.split) auto
  next
    case ShutdownState
    then show ?thesis by (simp add: shutdownState_def upd aw split: option.split)
  qed
qed

lemma es_Run_returns: "\<exists>r. es_Run D s = Some r"
  unfolding es_Run_def by (rule es_fsm.Start_final_returns)

lemma await_workers_all:
  assumes deps: "sup_open_ok D" and "es_ok D reqs [] (s\<lparr>es_cases := map (\<lambda>(i, e). WorkerReports i e) rs\<rparr>)"
    and "distinct (map fst rs)" "fst ` set rs = fst ` set (es_live s)"
  shows "\<exists>s'. await_workers D (map (\<lambda>(i, e). WorkerReports i e) rs) s = Done Stop s' \<and> es_live s' = []"
  using assms(2-)
proof (induction rs arbitrary: s)
  case Nil
  then have "es_live s = []" by simp
  moreover have "es_wf D s" using Nil.prems(1) by (simp add: es_ok_def es_wf_def)
  ultimately have "pm_TryGet D (es_workers s) u = None" for u
    using es_wf_live_key [of D s _ u] by (metis empty_iff list.set(1) not_None_eq)
  then have "pm_Len D (es_workers s) = 0"
    using proto_map_Len_0 [OF sup_open_okD(1) [OF deps]] by (simp add: fun_eq_iff)
  with \<open>es_live s = []\<close> show ?case by (simp add: await_workers.simps)
next
  case (Cons p rs)
  obtain i e where p: "p = (i, e)" by fastforce
  have wf: "es_wf D s" using Cons.prems(1) by (simp add: es_ok_def es_wf_def)
  obtain u where u: "(i, u) \<in> set (es_live s)" using Cons.prems(3) p by force
  then have m: "map_of (es_live s) i = Some u" using es_wf_live [OF wf] by blast
  let ?res = "\<lparr>res_StreamID = u, res_Err = e\<rparr>"
  let ?s1 = "s\<lparr>es_live := filter (\<lambda>p. fst p \<noteq> i) (es_live s)\<rparr>"
  have r: "recv_workerStopped i e s = Some (?res, ?s1)" by (simp add: recv_workerStopped_def m)
  have len: "pm_Len D (es_workers s) \<noteq> 0"
    using es_ok_no_workers [OF deps Cons.prems(1)] u by (intro notI) simp
  let ?cs = "map (\<lambda>(i, e). WorkerReports i e) rs"
  have ok: "es_ok D reqs [] (s\<lparr>es_cases := ?cs\<rparr>)" using es_ok_case(1) [OF Cons.prems(1)] p by simp
  have "recv_workerStopped i e (s\<lparr>es_cases := ?cs\<rparr>) = Some (?res, ?s1\<lparr>es_cases := ?cs\<rparr>)"
    unfolding recv_workerStopped_cases r by simp
  from recv_remove_ok(2) [OF deps ok this] have "es_ok D reqs [] (remove_worker D ?res ?s1\<lparr>es_cases := ?cs\<rparr>)"
    unfolding remove_worker_cases .
  moreover have "fst ` set rs = fst ` set (es_live (remove_worker D ?res ?s1))"
  proof -
    have "fst ` set (es_live (remove_worker D ?res ?s1)) = fst ` set (es_live s) - {i}"
      by (auto simp: remove_worker_def)
    also have "\<dots> = fst ` set rs"
      unfolding Cons.prems(3) [symmetric] using Cons.prems(2) p by simp
    finally show ?thesis by simp
  qed
  ultimately have "\<exists>s'. await_workers D ?cs (remove_worker D ?res ?s1) = Done Stop s' \<and> es_live s' = []"
    using Cons.IH Cons.prems(2) by simp
  with p r len show ?case by (subst await_workers.simps) simp
qed

text \<open>
  What holds of the supervisor at any moment of a run: no stream has two workers, an exchange was
  forwarded to a worker of its own stream or answered with \<open>errShuttingDown\<close>, and the exchanges
  were dispatched in the order of their arrival, once each (\<open>pend\<close> is the one it holds now).
\<close>

definition es_promise ::
  "('st, 'j, 'm, 'u, 'x) es_deps \<Rightarrow> ('u, 'ev) AppendRequest list \<Rightarrow> nat \<Rightarrow> ('st, 'm, 'u, 'ev, 'x) sup_world \<Rightarrow> bool" where
  "es_promise D reqs n s \<longleftrightarrow>
     distinct (map snd (es_live s)) \<and> (\<forall>(i, u) \<in> set (es_live s). es_started s ! i = u) \<and>
     (\<forall>d \<in> set (es_log s). dispatch_ok D (es_started s) d) \<and>
     (\<exists>pend. length pend \<le> n \<and>
        reqs = map (Request \<circ> dispatch_exchange) (es_log s) @ pend @ sup_requests (es_cases s))"

lemma es_ok_promise: "es_ok D reqs pend s \<Longrightarrow> length pend \<le> n \<Longrightarrow> es_promise D reqs n s"
  unfolding es_promise_def by (auto simp: es_ok_def dest: es_wf_one_worker es_wf_started)

lemma es_Run_result:
  assumes "sup_open_ok D" and "pm_TryGet D (es_workers s) = Map.empty" and "es_log s = []"
    and "es_latches s = (\<lambda>_. zero_latch)"
    and "\<forall>ex. SupReceived ex \<in> set (es_cases s) \<longrightarrow> ex = Exchange_New (Request ex)"
  shows "\<exists>r. es_Run D s = Some r \<and>
    (case r of
       Returned e s' \<Rightarrow> e \<noteq> None \<and> es_live s' = [] \<and> es_promise D (sup_requests (es_cases s)) 0 s'
     | Panicked t s' \<Rightarrow> False
     | Blocked s' \<Rightarrow> es_promise D (sup_requests (es_cases s)) 1 s')"
proof -
  let ?reqs = "sup_requests (es_cases s)"
  obtain r where r: "es_Run D s = Some r" using es_Run_returns by blast
  have "es_inv D ?reqs SupIdleState (s\<lparr>es_live := []\<rparr>)"
    using assms by (simp add: es_inv_def es_ok_def es_wf_def fresh_exchange_def)
  from es_fsm.Start_final_ok [OF this r [unfolded es_Run_def]] r show ?thesis
    by (auto simp: es_fsm.final_ok_def es_post_def es_paused_def dest: es_ok_promise split: run_result.splits)
qed

section \<open>An example\<close>

definition es_deps_with :: "'x \<Rightarrow> (unit, nat, (nat, nat worker_ref) alist, nat, 'x) es_deps" where
  "es_deps_with x = \<lparr>pm_zero = pm_zero alist_map, pm_TryGet = pm_TryGet alist_map, pm_Has = pm_Has alist_map,
     pm_Set = pm_Set alist_map, pm_Remove = pm_Remove alist_map, pm_Len = pm_Len alist_map,
     pm_All = pm_All alist_map, j_Open = (\<lambda>st n. (Ok (length n), st)), key_AsString = (\<lambda>n. replicate n CHR ''u''),
     errShuttingDown = x\<rparr>"

definition es_example_deps :: "(unit, nat, (nat, nat worker_ref) alist, nat, string) es_deps" where
  "es_example_deps = es_deps_with ''shutting down''"

lemma es_deps_with_ok: "sup_open_ok (es_deps_with x)"
  unfolding sup_open_ok_def
  by (auto intro: proto_map_laws_fields [OF alist_map_laws] simp: es_deps_with_def)

lemma es_example_deps_ok: "sup_open_ok es_example_deps"
  unfolding es_example_deps_def by (rule es_deps_with_ok)

definition es_example_exchange :: "nat \<Rightarrow> (nat, nat, 'x) append_exchange" where
  "es_example_exchange u = Exchange_New \<lparr>StreamID = u, req_Events = [7], OffsetHint = 0\<rparr>"

definition es_example_world ::
  "(nat, nat, 'x) sup_case list \<Rightarrow> (unit, (nat, nat worker_ref) alist, nat, nat, 'x) sup_world" where
  "es_example_world cs = \<lparr>es_journals = (), es_workers = pm_zero alist_map, es_shutdown = zero_latch,
     es_started = [], es_live = [], es_latches = (\<lambda>_. zero_latch), es_cases = cs, es_log = [], es_ctx_err = None\<rparr>"

definition es_example_cases :: "(nat, nat, string) sup_case list" where
  "es_example_cases = [SupReceived (es_example_exchange 1), SendProceeds, SupReceived (es_example_exchange 2),
     WorkerReports 0 None, SendProceeds, SupCtxDone ''canceled'', WorkerReports 1 (Some ''canceled'')]"

section \<open>Properties\<close>

text \<open>
C14: A run of the event stream supervisor always ends or waits and never panics. At every moment
no stream has two workers, and the exchanges it received have been dispatched in order, once
each: forwarded to a worker of their own stream, or answered with \<open>errShuttingDown\<close>. It returns
only when every worker it started has reported, holding no exchange, and always with an error.
\<close>

theorem es_Run_contract:
  assumes "sup_open_ok D" and "pm_TryGet D (es_workers s) = Map.empty" and "es_log s = []"
    and "es_latches s = (\<lambda>_. zero_latch)"
    and "\<forall>ex. SupReceived ex \<in> set (es_cases s) \<longrightarrow> ex = Exchange_New (Request ex)"
  shows "\<exists>r. es_Run D s = Some r \<and>
    (case r of
       Returned e s' \<Rightarrow> e \<noteq> None \<and> es_live s' = [] \<and> es_promise D (sup_requests (es_cases s)) 0 s'
     | Panicked t s' \<Rightarrow> False
     | Blocked s' \<Rightarrow> es_promise D (sup_requests (es_cases s)) 1 s')"
  by (rule es_Run_result [OF assms])

theorem es_Run_contract_witness:
  "\<exists>r. es_Run es_example_deps (es_example_world es_example_cases) = Some r \<and>
    (case r of Returned e s' \<Rightarrow> es_live s' = [] | Panicked t s' \<Rightarrow> False
     | Blocked s' \<Rightarrow> es_promise es_example_deps (sup_requests es_example_cases) 1 s')"
proof -
  have "pm_TryGet es_example_deps (es_workers (es_example_world es_example_cases)) = Map.empty"
    by (simp add: es_example_deps_def es_deps_with_def es_example_world_def alist_map_def fun_eq_iff)
  moreover have "\<forall>ex. SupReceived ex \<in> set es_example_cases \<longrightarrow> ex = Exchange_New (Request ex)"
    by (auto simp: es_example_cases_def es_example_exchange_def Exchange_New_def)
  ultimately show ?thesis
    using es_Run_contract [OF es_example_deps_ok, of "es_example_world es_example_cases"]
    by (auto simp: es_example_world_def split: run_result.splits)
qed

text \<open>
\<open>Shutdown\<close> does nothing: the run of a supervisor that has been told to shut down is the run
of one that has not, apart from the latch itself. In particular, with nothing else to do the
supervisor waits forever.
\<close>

lemma es_Shutdown_ignored:
  "es_Run D (es_Shutdown s) =
     map_option (map_run_result id (\<lambda>s'. s'\<lparr>es_shutdown := es_shutdown (es_Shutdown s)\<rparr>)) (es_Run D s) \<and>
   es_Run D (es_Shutdown (s\<lparr>es_cases := []\<rparr>)) = Some (Blocked (es_Shutdown (s\<lparr>es_cases := [], es_live := []\<rparr>)))"
proof
  let ?f = "\<lambda>s'. s'\<lparr>es_shutdown := es_shutdown (es_Shutdown s)\<rparr>"
  obtain r where r: "es_Run D s = Some r" using es_Run_returns by blast
  have comm: "?f (s\<lparr>es_live := []\<rparr>) = (?f s)\<lparr>es_live := []\<rparr>" by simp
  have "es_Run D (?f s) = Some (map_run_result id ?f r)"
    unfolding es_Run_def Start_def comm [symmetric]
    by (rule fsm_loop_map [OF r [unfolded es_Run_def Start_def] es_machine_shutdown]) simp
  with r show "es_Run D (es_Shutdown s) = map_option (map_run_result id ?f) (es_Run D s)"
    by (simp add: es_Shutdown_def)
next
  let ?s = "es_Shutdown (s\<lparr>es_cases := [], es_live := []\<rparr>)"
  let ?m = "\<lparr>current = Some SupIdleState, final = Some ShutdownState, err = None\<rparr>"
  have "fsm_turn (es_machine D) es_ctx_err ?m ?s = Inl (Blocked ?s)"
    by (simp add: fsm_turn_def execute_def sup_idleState_def es_Shutdown_def)
  moreover have "(es_Shutdown (s\<lparr>es_cases := []\<rparr>))\<lparr>es_live := []\<rparr> = ?s"
    by (simp add: es_Shutdown_def)
  ultimately show "es_Run D (es_Shutdown (s\<lparr>es_cases := []\<rparr>)) = Some (Blocked ?s)"
    unfolding es_Run_def Start_def by (simp add: fsm_loop_turns(1))
qed

text \<open>
C17: When the supervisor stops, the shutdown latch of every live worker is readable before it
waits for any of them, and once each of them has reported, in whatever order and with whatever
errors, the final state stops with no worker left.
\<close>

theorem shutdownState_awaits_all:
  assumes "sup_open_ok D" and "es_ok D reqs [] s" and "es_latches s = (\<lambda>_. zero_latch)"
    and "es_cases s = map (\<lambda>(i, e). WorkerReports i e) rs" and "distinct (map fst rs)"
    and "fst ` set rs = fst ` set (es_live s)"
  shows "\<exists>s'. shutdownState D s = Done Stop s' \<and> es_live s' = [] \<and> pm_TryGet D (es_workers s') = Map.empty \<and>
    (\<forall>(i, u) \<in> set (es_live s). readable (fst (latch_Signaled (es_latches s' i))))"
proof -
  define l where "l = (\<lambda>i. if i \<in> fst ` set (es_live s) then signalled else zero_latch)"
  have wf: "es_wf D s" using assms(2) by (simp add: es_ok_def)
  have eq: "shutdownState D s = await_workers D (es_cases s) (s\<lparr>es_latches := l\<rparr>)"
    using signal_workers_live [OF assms(1) wf assms(3)] by (simp add: shutdownState_def l_def)
  have "s\<lparr>es_latches := l, es_cases := es_cases s\<rparr> = s\<lparr>es_latches := l\<rparr>" by simp
  with assms(2) have ok: "es_ok D reqs [] (s\<lparr>es_latches := l, es_cases := es_cases s\<rparr>)"
    by (simp add: es_ok_fields)
  obtain s' where s': "shutdownState D s = Done Stop s'" "es_live s' = []"
    using await_workers_all [OF assms(1) ok [unfolded assms(4)] assms(5)] assms(6) eq
    by (auto simp: assms(4))
  then have ok': "es_ok D reqs [] s'" "es_latches s' = l"
    using await_workers_ok [OF assms(1) ok] unfolding eq by simp_all
  have "pm_TryGet D (es_workers s') v = None" for v
    using es_wf_live_key [of D s' _ v] ok'(1) s'(2)
    by (metis (no_types) empty_iff es_ok_def list.set(1) not_None_eq)
  moreover have "l i = signalled" if "(i, u) \<in> set (es_live s)" for i u
    using that by (force simp: l_def)
  ultimately show ?thesis using s' ok'(2) signalled_readable by (auto simp: fun_eq_iff)
qed

definition es_example_stopping :: "(unit, (nat, nat worker_ref) alist, nat, nat, string) sup_world" where
  "es_example_stopping = (es_example_world [WorkerReports 1 (Some ''failed''), WorkerReports 0 None])
     \<lparr>es_started := [5, 6], es_live := [(0, 5), (1, 6)],
      es_workers := DAList.update 6 \<lparr>w_id = 1, w_Journal = 0\<rparr> (DAList.update 5 \<lparr>w_id = 0, w_Journal = 0\<rparr> DAList.empty)\<rparr>"

lemma es_example_stopping_ok: "es_ok es_example_deps [] [] es_example_stopping"
  unfolding es_ok_def es_wf_def
  by (auto simp: es_example_stopping_def es_example_world_def es_example_deps_def es_deps_with_def alist_map_def lookup_update
      split: if_splits)

theorem shutdownState_awaits_all_witness:
  "\<exists>s'. shutdownState es_example_deps es_example_stopping = Done Stop s' \<and> es_live s' = [] \<and>
    readable (fst (latch_Signaled (es_latches s' 0))) \<and> readable (fst (latch_Signaled (es_latches s' 1)))"
proof -
  have "\<exists>s'. shutdownState es_example_deps es_example_stopping = Done Stop s' \<and> es_live s' = [] \<and>
      pm_TryGet es_example_deps (es_workers s') = Map.empty \<and>
      (\<forall>(i, u) \<in> set (es_live es_example_stopping). readable (fst (latch_Signaled (es_latches s' i))))"
    by (rule shutdownState_awaits_all [OF es_example_deps_ok es_example_stopping_ok,
          where rs = "[(1, Some ''failed''), (0, None)]"])
      (auto simp: es_example_stopping_def es_example_world_def)
  then show ?thesis by (auto simp: es_example_stopping_def)
qed

end
