(* ===== verification/Stream_System.thy ===== *)
theory Stream_System
  imports Stream_Supervisor
begin

text \<open>
  The event stream supervisor together with the workers it starts (\<open>internal/eventstream\<close> as a
  whole): the supervisor forwards an exchange on the unbuffered channel of a worker, so what a
  worker receives is what was forwarded to it, and the workers are servers in the sense of
  \<open>Servers\<close>.
\<close>

section \<open>Events\<close>

text \<open>An event that is on a stream, and the events of the engine about streams: types only.\<close>

type_synonym Offset = u64

record ('u, 'env) Event =
  event_StreamID :: 'u
  event_Offset :: Offset
  event_Envelope :: 'env

record ('u, 'ty) StreamAvailable =
  available_StreamID :: 'u
  EventTypes :: "'ty list"

record 'u StreamUnavailable =
  unavailable_StreamID :: 'u

section \<open>What the supervisor did with the exchanges\<close>

fun forwarded :: "('u, 'ev, 'x) dispatch list \<Rightarrow> (nat \<times> ('u, 'ev) AppendRequest) list" where
  "forwarded [] = []"
| "forwarded (Forwarded i ex # ds) = (i, Request ex) # forwarded ds"
| "forwarded (Refused ex # ds) = forwarded ds"

fun refused :: "('u, 'ev, 'x) dispatch list \<Rightarrow> ('u, 'ev) AppendRequest list" where
  "refused [] = []"
| "refused (Forwarded i ex # ds) = refused ds"
| "refused (Refused ex # ds) = Request ex # refused ds"

lemma dispatched_mset:
  "mset (map (Request \<circ> dispatch_exchange) ds) = mset (map snd (forwarded ds)) + mset (refused ds)"
  by (induction ds rule: forwarded.induct) auto

lemma forwarded_mem: "(i, q) \<in> set (forwarded ds) \<Longrightarrow> \<exists>ex. Forwarded i ex \<in> set ds \<and> q = Request ex"
  by (induction ds rule: forwarded.induct) auto

lemma forwarded_of: "Forwarded i ex \<in> set ds \<Longrightarrow> (i, Request ex) \<in> set (forwarded ds)"
  by (induction ds rule: forwarded.induct) auto

lemma forwarded_ok:
  assumes "\<forall>d \<in> set ds. dispatch_ok D started d" "(i, q) \<in> set (forwarded ds)"
  shows "i < length started \<and> started ! i = StreamID q"
proof -
  obtain ex where ex: "Forwarded i ex \<in> set ds" "Request ex = q" using forwarded_mem [OF assms(2)] by metis
  have "dispatch_ok D started (Forwarded i ex)" by (rule bspec [OF assms(1) ex(1)])
  then show ?thesis by (simp only: dispatch_ok.simps ex(2))
qed

lemma es_promise_le: "es_promise E reqs n s \<Longrightarrow> n \<le> k \<Longrightarrow> es_promise E reqs k s"
  unfolding es_promise_def
  by (elim conjE exE, intro conjI exI) (assumption | erule (1) order_trans)+

lemma es_run_promise:
  assumes "sup_open_ok E" and "pm_TryGet E (es_workers s) = Map.empty" and "es_log s = []"
    and "es_latches s = (\<lambda>_. zero_latch)"
    and "\<forall>ex. SupReceived ex \<in> set (es_cases s) \<longrightarrow> ex = Exchange_New (Request ex)"
    and "es_Run E s = Some (Returned x s') \<or> es_Run E s = Some (Blocked s')"
  shows "es_promise E (sup_requests (es_cases s)) 1 s'"
  using es_Run_result [OF assms(1-5)] assms(6) by (auto intro: es_promise_le)

section \<open>The clients\<close>

text \<open>
  What a client that waits for the response to a request finds on its channel: what the
  supervisor put there when it refused the exchange, or the worker that it was forwarded to.
\<close>

definition stream_receiver ::
  "('st, 'm, 'u, 'ev, 'x) sup_world \<Rightarrow>
   (nat \<Rightarrow> ('j, 'u, 'ev, 'x) worker_world \<times> 'x option \<times> ('j, 'u, 'ev, 'x) worker_world) \<Rightarrow>
   ('u, 'ev, 'x) append_exchange \<Rightarrow> (AppendResponse, 'x) Failable chan chan_op" where
  "stream_receiver s ws ex =
     (case find (\<lambda>d. Request (dispatch_exchange d) = Request ex) (es_log s) of
        None \<Rightarrow> WouldBlock
      | Some (Refused ex') \<Rightarrow> Proceeds (Response ex')
      | Some (Forwarded i _) \<Rightarrow>
          (case find (\<lambda>ex'. Request ex' = Request ex) (answered (snd (snd (ws i)))) of
             None \<Rightarrow> WouldBlock
           | Some ex' \<Rightarrow> Proceeds (Response ex')))"

lemma find_satisfies: "\<exists>x \<in> set xs. P x \<Longrightarrow> \<exists>x. find P xs = Some x \<and> x \<in> set xs \<and> P x"
  by (metis find_None_iff find_Some_iff in_set_conv_nth not_Some_eq)

lemma Exchange_Do_response:
  "handler (Exchange_New req) = Proceeds c \<Longrightarrow> buffer c = [f] \<Longrightarrow>
    Exchange_Do zero DoProceed DoProceed handler req = Proceeds (f_value f, f_err f)"
  by (simp add: Exchange_Do_def Let_def chan_recv_def Failable_Get_def)

lemma worker_answer:
  assumes "worker_ran D base hist (w, e, w')" and "q \<in> set (worker_asked (w, e, w'))"
  shows "\<exists>ex f. find (\<lambda>ex'. Request ex' = q) (answered w') = Some ex \<and> buffer (Response ex) = [f] \<and>
    append_true D (hist (jr w')) e q f"
proof -
  have "\<exists>ex \<in> set (answered w'). Request ex = q"
    using assms(2) worker_asked_answered [OF assms(1)] by auto
  from find_satisfies [OF this] obtain ex where
    "find (\<lambda>ex'. Request ex' = q) (answered w') = Some ex" "ex \<in> set (answered w')" "Request ex = q" by blast
  then show ?thesis using worker_ran_result [OF assms(1)] by (auto simp: list_all_iff answer_ok_def)
qed

section \<open>An example\<close>

text \<open>One request, whose worker stores a record, fails, and reports its error to the client.\<close>

definition system_example :: "(unit, (nat, nat worker_ref) alist, nat, nat, mem_err) sup_world" where
  "system_example = es_example_world [SupReceived (Exchange_New example_request), SendProceeds]"

lemma system_example_run:
  "\<exists>s'. es_Run (es_deps_with ErrInduced) system_example = Some (Blocked s') \<and> es_started s' = [StreamID example_request] \<and>
     forwarded (es_log s') = [(0, example_request)]"
proof -
  let ?D = "es_deps_with ErrInduced" and ?ex = "Exchange_New example_request :: (nat, nat, mem_err) append_exchange"
  let ?m = "\<lparr>current = Some SupIdleState, final = Some ShutdownState, err = None\<rparr>"
  let ?s1 = "es_example_world [SendProceeds] :: (unit, (nat, nat worker_ref) alist, nat, nat, mem_err) sup_world"
  have req: "Request ?ex = example_request" by (simp add: Exchange_New_def)
  have t1: "fsm_turn (es_machine ?D) es_ctx_err ?m (system_example\<lparr>es_live := []\<rparr>) =
      Inr (?m\<lparr>current := Some (ForwardAppendState ?ex)\<rparr>, ?s1)"
    by (simp add: fsm_turn_def execute_def sup_idleState_def With_def system_example_def es_example_world_def)
  obtain s2 where f: "forwardAppendState ?D ?ex ?s1 = Done (EnterState SupIdleState) s2"
    and s2: "es_cases s2 = []" "es_started s2 = [StreamID example_request]" "es_log s2 = [Forwarded 0 ?ex]"
    by (simp add: forwardAppendState_def workerByStreamID_def startWorkerForStreamID_def Open_def req
        es_deps_with_def es_example_world_def alist_map_def Let_def)
  have t2: "fsm_turn (es_machine ?D) es_ctx_err (?m\<lparr>current := Some (ForwardAppendState ?ex)\<rparr>) ?s1 = Inr (?m, s2)"
    by (simp add: fsm_turn_def execute_def f)
  have t3: "fsm_turn (es_machine ?D) es_ctx_err ?m s2 = Inl (Blocked s2)"
    by (simp add: fsm_turn_def execute_def sup_idleState_def s2)
  have "es_Run ?D system_example = Some (Blocked s2)"
    unfolding es_Run_def Start_def
    by (simp only: fsm_loop_turns(2) [OF t1] fsm_loop_turns(2) [OF t2] fsm_loop_turns(1) [OF t3])
  then show ?thesis using s2 by (simp add: req)
qed

lemma system_example_start:
  "pm_TryGet (es_deps_with ErrInduced) (es_workers system_example) = Map.empty" "es_log system_example = []"
  "es_latches system_example = (\<lambda>_. zero_latch)"
  "\<forall>ex. SupReceived ex \<in> set (es_cases system_example) \<longrightarrow> ex = Exchange_New (Request ex)"
  by (auto simp: system_example_def es_deps_with_def es_example_world_def alist_map_def fun_eq_iff Exchange_New_def)

lemma system_example_worker:
  "\<exists>e. worker_ran stream_mem mem_base mem_hist (example_world, Some ErrInduced, e) \<and>
    worker_asked (example_world, Some ErrInduced, e) = [example_request]"
proof -
  obtain e where e: "worker_Run stream_mem example_world = Some (Returned (Some ErrInduced) e)" "length (answered e) = 1"
    using example_world_run by blast
  have ran: "worker_ran stream_mem mem_base mem_hist (example_world, Some ErrInduced, e)"
    using stream_mem_ok e example_stream_wf
    by (simp add: worker_ran_def worker_starts_def example_world_def pending_def Stream_Worker.fresh_exchange_def Exchange_New_def
        example_request_def pending_length_def example_stream_def)
  have "worker_asked (example_world, Some ErrInduced, e) = [example_request]"
    using worker_ran_result [OF ran] worker_asked_answered [OF ran] e(2)
    by (cases "answered e") (auto simp: example_world_def pending_def Exchange_New_def)
  with ran show ?thesis by blast
qed

section \<open>Properties\<close>

text \<open>
C15: No append request is lost between the clients and the journals. When a run of the supervisor
has returned or waits, and each worker it started has received what was forwarded to it, every
request that reached the supervisor has been refused with \<open>errShuttingDown\<close>, or answered by a
worker, once for each time it was received; only the request that the supervisor holds while it
waits, and those that were never read, are unanswered. An answer is given by a worker that was
started for the stream of the request, and is true of the journal of that worker.
\<close>

theorem stream_exchanges_answered:
  assumes "sup_open_ok E" and "pm_TryGet E (es_workers s) = Map.empty" and "es_log s = []"
    and "es_latches s = (\<lambda>_. zero_latch)"
    and "\<forall>ex. SupReceived ex \<in> set (es_cases s) \<longrightarrow> ex = Exchange_New (Request ex)"
    and "es_Run E s = Some (Returned x s') \<or> es_Run E s = Some (Blocked s')"
    and "\<forall>i < length (es_started s'). worker_ran D base hist (ws i) \<and>
      worker_asked (ws i) = sent_to i (forwarded (es_log s'))"
  shows "(\<exists>pend. length pend \<le> 1 \<and> mset (sup_requests (es_cases s)) =
      mset (refused (es_log s')) + (\<Sum>i < length (es_started s'). mset (map fst (worker_replies (ws i)))) +
      mset pend + mset (sup_requests (es_cases s'))) \<and>
    (\<forall>(i, q) \<in> set (forwarded (es_log s')). es_started s' ! i = StreamID q \<and>
      (\<exists>f. (q, f) \<in> set (worker_replies (ws i)) \<and> worker_truthful D hist (ws i) q f))"
proof -
  from es_run_promise [OF assms(1-6)] obtain pend where ok: "\<forall>d \<in> set (es_log s'). dispatch_ok E (es_started s') d" and "length pend \<le> 1"
    and reqs: "sup_requests (es_cases s) = map (Request \<circ> dispatch_exchange) (es_log s') @ pend @ sup_requests (es_cases s')"
    unfolding es_promise_def by blast
  have fwd: "i < length (es_started s') \<and> es_started s' ! i = StreamID q" if "(i, q) \<in> set (forwarded (es_log s'))" for i q
    by (rule forwarded_ok [OF ok that])
  then have lt: "\<forall>p \<in> set (forwarded (es_log s')). fst p < length (es_started s')" by auto
  note disp = worker_srv.dispatched [where n = "length (es_started s')" and ws = ws
      and log = "forwarded (es_log s')" and D = D and base = base and hist = hist, OF _ _ lt]
  have "mset (map snd (forwarded (es_log s'))) = (\<Sum>i < length (es_started s'). mset (map fst (worker_replies (ws i))))"
    by (rule disp(1)) (use assms(7) in auto)
  then have "mset (sup_requests (es_cases s)) = mset (refused (es_log s')) +
      (\<Sum>i < length (es_started s'). mset (map fst (worker_replies (ws i)))) + mset pend + mset (sup_requests (es_cases s'))"
    unfolding reqs mset_append dispatched_mset by (simp add: ac_simps)
  moreover have "\<exists>f. (q, f) \<in> set (worker_replies (ws i)) \<and> worker_truthful D hist (ws i) q f"
    if "(i, q) \<in> set (forwarded (es_log s'))" for i q
    by (rule disp(2) [OF _ _ that]) (use assms(7) in auto)
  ultimately show ?thesis using \<open>length pend \<le> 1\<close> fwd by blast
qed

theorem stream_exchanges_answered_witness:
  "\<exists>s' w f. es_Run (es_deps_with ErrInduced) system_example = Some (Blocked s') \<and>
     worker_ran stream_mem mem_base mem_hist w \<and> worker_asked w = [example_request] \<and>
     (example_request, f) \<in> set (worker_replies w) \<and> worker_truthful stream_mem mem_hist w example_request f"
proof -
  obtain s' where s': "es_Run (es_deps_with ErrInduced) system_example = Some (Blocked s')"
    "es_started s' = [StreamID example_request]" "forwarded (es_log s') = [(0, example_request)]"
    using system_example_run by blast
  obtain w where w: "worker_ran stream_mem mem_base mem_hist w" "worker_asked w = [example_request]"
    using system_example_worker by blast
  from stream_exchanges_answered [OF es_deps_with_ok system_example_start, of _ s' stream_mem mem_base mem_hist "\<lambda>_. w"] s' w
  obtain f where "(example_request, f) \<in> set (worker_replies w) \<and> worker_truthful stream_mem mem_hist w example_request f"
    by auto
  with s'(1) w show ?thesis by blast
qed

text \<open>
C16: A client of an event stream gets an answer. When a run of the supervisor that has read the
request of a call of \<open>Do\<close> has returned or waits, and does not hold the request, and the workers
have received what was forwarded to them, the call returns: with \<open>errShuttingDown\<close>, with the
error with which the worker of the stream ended, or with no error, and then the journal of that
worker holds the request between the offsets of the response.
\<close>

theorem stream_Do_answered:
  assumes "sup_open_ok E" and "pm_TryGet E (es_workers s) = Map.empty" and "es_log s = []"
    and "es_latches s = (\<lambda>_. zero_latch)"
    and "\<forall>ex. SupReceived ex \<in> set (es_cases s) \<longrightarrow> ex = Exchange_New (Request ex)"
    and "es_Run E s = Some (Returned x s') \<or> es_Run E s = Some (Blocked s')"
    and "\<forall>i < length (es_started s'). worker_ran D base hist (ws i) \<and>
      worker_asked (ws i) = sent_to i (forwarded (es_log s'))"
    and "q \<in> Request ` dispatch_exchange ` set (es_log s')"
  shows "\<exists>v e. Exchange_Do zero_AppendResponse DoProceed DoProceed (stream_receiver s' ws) q = Proceeds (v, e) \<and>
    (e = Some (errShuttingDown E) \<or>
     (\<exists>i < length (es_started s'). es_started s' ! i = StreamID q \<and>
       (case e of
          Some y \<Rightarrow> fst (snd (ws i)) = Some y
        | None \<Rightarrow> \<exists>r \<in> set (hist (jr (snd (snd (ws i))))). first_id D r = Some (request_id D q) \<and>
            BeginOffset v = StreamOffsetBefore r \<and> EndOffset v = StreamOffsetAfter r)))"
proof -
  have ok: "\<forall>d \<in> set (es_log s'). dispatch_ok E (es_started s') d"
    using es_run_promise [OF assms(1-6)] unfolding es_promise_def by blast
  obtain d where d: "find (\<lambda>d. Request (dispatch_exchange d) = q) (es_log s') = Some d"
    "d \<in> set (es_log s')" "Request (dispatch_exchange d) = q"
    using find_satisfies [of "es_log s'" "\<lambda>d. Request (dispatch_exchange d) = q"] assms(8) by blast
  have req: "Request (Exchange_New q) = q" by (simp add: Exchange_New_def)
  show ?thesis
  proof (cases d)
    case (Refused ex)
    then have "stream_receiver s' ws (Exchange_New q) = Proceeds (Response ex)"
      by (simp add: stream_receiver_def req d(1))
    moreover have "buffer (Response ex) = [\<lparr>f_value = zero_AppendResponse, f_err = Some (errShuttingDown E)\<rparr>]"
      using bspec [OF ok d(2)] Refused by simp
    ultimately show ?thesis using Exchange_Do_response [of "stream_receiver s' ws"] by fastforce
  next
    case (Forwarded i ex)
    then have i: "i < length (es_started s')" "es_started s' ! i = StreamID q"
      using bspec [OF ok d(2)] d(3) by simp_all
    obtain w e w' where w: "ws i = (w, e, w')" by (metis prod_cases3)
    have "(i, q) \<in> set (forwarded (es_log s'))" using d(2,3) Forwarded forwarded_of by fastforce
    then have "q \<in> set (worker_asked (w, e, w'))" using assms(7) i(1) w by (force simp: sent_to_def)
    moreover have "worker_ran D base hist (w, e, w')" using assms(7) i(1) w by metis
    ultimately obtain ex' f where a: "find (\<lambda>ex'. Request ex' = q) (answered w') = Some ex'" "buffer (Response ex') = [f]"
      "append_true D (hist (jr w')) e q f" using worker_answer by blast
    then have "stream_receiver s' ws (Exchange_New q) = Proceeds (Response ex')"
      by (simp add: stream_receiver_def req d(1) Forwarded w)
    then have "Exchange_Do zero_AppendResponse DoProceed DoProceed (stream_receiver s' ws) q = Proceeds (f_value f, f_err f)"
      using a(2) by (rule Exchange_Do_response)
    moreover have "case f_err f of Some y \<Rightarrow> fst (snd (ws i)) = Some y
      | None \<Rightarrow> \<exists>r \<in> set (hist (jr (snd (snd (ws i))))). first_id D r = Some (request_id D q) \<and>
          BeginOffset (f_value f) = StreamOffsetBefore r \<and> EndOffset (f_value f) = StreamOffsetAfter r"
      using a(3) unfolding append_true_def w by (auto split: option.split)
    ultimately show ?thesis using i by blast
  qed
qed

theorem stream_Do_answered_witness:
  "\<exists>s' w v y. es_Run (es_deps_with ErrInduced) system_example = Some (Blocked s') \<and>
     worker_ran stream_mem mem_base mem_hist w \<and>
     Exchange_Do zero_AppendResponse DoProceed DoProceed (stream_receiver s' (\<lambda>_. w)) example_request = Proceeds (v, y) \<and>
     (y = Some ErrInduced \<or> (\<exists>r \<in> set (mem_hist (jr (snd (snd w)))).
        first_id stream_mem r = Some (request_id stream_mem example_request)))"
proof -
  obtain s' where s': "es_Run (es_deps_with ErrInduced) system_example = Some (Blocked s')"
    "es_started s' = [StreamID example_request]" "forwarded (es_log s') = [(0, example_request)]"
    using system_example_run by blast
  obtain e where w: "worker_ran stream_mem mem_base mem_hist (example_world, Some ErrInduced, e)"
    "worker_asked (example_world, Some ErrInduced, e) = [example_request]"
    using system_example_worker by blast
  have "example_request \<in> Request ` dispatch_exchange ` set (es_log s')"
    using forwarded_mem [of 0 example_request "es_log s'"] s'(3) by (force intro: image_eqI)
  from stream_Do_answered [OF es_deps_with_ok system_example_start _ _ this, of _ stream_mem mem_base mem_hist
      "\<lambda>_. (example_world, Some ErrInduced, e)"] s' w
  obtain v y where "Exchange_Do zero_AppendResponse DoProceed DoProceed
      (stream_receiver s' (\<lambda>_. (example_world, Some ErrInduced, e))) example_request = Proceeds (v, y)"
    "y = Some ErrInduced \<or> (\<exists>r \<in> set (mem_hist (jr e)).
       first_id stream_mem r = Some (request_id stream_mem example_request))"
    by (auto simp: es_deps_with_def split: option.splits)
  with s'(1) w(1) show ?thesis by fastforce
qed

end
