(* ===== verification/KV_API.thy ===== *)
theory KV_API
  imports Prelude "HOL-Library.AList"
begin

text \<open>
  The key/value store of \<open>persistencekit\<close>, as a parameter. The source of the module is not
  part of this repository: a \<open>kv_api\<close> is the operations the code calls on an open keyspace, on
  an abstract state \<open>'st\<close> that also decides which calls fail, and \<open>kv_laws\<close> is their
  documented behaviour. A call that fails may or may not have taken effect. \<open>Range\<close> calls its
  function for the listed pairs, in an unspecified order, until the function stops it, and then
  returns the error.
\<close>

record ('st, 'k, 'r, 'x) kv_api =
  kv_Open :: "'st \<Rightarrow> string \<Rightarrow> 'x option \<times> 'st"
  kv_Get :: "'st \<Rightarrow> 'k \<Rightarrow> ('x, 'r option) outcome \<times> 'st"
  kv_Set :: "'st \<Rightarrow> 'k \<Rightarrow> 'r option \<Rightarrow> 'x option \<times> 'st"
  kv_Range :: "'st \<Rightarrow> (('k \<times> 'r) list \<times> 'x option) \<times> 'st"

definition kv_laws :: "('st, 'k, 'r, 'x) kv_api \<Rightarrow> ('st \<Rightarrow> 'k \<Rightarrow> 'r option) \<Rightarrow> bool" where
  "kv_laws K contents \<longleftrightarrow>
     (\<forall>st n e st'. kv_Open K st n = (e, st') \<longrightarrow> contents st' = contents st) \<and>
     (\<forall>st k res st'. kv_Get K st k = (res, st') \<longrightarrow> contents st' = contents st \<and>
        (case res of Ok v \<Rightarrow> v = contents st k | Err x \<Rightarrow> True | Panic t \<Rightarrow> False)) \<and>
     (\<forall>st k v e st'. kv_Set K st k v = (e, st') \<longrightarrow>
        contents st' = (contents st)(k := v) \<or> e \<noteq> None \<and> contents st' = contents st) \<and>
     (\<forall>st ps e st'. kv_Range K st = ((ps, e), st') \<longrightarrow> contents st' = contents st \<and>
        distinct (map fst ps) \<and> map_of ps \<subseteq>\<^sub>m contents st \<and> (e = None \<longrightarrow> map_of ps = contents st))"

lemma kv_Open_law: "kv_laws K contents \<Longrightarrow> kv_Open K st n = (e, st') \<Longrightarrow> contents st' = contents st"
  unfolding kv_laws_def by blast

lemma kv_Get_law:
  assumes "kv_laws K contents" "kv_Get K st k = (res, st')"
  shows "contents st' = contents st" "res = Ok v \<Longrightarrow> v = contents st k" "res \<noteq> Panic t"
proof -
  have "contents st' = contents st \<and>
      (case res of Ok v \<Rightarrow> v = contents st k | Err x \<Rightarrow> True | Panic t \<Rightarrow> False)"
    using assms unfolding kv_laws_def by blast
  then show "contents st' = contents st" "res = Ok v \<Longrightarrow> v = contents st k" "res \<noteq> Panic t" by auto
qed

lemma kv_Set_law:
  assumes "kv_laws K contents" "kv_Set K st k v = (e, st')"
  shows "contents st' = (contents st)(k := v) \<or> e \<noteq> None \<and> contents st' = contents st"
  using assms unfolding kv_laws_def by blast

lemma kv_Range_law:
  assumes "kv_laws K contents" "kv_Range K st = ((ps, e), st')"
  shows "contents st' = contents st" "distinct (map fst ps)" "map_of ps \<subseteq>\<^sub>m contents st"
    "e = None \<Longrightarrow> map_of ps = contents st"
proof -
  have "contents st' = contents st \<and> distinct (map fst ps) \<and> map_of ps \<subseteq>\<^sub>m contents st \<and>
      (e = None \<longrightarrow> map_of ps = contents st)"
    using assms unfolding kv_laws_def by blast
  then show "contents st' = contents st" "distinct (map fst ps)" "map_of ps \<subseteq>\<^sub>m contents st"
    "e = None \<Longrightarrow> map_of ps = contents st" by blast+
qed

text \<open>A store none of whose calls fails.\<close>

definition kv_healthy :: "('st, 'k, 'r, 'x) kv_api \<Rightarrow> bool" where
  "kv_healthy K \<longleftrightarrow> (\<forall>st n. fst (kv_Open K st n) = None) \<and> (\<forall>st k x. fst (kv_Get K st k) \<noteq> Err x) \<and>
     (\<forall>st k v. fst (kv_Set K st k v) = None) \<and> (\<forall>st. snd (fst (kv_Range K st)) = None)"

lemma kv_healthyD:
  assumes "kv_healthy K"
  shows "kv_Open K st n = (e, st') \<Longrightarrow> e = None" "kv_Get K st k = (res, st') \<Longrightarrow> res \<noteq> Err x"
    "kv_Set K st k v = (e, st') \<Longrightarrow> e = None" "kv_Range K st = ((ps, e), st') \<Longrightarrow> e = None"
  using assms unfolding kv_healthy_def by (metis fst_conv snd_conv)+

text \<open>A store in memory, whose pairs are a list without repeated keys.\<close>

definition mem_kv :: "(('k \<times> 'r) list, 'k, 'r, 'x) kv_api" where
  "mem_kv = \<lparr>kv_Open = (\<lambda>st n. (None, st)), kv_Get = (\<lambda>st k. (Ok (map_of st k), st)),
     kv_Set = (\<lambda>st k v. (None, (case v of None \<Rightarrow> [] | Some r \<Rightarrow> [(k, r)]) @ filter (\<lambda>p. fst p \<noteq> k) st)),
     kv_Range = (\<lambda>st. ((AList.clearjunk st, None), st))\<rparr>"

lemma map_of_filter_neq: "map_of (filter (\<lambda>p. fst p \<noteq> k) xs) = (map_of xs)(k := None)"
  by (induction xs) (auto simp: fun_eq_iff)

lemma mem_kv_laws: "kv_laws mem_kv map_of"
  unfolding kv_laws_def mem_kv_def kv_api.simps
  by (auto simp: map_of_filter_neq map_of_clearjunk distinct_clearjunk split: option.splits)

lemma mem_kv_healthy: "kv_healthy mem_kv"
  by (simp add: kv_healthy_def mem_kv_def)

end
