(* ===== verification/Registry_Messages.thy ===== *)
theory Registry_Messages
  imports Prelude
begin

text \<open>
  \<open>internal/cluster/internal/registrypb\<close>: the messages that the registry keeps in its keyspace,
  with their generated accessors, setters and builders.

  The conventions are those of theory \<open>Stream_Journal\<close>. The type of the identifiers is that of a
  non-nil UUID in the code of the registry and an optional one here, where the field may be nil.
  A timestamp is its time in nanoseconds.
\<close>

section \<open>Messages\<close>

record 'u reg_node =
  Id :: 'u
  Addresses :: "string list"

record 'u Registration =
  reg_Node :: "'u reg_node option"
  ExpiresAt :: "int option"

definition zero_reg_node :: "'u option reg_node" where
  "zero_reg_node = \<lparr>Id = None, Addresses = []\<rparr>"

definition zero_Registration :: "'u Registration" where
  "zero_Registration = \<lparr>reg_Node = None, ExpiresAt = None\<rparr>"

section \<open>Accessors and setters\<close>

fun GetId :: "'u option reg_node option \<Rightarrow> 'u option" where
  "GetId (Some x) = Id x"
| "GetId None = None"

fun GetAddresses :: "'u reg_node option \<Rightarrow> string list" where
  "GetAddresses (Some x) = Addresses x"
| "GetAddresses None = []"

fun GetNode :: "'u Registration option \<Rightarrow> 'u reg_node option" where
  "GetNode (Some x) = reg_Node x"
| "GetNode None = None"

fun GetExpiresAt :: "'u Registration option \<Rightarrow> int option" where
  "GetExpiresAt (Some x) = ExpiresAt x"
| "GetExpiresAt None = None"

definition SetId :: "'u \<Rightarrow> 'u reg_node \<Rightarrow> 'u reg_node" where
  "SetId v x = x\<lparr>Id := v\<rparr>"

definition SetAddresses :: "string list \<Rightarrow> 'u reg_node \<Rightarrow> 'u reg_node" where
  "SetAddresses v x = x\<lparr>Addresses := v\<rparr>"

definition SetNode :: "'u reg_node option \<Rightarrow> 'u Registration \<Rightarrow> 'u Registration" where
  "SetNode v x = x\<lparr>reg_Node := v\<rparr>"

definition SetExpiresAt :: "int option \<Rightarrow> 'u Registration \<Rightarrow> 'u Registration" where
  "SetExpiresAt v x = x\<lparr>ExpiresAt := v\<rparr>"

section \<open>Builders\<close>

datatype 'u reg_node_builder = NodeBuilder "'u reg_node"

definition NewNodeBuilder :: "'u option reg_node_builder" where
  "NewNodeBuilder = NodeBuilder zero_reg_node"

fun NodeBuilder_From :: "'u reg_node_builder \<Rightarrow> 'u reg_node option \<Rightarrow> ('e, 'u reg_node_builder) outcome" where
  "NodeBuilder_From (NodeBuilder p) (Some x) = Ok (NodeBuilder (p\<lparr>Id := Id x, Addresses := Addresses x\<rparr>))"
| "NodeBuilder_From b None = Panic ''invalid memory address or nil pointer dereference''"

fun NodeBuilder_Build :: "'u reg_node_builder \<Rightarrow> 'u reg_node" where
  "NodeBuilder_Build (NodeBuilder p) = \<lparr>Id = Id p, Addresses = Addresses p\<rparr>"

fun WithId :: "'u \<Rightarrow> 'u reg_node_builder \<Rightarrow> 'u reg_node_builder" where
  "WithId v (NodeBuilder p) = NodeBuilder (p\<lparr>Id := v\<rparr>)"

fun WithAddresses :: "string list \<Rightarrow> 'u reg_node_builder \<Rightarrow> 'u reg_node_builder" where
  "WithAddresses v (NodeBuilder p) = NodeBuilder (p\<lparr>Addresses := v\<rparr>)"

datatype 'u registration_builder = RegistrationBuilder "'u Registration"

definition NewRegistrationBuilder :: "'u registration_builder" where
  "NewRegistrationBuilder = RegistrationBuilder zero_Registration"

fun RegistrationBuilder_From ::
  "'u registration_builder \<Rightarrow> 'u Registration option \<Rightarrow> ('e, 'u registration_builder) outcome" where
  "RegistrationBuilder_From (RegistrationBuilder p) (Some x) =
     Ok (RegistrationBuilder (p\<lparr>reg_Node := reg_Node x, ExpiresAt := ExpiresAt x\<rparr>))"
| "RegistrationBuilder_From b None = Panic ''invalid memory address or nil pointer dereference''"

fun RegistrationBuilder_Build :: "'u registration_builder \<Rightarrow> 'u Registration" where
  "RegistrationBuilder_Build (RegistrationBuilder p) = \<lparr>reg_Node = reg_Node p, ExpiresAt = ExpiresAt p\<rparr>"

fun WithNode :: "'u reg_node option \<Rightarrow> 'u registration_builder \<Rightarrow> 'u registration_builder" where
  "WithNode v (RegistrationBuilder p) = RegistrationBuilder (p\<lparr>reg_Node := v\<rparr>)"

fun WithExpiresAt :: "int option \<Rightarrow> 'u registration_builder \<Rightarrow> 'u registration_builder" where
  "WithExpiresAt v (RegistrationBuilder p) = RegistrationBuilder (p\<lparr>ExpiresAt := v\<rparr>)"

text \<open>Building a registration and reading it back; a message built from a prototype is the prototype.\<close>

lemma registration_roundtrip:
  "GetId (GetNode (Some (RegistrationBuilder_Build (WithExpiresAt t (WithNode
     (Some (NodeBuilder_Build (WithAddresses as (WithId i NewNodeBuilder)))) NewRegistrationBuilder))))) = i"
  "RegistrationBuilder_From NewRegistrationBuilder (Some x) = Ok b \<Longrightarrow> RegistrationBuilder_Build b = x"
  "NodeBuilder_From NewNodeBuilder (Some n) = Ok c \<Longrightarrow> NodeBuilder_Build c = n"
  by (auto simp: NewNodeBuilder_def NewRegistrationBuilder_def)

section \<open>Marshaling\<close>

text \<open>
  The encoding is that of package \<open>proto\<close>, which is a parameter: every generated message has the
  two methods, and they only call it. \<open>UnmarshalBinary\<close> changes the message it is called on, and
  gives back its error.
\<close>

record ('m, 'b, 'x) proto_codec =
  proto_Marshal :: "'m \<Rightarrow> ('x, 'b) outcome"
  proto_Unmarshal :: "'b \<Rightarrow> 'm \<Rightarrow> 'x option \<times> 'm"

definition codec_laws :: "('m, 'b, 'x) proto_codec \<Rightarrow> bool" where
  "codec_laws P \<longleftrightarrow> (\<forall>x b y. proto_Marshal P x = Ok b \<longrightarrow> proto_Unmarshal P b y = (None, x))"

definition MarshalBinary :: "('m, 'b, 'x) proto_codec \<Rightarrow> 'm \<Rightarrow> ('x, 'b) outcome" where
  "MarshalBinary P x = proto_Marshal P x"

definition UnmarshalBinary :: "('m, 'b, 'x) proto_codec \<Rightarrow> 'm \<Rightarrow> 'b \<Rightarrow> 'x option \<times> 'm" where
  "UnmarshalBinary P x data = proto_Unmarshal P data x"

lemma Unmarshal_Marshal: "codec_laws P \<Longrightarrow> MarshalBinary P x = Ok b \<Longrightarrow> UnmarshalBinary P y b = (None, x)"
  by (simp add: codec_laws_def MarshalBinary_def UnmarshalBinary_def)

end
