(* ===== verification/Registry.thy ===== *)
theory Registry
  imports Fsm Messaging KV_API Proto_Map Registry_Messages
begin

text \<open>
  \<open>internal/cluster/registry.go\<close> and \<open>node.go\<close>: the registrar, which keeps a node's
  registration in a key/value store alive, and the observer, which polls the store and publishes
  the changes of the membership.

  A \<open>time.Time\<close> is the integer of its nanoseconds, a \<open>time.Duration\<close> a signed 64-bit word.
  \<open>nows k\<close> is what the \<open>k\<close>-th call of \<open>time.Now\<close> returns; it is increasing only where a
  property says so. A timestamp message is its time, nil is \<open>None\<close> and reads as the Unix epoch.
  Each \<open>select\<close> takes the next of a list of ready cases. The telemetry is the list of the names
  of the events that were logged; spans and attributes are in theory \<open>Telemetry\<close>.
\<close>

section \<open>Data\<close>

record 'u Node =
  ID :: 'u
  Node_Addresses :: "string list"

record 'u MembershipChanged =
  Registered :: "'u Node list"
  Deregistered :: "'u Node list"

definition AsTime :: "int option \<Rightarrow> int" where
  "AsTime ts = (case ts of None \<Rightarrow> 0 | Some t \<Rightarrow> t)"

definition DefaultRenewInterval :: u64 where
  "DefaultRenewInterval = 10 * 10 ^ 9"

definition DefaultRegistryPollInterval :: u64 where
  "DefaultRegistryPollInterval = 3 * 10 ^ 9"

definition registryKeyspace :: string where
  "registryKeyspace = ''cluster.registry''"

record ('st, 'm, 'u, 'x) registry_deps = "('m, 'u, 'u Node) proto_map" +
  reg_kv :: "('st, 'u, 'u Registration, 'x) kv_api"
  errors_New :: "string \<Rightarrow> 'x"

text \<open>What the registrar and the observer share of the world.\<close>

record 'st store_world =
  store :: 'st
  nows :: "nat \<Rightarrow> int"
  reads :: nat
  telemetry_log :: "string list"

definition Now :: "('st, 'z) store_world_scheme \<Rightarrow> int \<times> ('st, 'z) store_world_scheme" where
  "Now s = (nows s (reads s), s\<lparr>reads := Suc (reads s)\<rparr>)"

definition telemetry_event :: "string \<Rightarrow> ('st, 'z) store_world_scheme \<Rightarrow> ('st, 'z) store_world_scheme" where
  "telemetry_event ev s = s\<lparr>telemetry_log := telemetry_log s @ [ev]\<rparr>"

section \<open>Registrar\<close>

record 'u registrar =
  Node :: "'u Node"
  RenewInterval :: u64

datatype 'x registrar_case = RCtxDone 'x | RShutdown | RTick

record ('st, 'x) registrar_world = "'st store_world" +
  interval :: u64
  rg_cases :: "'x registrar_case list"

definition saveRegistration ::
  "('st, 'm, 'u, 'x) registry_deps \<Rightarrow> 'u registrar \<Rightarrow> ('st, 'x) registrar_world \<Rightarrow>
   (int \<times> 'x option) \<times> ('st, 'x) registrar_world" where
  "saveRegistration D r s =
     (let (now, s1) = Now s;
          expiresAt = now + sint (interval s1 * 2);
          (e, st) = kv_Set (reg_kv D) (store s1) (ID (Node r))
            (Some \<lparr>reg_Node = Some \<lparr>Id = ID (Node r), Addresses = Node_Addresses (Node r)\<rparr>,
                   ExpiresAt = Some expiresAt\<rparr>)
      in ((expiresAt, e), s1\<lparr>store := st\<rparr>))"

definition deleteRegistration ::
  "('st, 'm, 'u, 'x) registry_deps \<Rightarrow> 'u registrar \<Rightarrow> ('st, 'x) registrar_world \<Rightarrow>
   'x option \<times> ('st, 'x) registrar_world" where
  "deleteRegistration D r s =
     (let (e, st) = kv_Set (reg_kv D) (store s) (ID (Node r)) None in (e, s\<lparr>store := st\<rparr>))"

definition register ::
  "('st, 'm, 'u, 'x) registry_deps \<Rightarrow> 'u registrar \<Rightarrow> ('st, 'x) registrar_world \<Rightarrow>
   'x option \<times> ('st, 'x) registrar_world" where
  "register D r s =
     (case saveRegistration D r s of
        ((_, Some x), s') \<Rightarrow> (Some x, telemetry_event ''cluster.register.error'' s')
      | ((_, None), s') \<Rightarrow> (None, telemetry_event ''cluster.register.ok'' s'))"

definition deregister ::
  "('st, 'm, 'u, 'x) registry_deps \<Rightarrow> 'u registrar \<Rightarrow> ('st, 'x) registrar_world \<Rightarrow>
   'x option \<times> ('st, 'x) registrar_world" where
  "deregister D r s =
     (case deleteRegistration D r s of
        (Some x, s') \<Rightarrow> (Some x, telemetry_event ''cluster.deregister.error'' s')
      | (None, s') \<Rightarrow> (None, telemetry_event ''cluster.deregister.ok'' s'))"

text \<open>A registration that \<open>renew\<close> finds has expired: it is deleted.\<close>

definition renew_expired ::
  "('st, 'm, 'u, 'x) registry_deps \<Rightarrow> 'u registrar \<Rightarrow> ('st, 'x) registrar_world \<Rightarrow>
   ('x, unit) outcome \<times> ('st, 'x) registrar_world" where
  "renew_expired D r s =
     (case deleteRegistration D r (telemetry_event ''cluster.renew.error'' s) of
        (Some x, s') \<Rightarrow> (Err x, s')
      | (None, s') \<Rightarrow> (Err (errors_New D ''cannot renew expired cluster node registration''), s'))"

definition renew ::
  "('st, 'm, 'u, 'x) registry_deps \<Rightarrow> 'u registrar \<Rightarrow> ('st, 'x) registrar_world \<Rightarrow>
   ('x, unit) outcome \<times> ('st, 'x) registrar_world" where
  "renew D r s =
     (case kv_Get (reg_kv D) (store s) (ID (Node r)) of
        (Err x, st) \<Rightarrow> (Err x, telemetry_event ''cluster.renew.error'' (s\<lparr>store := st\<rparr>))
      | (Panic t, st) \<Rightarrow> (Panic t, s\<lparr>store := st\<rparr>)
      | (Ok None, st) \<Rightarrow>
          (Err (errors_New D ''cannot renew unregistered cluster node''),
           telemetry_event ''cluster.renew.error'' (s\<lparr>store := st\<rparr>))
      | (Ok (Some reg), st) \<Rightarrow>
          (let (now, s1) = Now (s\<lparr>store := st\<rparr>)
           in if AsTime (ExpiresAt reg) < now then renew_expired D r s1
              else case saveRegistration D r s1 of
                     ((_, Some x), s2) \<Rightarrow> (Err x, telemetry_event ''cluster.renew.error'' s2)
                   | ((_, None), s2) \<Rightarrow> (Ok (), telemetry_event ''cluster.renew.ok'' s2)))"

text \<open>The loop of \<open>Run\<close>, with no error so far.\<close>

fun registrar_loop ::
  "('st, 'm, 'u, 'x) registry_deps \<Rightarrow> 'u registrar \<Rightarrow> 'x registrar_case list \<Rightarrow>
   ('st, 'x) registrar_world \<Rightarrow> ('x, ('st, 'x) registrar_world) run_result" where
  "registrar_loop D r [] s = Blocked (s\<lparr>rg_cases := []\<rparr>)"
| "registrar_loop D r (RCtxDone x # cs) s = Returned (Some x) (s\<lparr>rg_cases := cs\<rparr>)"
| "registrar_loop D r (RShutdown # cs) s =
     (let (e, s') = deregister D r (s\<lparr>rg_cases := cs\<rparr>) in Returned e s')"
| "registrar_loop D r (RTick # cs) s =
     (case renew D r (s\<lparr>rg_cases := cs\<rparr>) of
        (Ok _, s') \<Rightarrow> registrar_loop D r cs s'
      | (Err x, s') \<Rightarrow> Returned (Some x) s'
      | (Panic t, s') \<Rightarrow> Panicked t s')"

definition registrar_interval :: "'u registrar \<Rightarrow> u64" where
  "registrar_interval r = (if sint (RenewInterval r) \<le> 0 then DefaultRenewInterval else RenewInterval r)"

definition registrar_Run ::
  "('st, 'm, 'u, 'x) registry_deps \<Rightarrow> 'u registrar \<Rightarrow> ('st, 'x) registrar_world \<Rightarrow>
   ('x, ('st, 'x) registrar_world) run_result" where
  "registrar_Run D r s =
     (case kv_Open (reg_kv D) (store s) registryKeyspace of
        (Some x, st) \<Rightarrow> Returned (Some x) (s\<lparr>store := st\<rparr>)
      | (None, st) \<Rightarrow>
          (case register D r (s\<lparr>store := st, interval := registrar_interval r\<rparr>) of
             (Some x, s') \<Rightarrow> Returned (Some x) s'
           | (None, s') \<Rightarrow> registrar_loop D r (rg_cases s') s'))"

section \<open>Observer\<close>

text \<open>With each tick comes the store as the other nodes of the cluster have left it.\<close>

datatype ('st, 'x) observer_case = ObCtxDone 'x | ObShutdown | ObTick 'st | ObSent

record ('st, 'm, 'u, 'x) observer_world = "'st store_world" +
  nodes :: 'm
  ob_cases :: "('st, 'x) observer_case list"
  published :: "'u MembershipChanged list"
  ob_ctx_err :: "'x option"

datatype 'u observer_state = ObIdle | ObPoll | ObPublish "'u MembershipChanged"

type_synonym ('st, 'm, 'u, 'x) observer_result =
  "('u observer_state, 'x, ('st, 'm, 'u, 'x) observer_world) state_result"

definition ob_idleState :: "('st, 'm, 'u, 'x) observer_world \<Rightarrow> ('st, 'm, 'u, 'x) observer_result" where
  "ob_idleState s =
     (case ob_cases s of
        ObCtxDone x # cs \<Rightarrow> Done Stop (s\<lparr>ob_cases := cs, ob_ctx_err := Some x\<rparr>)
      | ObShutdown # cs \<Rightarrow> Done Stop (s\<lparr>ob_cases := cs\<rparr>)
      | ObTick st # cs \<Rightarrow> Done (EnterState ObPoll) (s\<lparr>ob_cases := cs, store := st\<rparr>)
      | _ \<Rightarrow> Blocks s)"

text \<open>The function that \<open>loadNodes\<close> passes to \<open>Range\<close>.\<close>

definition load_pair ::
  "('st, 'm, 'u, 'x) registry_deps \<Rightarrow> 'u \<Rightarrow> 'u Registration \<Rightarrow> 'm \<Rightarrow> ('st, 'z) store_world_scheme \<Rightarrow>
   ('x, 'm) outcome \<times> ('st, 'z) store_world_scheme" where
  "load_pair D k reg ns s =
     (let (now, s1) = Now s
      in if now < AsTime (ExpiresAt reg)
         then case reg_Node reg of
                None \<Rightarrow> (Panic ''invalid memory address or nil pointer dereference'', s1)
              | Some n \<Rightarrow> (Ok (pm_Set D ns (Id n) \<lparr>ID = Id n, Node_Addresses = Addresses n\<rparr>), s1)
         else case kv_Set (reg_kv D) (store s1) k None of
                (Some x, st) \<Rightarrow> (Err x, s1\<lparr>store := st\<rparr>)
              | (None, st) \<Rightarrow> (Ok ns, s1\<lparr>store := st\<rparr>))"

fun load_pairs ::
  "('st, 'm, 'u, 'x) registry_deps \<Rightarrow> ('u \<times> 'u Registration) list \<Rightarrow> 'm \<Rightarrow> ('st, 'z) store_world_scheme \<Rightarrow>
   ('x, 'm) outcome \<times> ('st, 'z) store_world_scheme" where
  "load_pairs D [] ns s = (Ok ns, s)"
| "load_pairs D ((k, reg) # ps) ns s =
     (case load_pair D k reg ns s of
        (Ok ns', s') \<Rightarrow> load_pairs D ps ns' s'
      | (Err x, s') \<Rightarrow> (Err x, s')
      | (Panic t, s') \<Rightarrow> (Panic t, s'))"

definition loadNodes ::
  "('st, 'm, 'u, 'x) registry_deps \<Rightarrow> ('st, 'z) store_world_scheme \<Rightarrow>
   ('x, 'm) outcome \<times> ('st, 'z) store_world_scheme" where
  "loadNodes D s =
     (case kv_Range (reg_kv D) (store s) of
        ((ps, e), st) \<Rightarrow>
          (case load_pairs D ps (pm_zero D) (s\<lparr>store := st\<rparr>) of
             (Ok ns, s') \<Rightarrow> ((case e of Some x \<Rightarrow> Err x | None \<Rightarrow> Ok ns), s')
           | r \<Rightarrow> r))"

text \<open>The differences between the nodes that are known and those that were loaded.\<close>

definition membership_change :: "('st, 'm, 'u, 'x) registry_deps \<Rightarrow> 'm \<Rightarrow> 'm \<Rightarrow> 'u MembershipChanged" where
  "membership_change D known loaded =
     \<lparr>Registered = map snd (filter (\<lambda>(k, n). \<not> pm_Has D known k) (pm_All D loaded)),
      Deregistered = map snd (filter (\<lambda>(k, n). \<not> pm_Has D loaded k) (pm_All D known))\<rparr>"

definition pollState ::
  "('st, 'm, 'u, 'x) registry_deps \<Rightarrow> ('st, 'm, 'u, 'x) observer_world \<Rightarrow> ('st, 'm, 'u, 'x) observer_result" where
  "pollState D s =
     (case loadNodes D s of
        (Err x, s') \<Rightarrow> Done (Fail x) s'
      | (Panic t, s') \<Rightarrow> Panics t s'
      | (Ok ns, s') \<Rightarrow>
          (let ev = membership_change D (nodes s') ns
           in if Registered ev = [] \<and> Deregistered ev = [] then Done (EnterState ObIdle) s'
              else Done (With ev ObPublish) s'))"

definition apply_change :: "('st, 'm, 'u, 'x) registry_deps \<Rightarrow> 'u MembershipChanged \<Rightarrow> 'm \<Rightarrow> 'm" where
  "apply_change D ev m =
     fold (\<lambda>n m. pm_Remove D m (ID n)) (Deregistered ev)
       (fold (\<lambda>n m. pm_Set D m (ID n) n) (Registered ev) m)"

definition publishState ::
  "('st, 'm, 'u, 'x) registry_deps \<Rightarrow> 'u MembershipChanged \<Rightarrow> ('st, 'm, 'u, 'x) observer_world \<Rightarrow>
   ('st, 'm, 'u, 'x) observer_result" where
  "publishState D ev s =
     (case ob_cases s of
        ObCtxDone x # cs \<Rightarrow> Done Stop (s\<lparr>ob_cases := cs, ob_ctx_err := Some x\<rparr>)
      | ObTick st # cs \<Rightarrow> Done (EnterState ObPoll) (s\<lparr>ob_cases := cs, store := st\<rparr>)
      | ObSent # cs \<Rightarrow>
          Done (EnterState ObIdle)
            (s\<lparr>ob_cases := cs, published := published s @ [ev], nodes := apply_change D ev (nodes s)\<rparr>)
      | _ \<Rightarrow> Blocks s)"

fun observer_machine ::
  "('st, 'm, 'u, 'x) registry_deps \<Rightarrow> ('u observer_state, 'x, ('st, 'm, 'u, 'x) observer_world) machine" where
  "observer_machine D ObIdle s = ob_idleState s"
| "observer_machine D ObPoll s = pollState D s"
| "observer_machine D (ObPublish ev) s = publishState D ev s"

definition observer_interval :: "u64 \<Rightarrow> u64" where
  "observer_interval PollInterval =
     (if sint PollInterval \<le> 0 then DefaultRegistryPollInterval else PollInterval)"

definition observer_Run ::
  "('st, 'm, 'u, 'x) registry_deps \<Rightarrow> ('st, 'm, 'u, 'x) observer_world \<Rightarrow>
   ('x, ('st, 'm, 'u, 'x) observer_world) run_result option" where
  "observer_Run D s =
     (case kv_Open (reg_kv D) (store s) registryKeyspace of
        (Some x, st) \<Rightarrow> Some (Returned (Some x) (s\<lparr>store := st\<rparr>))
      | (None, st) \<Rightarrow> Start (observer_machine D) ob_ctx_err ObPoll None (s\<lparr>store := st\<rparr>))"

section \<open>What the registrar does to the store\<close>

definition registration :: "'u registrar \<Rightarrow> int \<Rightarrow> 'u Registration" where
  "registration r t = \<lparr>reg_Node = Some \<lparr>Id = ID (Node r), Addresses = Node_Addresses (Node r)\<rparr>, ExpiresAt = Some t\<rparr>"

lemma store_world_simps [simp]:
  "store (telemetry_event ev s) = store s" "nows (telemetry_event ev s) = nows s"
  "reads (telemetry_event ev s) = reads s" "interval (telemetry_event ev s') = interval s'"
  "fst (Now s) = nows s (reads s)" "snd (Now s) = s\<lparr>reads := Suc (reads s)\<rparr>"
  by (simp_all add: telemetry_event_def Now_def)

lemma saveRegistration_result:
  assumes laws: "kv_laws (reg_kv D) contents" and sv: "saveRegistration D r s = ((t, e), s')"
  shows "t = nows s (reads s) + sint (interval s * 2)" "nows s' = nows s" "reads s' = Suc (reads s)"
    "interval s' = interval s"
    and "contents (store s') = (contents (store s))(ID (Node r) \<mapsto> registration r t) \<or>
      e \<noteq> None \<and> contents (store s') = contents (store s)"
proof -
  obtain e' st where k: "kv_Set (reg_kv D) (store s) (ID (Node r))
      (Some (registration r (nows s (reads s) + sint (interval s * 2)))) = (e', st)" by fastforce
  with sv have eq: "t = nows s (reads s) + sint (interval s * 2)" "e' = e" "s' = s\<lparr>reads := Suc (reads s), store := st\<rparr>"
    by (auto simp: saveRegistration_def Now_def registration_def)
  then show "t = nows s (reads s) + sint (interval s * 2)" "nows s' = nows s" "reads s' = Suc (reads s)"
    "interval s' = interval s" by simp_all
  show "contents (store s') = (contents (store s))(ID (Node r) \<mapsto> registration r t) \<or>
      e \<noteq> None \<and> contents (store s') = contents (store s)"
    using kv_Set_law [OF laws k] eq by simp
qed

lemma saveRegistration_healthy:
  assumes "kv_healthy (reg_kv D)" "saveRegistration D r s = ((t, e), s')"
  shows "e = None"
  using assms kv_healthyD(3) [OF assms(1)] by (auto simp: saveRegistration_def Now_def Let_def split: prod.splits)

lemma deleteRegistration_result:
  assumes laws: "kv_laws (reg_kv D) contents" and d: "deleteRegistration D r s = (e, s')"
  shows "nows s' = nows s" "reads s' = reads s" "interval s' = interval s"
    and "contents (store s') = (contents (store s))(ID (Node r) := None) \<or>
      e \<noteq> None \<and> contents (store s') = contents (store s)"
proof -
  obtain e' st where k: "kv_Set (reg_kv D) (store s) (ID (Node r)) None = (e', st)" by fastforce
  with d have eq: "e' = e" "s' = s\<lparr>store := st\<rparr>" by (auto simp: deleteRegistration_def)
  then show "nows s' = nows s" "reads s' = reads s" "interval s' = interval s" by simp_all
  show "contents (store s') = (contents (store s))(ID (Node r) := None) \<or>
      e \<noteq> None \<and> contents (store s') = contents (store s)"
    using kv_Set_law [OF laws k] eq by simp
qed

lemma deleteRegistration_healthy:
  assumes "kv_healthy (reg_kv D)" "deleteRegistration D r s = (e, s')"
  shows "e = None"
  using assms kv_healthyD(3) [OF assms(1)] by (auto simp: deleteRegistration_def Let_def split: prod.splits)

text \<open>A registration period is twice the interval, as long as that does not overflow.\<close>

lemma sint_double: "0 \<le> sint (i :: u64) \<Longrightarrow> sint i < 2 ^ 62 \<Longrightarrow> sint (i * 2) = 2 * sint i"
  by (simp add: sint_word_ariths signed_take_bit_int_eq_self)

lemma renew_ok:
  assumes laws: "kv_laws (reg_kv D) contents" and healthy: "kv_healthy (reg_kv D)"
    and reg: "contents (store s) (ID (Node r)) = Some reg" "nows s (reads s) \<le> AsTime (ExpiresAt reg)"
    and i: "0 \<le> sint (interval s)" "sint (interval s) < 2 ^ 62"
  shows "\<exists>s'. renew D r s = (Ok (), s') \<and> nows s' = nows s \<and> reads s' = reads s + 2 \<and> interval s' = interval s \<and>
    contents (store s') = (contents (store s))
      (ID (Node r) \<mapsto> registration r (nows s (reads s + 1) + 2 * sint (interval s)))"
proof -
  obtain res st where g: "kv_Get (reg_kv D) (store s) (ID (Node r)) = (res, st)" by fastforce
  note get = kv_Get_law [OF laws g]
  have res: "res = Ok (Some reg)"
    using get(2,3) kv_healthyD(2) [OF healthy g] reg(1) by (cases res) auto
  obtain t e s' where sv: "saveRegistration D r (s\<lparr>store := st, reads := Suc (reads s)\<rparr>) = ((t, e), s')"
    by (metis surj_pair)
  have e: "e = None" by (rule saveRegistration_healthy [OF healthy sv])
  have "renew D r s = (Ok (), telemetry_event ''cluster.renew.ok'' s')"
    using g res reg(2) sv e by (simp add: renew_def Now_def)
  moreover have "t = nows s (reads s + 1) + 2 * sint (interval s)"
    using saveRegistration_result(1) [OF laws sv] sint_double [OF i] by simp
  ultimately show ?thesis
    using saveRegistration_result(2-5) [OF laws sv] e get(1) by simp
qed

text \<open>The registrar is registered until \<open>t\<close>, and has read the clock \<open>n\<close> times.\<close>

definition registered_until ::
  "('st \<Rightarrow> 'u \<Rightarrow> 'u Registration option) \<Rightarrow> ('u \<Rightarrow> 'u Registration option) \<Rightarrow> 'u registrar \<Rightarrow> (nat \<Rightarrow> int) \<Rightarrow>
   u64 \<Rightarrow> nat \<Rightarrow> int \<Rightarrow> ('st, 'x) registrar_world \<Rightarrow> bool" where
  "registered_until contents others r ts i n t s \<longleftrightarrow>
     contents (store s) = others(ID (Node r) \<mapsto> registration r t) \<and>
     nows s = ts \<and> reads s = n \<and> interval s = i"

lemma registrar_ticks:
  assumes laws: "kv_laws (reg_kv D) contents" and healthy: "kv_healthy (reg_kv D)"
    and i: "0 \<le> sint i" "sint i < 2 ^ 62" and clock: "\<And>k. ts (Suc k) \<le> ts k + 2 * sint i"
    and reg: "registered_until contents others r ts i (Suc n) (ts n + 2 * sint i) s"
  shows "\<exists>s'. registrar_loop D r (replicate k RTick @ cs) s = registrar_loop D r cs s' \<and>
    registered_until contents others r ts i (Suc (n + 2 * k)) (ts (n + 2 * k) + 2 * sint i) s'"
  using reg
proof (induction k arbitrary: n s)
  case 0
  then show ?case by auto
next
  case (Suc k)
  let ?s = "s\<lparr>rg_cases := replicate k RTick @ cs\<rparr>"
  have "contents (store ?s) (ID (Node r)) = Some (registration r (ts n + 2 * sint i))"
    "nows ?s (reads ?s) \<le> AsTime (ExpiresAt (registration r (ts n + 2 * sint i)))"
    "0 \<le> sint (interval ?s)" "sint (interval ?s) < 2 ^ 62"
    using Suc.prems i clock [of n] by (simp_all add: registered_until_def registration_def AsTime_def)
  from renew_ok [OF laws healthy this] obtain s1 where r: "renew D r ?s = (Ok (), s1)" and
    s1: "nows s1 = nows s" "reads s1 = reads s + 2" "interval s1 = interval s"
      "contents (store s1) = (contents (store s))
         (ID (Node r) \<mapsto> registration r (nows s (reads s + 1) + 2 * sint (interval s)))" by auto
  have "registered_until contents others r ts i (Suc (n + 2)) (ts (n + 2) + 2 * sint i) s1"
    using Suc.prems unfolding registered_until_def s1 by simp
  from Suc.IH [OF this] r show ?case by simp
qed

text \<open>\<open>Run\<close> registers the node for the period that the code computes, whatever it is.\<close>

lemma registrar_Run_saves:
  assumes laws: "kv_laws (reg_kv D) contents" and healthy: "kv_healthy (reg_kv D)"
  shows "\<exists>s'. registrar_Run D r s = registrar_loop D r (rg_cases s) s' \<and>
    registered_until contents (contents (store s)) r (nows s) (registrar_interval r) (Suc (reads s))
      (nows s (reads s) + sint (registrar_interval r * 2)) s'"
proof -
  obtain e st where o: "kv_Open (reg_kv D) (store s) registryKeyspace = (e, st)" by fastforce
  have e: "e = None" by (rule kv_healthyD(1) [OF healthy o])
  let ?s = "s\<lparr>store := st, interval := registrar_interval r\<rparr>"
  obtain t e' s1 where sv: "saveRegistration D r ?s = ((t, e'), s1)" by (metis surj_pair)
  have e': "e' = None" by (rule saveRegistration_healthy [OF healthy sv])
  have cases: "rg_cases s1 = rg_cases s" using sv by (auto simp: saveRegistration_def Now_def Let_def split: prod.splits)
  have "registrar_Run D r s = registrar_loop D r (rg_cases s) (telemetry_event ''cluster.register.ok'' s1)"
    using o e sv e' cases by (simp add: registrar_Run_def register_def telemetry_event_def)
  moreover have "registered_until contents (contents (store s)) r (nows s) (registrar_interval r) (Suc (reads s))
      (nows s (reads s) + sint (registrar_interval r * 2)) (telemetry_event ''cluster.register.ok'' s1)"
    using saveRegistration_result [OF laws sv] e' kv_Open_law [OF laws o] by (simp add: registered_until_def)
  ultimately show ?thesis by blast
qed

lemma registrar_Run_registers:
  assumes "kv_laws (reg_kv D) contents" and "kv_healthy (reg_kv D)"
    and i: "0 \<le> sint (registrar_interval r)" "sint (registrar_interval r) < 2 ^ 62"
  shows "\<exists>s'. registrar_Run D r s = registrar_loop D r (rg_cases s) s' \<and>
    registered_until contents (contents (store s)) r (nows s) (registrar_interval r) (Suc (reads s))
      (nows s (reads s) + 2 * sint (registrar_interval r)) s'"
  using registrar_Run_saves [OF assms(1,2), of r s] unfolding sint_double [OF i] .

lemma registrar_interval_pos: "0 < sint (registrar_interval r)"
  by (simp add: registrar_interval_def DefaultRenewInterval_def)

text \<open>From \<open>2 ^ 62\<close> nanoseconds on, twice the interval wraps around to a negative duration.\<close>

lemma sint_double_wraps:
  assumes "2 ^ 62 \<le> sint (i :: u64)"
  shows "sint (i * 2) = 2 * sint i - 2 ^ 64" "sint (i * 2) < 0"
proof -
  have lt: "sint i < 2 ^ 63" using sint_lt [of i] by simp
  have "(2 * sint i + 2 ^ 63) mod 2 ^ 64 = (2 * sint i + 2 ^ 63 - 2 ^ 64) mod 2 ^ 64"
    by (simp only: minus_mod_self2)
  also have "\<dots> = 2 * sint i + 2 ^ 63 - 2 ^ 64" using assms lt by (intro mod_pos_pos_trivial) simp_all
  finally show "sint (i * 2) = 2 * sint i - 2 ^ 64"
    by (simp add: sint_word_ariths signed_take_bit_eq_take_bit_shift take_bit_eq_mod mult.commute)
  with lt show "sint (i * 2) < 0" by simp
qed

text \<open>A tick that finds the registration expired removes it and ends the run.\<close>

lemma registrar_tick_expired:
  assumes laws: "kv_laws (reg_kv D) contents" and healthy: "kv_healthy (reg_kv D)"
    and reg: "contents (store s) (ID (Node r)) = Some (registration r t)" and late: "t < nows s (reads s)"
  shows "\<exists>s'. registrar_loop D r (RTick # cs) s =
      Returned (Some (errors_New D ''cannot renew expired cluster node registration'')) s' \<and>
    contents (store s') = (contents (store s))(ID (Node r) := None)"
proof -
  let ?s = "s\<lparr>rg_cases := cs\<rparr>"
  obtain res st where g: "kv_Get (reg_kv D) (store ?s) (ID (Node r)) = (res, st)" by fastforce
  have res: "res = Ok (Some (registration r t))"
    using kv_Get_law(2,3) [OF laws g] kv_healthyD(2) [OF healthy g] reg by (cases res) auto
  obtain e s' where d: "deleteRegistration D r (telemetry_event ''cluster.renew.error''
      (?s\<lparr>store := st, reads := Suc (reads s)\<rparr>)) = (e, s')" by fastforce
  have "e = None" by (rule deleteRegistration_healthy [OF healthy d])
  with d g res late have "registrar_loop D r (RTick # cs) s =
      Returned (Some (errors_New D ''cannot renew expired cluster node registration'')) s'"
    by (simp add: renew_def Now_def renew_expired_def registration_def AsTime_def)
  then show ?thesis
    using deleteRegistration_result(4) [OF laws d] \<open>e = None\<close> kv_Get_law(1) [OF laws g] by simp
qed

section \<open>What the observer does to the store\<close>

text \<open>Each registration is stored under the identifier of its node.\<close>

definition registry_ok :: "('u \<Rightarrow> 'u Registration option) \<Rightarrow> bool" where
  "registry_ok c \<longleftrightarrow> (\<forall>k reg. c k = Some reg \<longrightarrow> (\<exists>n. reg_Node reg = Some n \<and> Id n = k))"

definition nodes_ok :: "('st, 'm, 'u, 'x) registry_deps \<Rightarrow> 'm \<Rightarrow> bool" where
  "nodes_ok D m \<longleftrightarrow> (\<forall>k n. pm_TryGet D m k = Some n \<longrightarrow> ID n = k)"

definition members :: "('st, 'm, 'u, 'x) registry_deps \<Rightarrow> 'm \<Rightarrow> 'u set" where
  "members D m = dom (pm_TryGet D m)"

text \<open>The nodes with a registration among \<open>ps\<close> that expires after \<open>t\<close>.\<close>

definition unexpired :: "('u \<rightharpoonup> 'u Registration) \<Rightarrow> int \<Rightarrow> 'u set" where
  "unexpired c t = {k. \<exists>reg. c k = Some reg \<and> t < AsTime (ExpiresAt reg)}"

lemma load_pair_result:
  assumes laws: "kv_laws (reg_kv D) contents" "proto_map_laws D"
    and n: "reg_Node reg = Some n" "Id n = k" and lp: "load_pair D k reg ns s = (res, s')"
  shows "s' = s\<lparr>store := store s', reads := Suc (reads s)\<rparr>" "res \<noteq> Panic t"
    and "contents (store s') = contents (store s) \<or> contents (store s') = (contents (store s))(k := None)"
    and "res = Ok ns' \<Longrightarrow> nows s (reads s) < AsTime (ExpiresAt reg) \<and>
          pm_TryGet D ns' = (pm_TryGet D ns)(k \<mapsto> \<lparr>ID = k, Node_Addresses = Addresses n\<rparr>) \<and>
          contents (store s') = contents (store s) \<or>
        AsTime (ExpiresAt reg) \<le> nows s (reads s) \<and> ns' = ns \<and>
          contents (store s') = (contents (store s))(k := None)"
proof -
  obtain e st where k: "kv_Set (reg_kv D) (store s) k None = (e, st)" by fastforce
  note set = kv_Set_law [OF laws(1) k]
  have "s' = s\<lparr>store := store s', reads := Suc (reads s)\<rparr> \<and> (\<forall>t. res \<noteq> Panic t) \<and>
      (contents (store s') = contents (store s) \<or> contents (store s') = (contents (store s))(k := None)) \<and>
      (\<forall>ns'. res = Ok ns' \<longrightarrow> (nows s (reads s) < AsTime (ExpiresAt reg) \<and>
          pm_TryGet D ns' = (pm_TryGet D ns)(k \<mapsto> \<lparr>ID = k, Node_Addresses = Addresses n\<rparr>) \<and>
          contents (store s') = contents (store s) \<or>
        AsTime (ExpiresAt reg) \<le> nows s (reads s) \<and> ns' = ns \<and>
          contents (store s') = (contents (store s))(k := None)))"
  proof (cases "nows s (reads s) < AsTime (ExpiresAt reg)")
    case True
    then show ?thesis
      using lp n proto_map_simps(2) [OF laws(2)] by (auto simp: load_pair_def Now_def)
  next
    case False
    then show ?thesis
      using lp k set by (cases e) (auto simp: load_pair_def Now_def)
  qed
  then show "s' = s\<lparr>store := store s', reads := Suc (reads s)\<rparr>" "res \<noteq> Panic t"
    "contents (store s') = contents (store s) \<or> contents (store s') = (contents (store s))(k := None)"
    "res = Ok ns' \<Longrightarrow> nows s (reads s) < AsTime (ExpiresAt reg) \<and>
          pm_TryGet D ns' = (pm_TryGet D ns)(k \<mapsto> \<lparr>ID = k, Node_Addresses = Addresses n\<rparr>) \<and>
          contents (store s') = contents (store s) \<or>
        AsTime (ExpiresAt reg) \<le> nows s (reads s) \<and> ns' = ns \<and>
          contents (store s') = (contents (store s))(k := None)" by blast+
qed

lemma unexpired_Cons:
  "k \<notin> fst ` set ps \<Longrightarrow> unexpired (map_of ((k, reg) # ps)) t =
     (if t < AsTime (ExpiresAt reg) then {k} else {}) \<union> unexpired (map_of ps) t"
  by (auto simp: unexpired_def map_of_eq_None_iff [symmetric] split: if_splits)

text \<open>What was loaded, when the clock was between \<open>t1\<close> and \<open>t2\<close>.\<close>

definition clock_between :: "int \<Rightarrow> int \<Rightarrow> ('st, 'z) store_world_scheme \<Rightarrow> bool" where
  "clock_between t1 t2 s \<longleftrightarrow> (\<forall>k. t1 \<le> nows s k \<and> nows s k \<le> t2)"

definition loaded_between ::
  "('st, 'm, 'u, 'x) registry_deps \<Rightarrow> int \<Rightarrow> int \<Rightarrow> ('u \<rightharpoonup> 'u Registration) \<Rightarrow> ('u \<rightharpoonup> 'u Registration) \<Rightarrow> 'm \<Rightarrow> 'm \<Rightarrow> bool" where
  "loaded_between D t1 t2 c c' ns ns' \<longleftrightarrow>
     members D ns \<union> unexpired c t2 \<subseteq> members D ns' \<and> members D ns' \<subseteq> members D ns \<union> unexpired c t1 \<and>
     (\<forall>k reg. c k = Some reg \<longrightarrow> AsTime (ExpiresAt reg) \<le> t1 \<longrightarrow> c' k = None)"

lemma loaded_between_Cons:
  assumes "k \<notin> fst ` set ps"
    and "members D ns1 \<subseteq> members D ns \<union> (if t1 < AsTime (ExpiresAt reg) then {k} else {})"
    and "members D ns \<union> (if t2 < AsTime (ExpiresAt reg) then {k} else {}) \<subseteq> members D ns1"
    and "AsTime (ExpiresAt reg) \<le> t1 \<Longrightarrow> c' k = None"
    and "loaded_between D t1 t2 (map_of ps) c' ns1 ns'"
  shows "loaded_between D t1 t2 (map_of ((k, reg) # ps)) c' ns ns'"
  unfolding loaded_between_def unexpired_Cons [OF assms(1)]
proof (intro conjI allI impI)
  note l = assms(5) [unfolded loaded_between_def]
  show "members D ns \<union> ((if t2 < AsTime (ExpiresAt reg) then {k} else {}) \<union> unexpired (map_of ps) t2) \<subseteq> members D ns'"
    using l assms(3) by blast
  show "members D ns' \<subseteq> members D ns \<union> ((if t1 < AsTime (ExpiresAt reg) then {k} else {}) \<union> unexpired (map_of ps) t1)"
    using l assms(2) by blast
  fix i x assume "map_of ((k, reg) # ps) i = Some x" "AsTime (ExpiresAt x) \<le> t1"
  with l assms(4) show "c' i = None" by (cases "i = k") auto
qed

lemma load_pairs_result:
  assumes laws: "kv_laws (reg_kv D) contents" "proto_map_laws D"
    and "\<forall>(k, reg) \<in> set ps. \<exists>n. reg_Node reg = Some n \<and> Id n = k" "distinct (map fst ps)"
    and "load_pairs D ps ns s = (res, s')"
  shows "s' = s\<lparr>store := store s', reads := reads s'\<rparr> \<and> (\<forall>t. res \<noteq> Panic t) \<and>
    contents (store s') \<subseteq>\<^sub>m contents (store s) \<and>
    (\<forall>ns'. res = Ok ns' \<longrightarrow> (nodes_ok D ns \<longrightarrow> nodes_ok D ns') \<and>
      (clock_between t1 t2 s \<longrightarrow> loaded_between D t1 t2 (map_of ps) (contents (store s')) ns ns'))"
  using assms(3-)
proof (induction ps arbitrary: ns s)
  case Nil
  then show ?case by (auto simp: unexpired_def loaded_between_def)
next
  case (Cons p ps)
  obtain k reg where p: "p = (k, reg)" by fastforce
  obtain n where n: "reg_Node reg = Some n" "Id n = k" using Cons.prems(1) p by auto
  obtain res1 s1 where lp: "load_pair D k reg ns s = (res1, s1)" by fastforce
  note r = load_pair_result [OF laws n lp]
  have rd: "reads s1 = Suc (reads s)" by (subst r(1)) simp
  have s1: "s1 = s\<lparr>store := store s1, reads := reads s1\<rparr>" using r(1) unfolding rd .
  have sub: "contents (store s1) \<subseteq>\<^sub>m contents (store s)" using r(3) by (auto simp: map_le_def split: if_splits)
  show ?case
  proof (cases res1)
    case (Ok ns1)
    have nows: "nows s1 = nows s" by (subst r(1)) simp
    have ps: "load_pairs D ps ns1 s1 = (res, s')" using Cons.prems(3) p lp Ok by simp
    have "\<forall>(k, reg) \<in> set ps. \<exists>n. reg_Node reg = Some n \<and> Id n = k" "distinct (map fst ps)"
      using Cons.prems(1,2) by auto
    note IH = Cons.IH [OF this ps]
    have k: "k \<notin> fst ` set ps" using Cons.prems(2) p by simp
    show ?thesis
    proof (intro conjI allI impI)
      show "s' = s\<lparr>store := store s', reads := reads s'\<rparr>"
        using conjunct1 [OF IH] s1 by (cases s; cases s1; cases s') simp
      show "res \<noteq> Panic t" for t using IH by blast
      show "contents (store s') \<subseteq>\<^sub>m contents (store s)" using IH sub map_le_trans by blast
      fix ns' assume Ok': "res = Ok ns'"
      have "nodes_ok D ns1" if "nodes_ok D ns"
        using r(4) [OF Ok] that by (auto simp: nodes_ok_def split: if_splits)
      with IH Ok' show "nodes_ok D ns \<Longrightarrow> nodes_ok D ns'" by blast
      assume clock: "clock_between t1 t2 s"
      then have c: "t1 \<le> nows s (reads s)" "nows s (reads s) \<le> t2" by (simp_all add: clock_between_def)
      show "loaded_between D t1 t2 (map_of (p # ps)) (contents (store s')) ns ns'"
        unfolding p
      proof (rule loaded_between_Cons [OF k])
        show "members D ns1 \<subseteq> members D ns \<union> (if t1 < AsTime (ExpiresAt reg) then {k} else {})"
          "members D ns \<union> (if t2 < AsTime (ExpiresAt reg) then {k} else {}) \<subseteq> members D ns1"
          using r(4) [OF Ok] c by (auto simp: members_def)
        show "contents (store s') k = None" if "AsTime (ExpiresAt reg) \<le> t1"
        proof -
          have "contents (store s1) k = None" using r(4) [OF Ok] that c by auto
          with IH show ?thesis by (metis domIff map_le_implies_dom_le subsetD)
        qed
        show "loaded_between D t1 t2 (map_of ps) (contents (store s')) ns1 ns'"
          using IH Ok' clock by (simp add: clock_between_def nows)
      qed
    qed
  qed (use r(2) s1 sub Cons.prems(3) p lp in auto)
qed

lemma loadNodes_result:
  assumes laws: "kv_laws (reg_kv D) contents" "proto_map_laws D" and ok: "registry_ok (contents (store s))"
    and ld: "loadNodes D s = (res, s')"
  shows "s' = s\<lparr>store := store s', reads := reads s'\<rparr> \<and> (\<forall>t. res \<noteq> Panic t) \<and>
    contents (store s') \<subseteq>\<^sub>m contents (store s) \<and>
    (\<forall>ns. res = Ok ns \<longrightarrow> nodes_ok D ns \<and> (clock_between t1 t2 s \<longrightarrow>
      unexpired (contents (store s)) t2 \<subseteq> members D ns \<and> members D ns \<subseteq> unexpired (contents (store s)) t1 \<and>
      (\<forall>k reg. contents (store s) k = Some reg \<longrightarrow> AsTime (ExpiresAt reg) \<le> t1 \<longrightarrow> contents (store s') k = None)))"
proof -
  obtain ps e st where k: "kv_Range (reg_kv D) (store s) = ((ps, e), st)" by (metis surj_pair)
  note rg = kv_Range_law [OF laws(1) k]
  have all: "\<forall>(k, reg) \<in> set ps. \<exists>n. reg_Node reg = Some n \<and> Id n = k"
  proof (clarify)
    fix k reg assume "(k, reg) \<in> set ps"
    then have "map_of ps k = Some reg" using rg(2) by simp
    then have "contents (store s) k = Some reg" using rg(3) by (metis domI map_le_def)
    with ok show "\<exists>n. reg_Node reg = Some n \<and> Id n = k" by (auto simp: registry_ok_def)
  qed
  obtain res1 s1 where lp: "load_pairs D ps (pm_zero D) (s\<lparr>store := st\<rparr>) = (res1, s1)" by fastforce
  note r = load_pairs_result [OF laws all rg(2) lp, of t1 t2]
  have s': "s' = s1" and res: "res = Ok ns \<Longrightarrow> res1 = Ok ns \<and> e = None" "res = Panic t \<Longrightarrow> res1 = Panic t" for ns t
    using ld k lp by (auto simp: loadNodes_def split: outcome.splits option.splits)
  have zero: "nodes_ok D (pm_zero D)" "members D (pm_zero D) = {}"
    using proto_map_simps(1) [OF laws(2)] by (simp_all add: nodes_ok_def members_def)
  show ?thesis
  proof (intro conjI allI impI)
    have "s1 = s\<lparr>store := st, store := store s1, reads := reads s1\<rparr>" using r by blast
    then show "s' = s\<lparr>store := store s', reads := reads s'\<rparr>" by (simp add: s')
    show "res \<noteq> Panic t" for t using r res(2) by blast
    show "contents (store s') \<subseteq>\<^sub>m contents (store s)" using r rg(1) s' by simp
    fix ns assume Ok: "res = Ok ns"
    then have m: "map_of ps = contents (store s)" using rg(4) res(1) by blast
    show "nodes_ok D ns" using r res(1) [OF Ok] zero(1) by blast
    assume "clock_between t1 t2 s"
    then have l: "loaded_between D t1 t2 (contents (store s)) (contents (store s')) (pm_zero D) ns"
      using r res(1) [OF Ok] m s' by (simp add: clock_between_def)
    then show "unexpired (contents (store s)) t2 \<subseteq> members D ns" "members D ns \<subseteq> unexpired (contents (store s)) t1"
      unfolding loaded_between_def zero(2) by blast+
    fix k reg assume "contents (store s) k = Some reg" "AsTime (ExpiresAt reg) \<le> t1"
    with l show "contents (store s') k = None" unfolding loaded_between_def by blast
  qed
qed

section \<open>What the subscribers of the observer see\<close>

text \<open>A subscriber keeps a set of identifiers, which each event changes.\<close>

definition view_change :: "'u MembershipChanged \<Rightarrow> 'u set \<Rightarrow> 'u set" where
  "view_change ev V = (V \<union> ID ` set (Registered ev)) - ID ` set (Deregistered ev)"

definition view :: "'u MembershipChanged list \<Rightarrow> 'u set" where
  "view evs = fold view_change evs {}"

text \<open>An event says something, once for each node, and only what the subscriber does not know.\<close>

definition change_ok :: "'u set \<Rightarrow> 'u MembershipChanged \<Rightarrow> bool" where
  "change_ok V ev \<longleftrightarrow> (Registered ev \<noteq> [] \<or> Deregistered ev \<noteq> []) \<and>
     distinct (map ID (Registered ev)) \<and> ID ` set (Registered ev) \<inter> V = {} \<and>
     distinct (map ID (Deregistered ev)) \<and> ID ` set (Deregistered ev) \<subseteq> V"

fun changes_ok :: "'u set \<Rightarrow> 'u MembershipChanged list \<Rightarrow> bool" where
  "changes_ok V [] \<longleftrightarrow> True"
| "changes_ok V (ev # evs) \<longleftrightarrow> change_ok V ev \<and> changes_ok (view_change ev V) evs"

lemma changes_ok_snoc: "changes_ok V (evs @ [ev]) \<longleftrightarrow> changes_ok V evs \<and> change_ok (fold view_change evs V) ev"
  by (induction evs arbitrary: V) auto

lemma view_snoc: "view (evs @ [ev]) = view_change ev (view evs)"
  by (simp add: view_def)

lemma members_iff: "k \<in> members D m \<longleftrightarrow> (\<exists>n. pm_TryGet D m k = Some n)"
  by (auto simp: members_def)

lemma nodes_diff:
  fixes D :: "('st, 'm, 'u, 'x) registry_deps" and m m' :: 'm
  assumes laws: "proto_map_laws D" and wf: "nodes_ok D m"
  defines "ns \<equiv> map snd (filter (\<lambda>(k, n). \<not> pm_Has D m' k) (pm_All D m))"
  shows "distinct (map ID ns)" "ID ` set ns = members D m - members D m'"
proof -
  have key: "ID n = k" if "(k, n) \<in> set (pm_All D m)" for k n
    using that wf proto_map_All [OF laws] unfolding nodes_ok_def by blast
  then have "map ID ns = map fst (filter (\<lambda>(k, n). \<not> pm_Has D m' k) (pm_All D m))"
    by (auto simp: ns_def)
  moreover have "distinct (map fst (filter P (pm_All D m)))" for P
    using proto_map_simps(5) [OF laws] distinct_map_filter by blast
  ultimately show "distinct (map ID ns)" by simp
  have "ID ` set ns = fst ` set (filter (\<lambda>(k, n). \<not> pm_Has D m' k) (pm_All D m))"
    using \<open>map ID ns = _\<close> by (metis list.set_map)
  also have "\<dots> = {k. \<exists>n. (k, n) \<in> set (pm_All D m) \<and> \<not> pm_Has D m' k}" by force
  also have "\<dots> = members D m - members D m'"
    unfolding proto_map_All [OF laws] proto_map_simps(4) [OF laws] by (auto simp: members_def)
  finally show "ID ` set ns = members D m - members D m'" .
qed

lemma membership_change_ids:
  assumes "proto_map_laws D" "nodes_ok D known" "nodes_ok D loaded"
  shows "ID ` set (Registered (membership_change D known loaded)) = members D loaded - members D known"
    "ID ` set (Deregistered (membership_change D known loaded)) = members D known - members D loaded"
    "distinct (map ID (Registered (membership_change D known loaded)))"
    "distinct (map ID (Deregistered (membership_change D known loaded)))"
  using nodes_diff [OF assms(1,2), of loaded] nodes_diff [OF assms(1,3), of known]
  by (simp_all add: membership_change_def)

lemma members_update:
  assumes "proto_map_laws D"
  shows "members D (pm_Set D m k n) = insert k (members D m)"
    and "members D (pm_Remove D m k) = members D m - {k}"
    and "nodes_ok D m \<Longrightarrow> ID n = k \<Longrightarrow> nodes_ok D (pm_Set D m k n)"
    and "nodes_ok D m \<Longrightarrow> nodes_ok D (pm_Remove D m k)"
  unfolding members_def nodes_ok_def proto_map_simps(2) [OF assms] proto_map_simps(3) [OF assms]
  by (auto split: if_splits)

lemma fold_Set_members:
  fixes ns :: "'u Node list"
  assumes "proto_map_laws D"
  shows "members D (fold (\<lambda>n m. pm_Set D m (ID n) n) ns m) = members D m \<union> ID ` set ns"
    and "nodes_ok D m \<Longrightarrow> nodes_ok D (fold (\<lambda>n m. pm_Set D m (ID n) n) ns m)"
  by (induction ns arbitrary: m) (simp_all add: members_update [OF assms])

lemma fold_Remove_members:
  fixes ns :: "'u Node list"
  assumes "proto_map_laws D"
  shows "members D (fold (\<lambda>n m. pm_Remove D m (ID n)) ns m) = members D m - ID ` set ns"
    and "nodes_ok D m \<Longrightarrow> nodes_ok D (fold (\<lambda>n m. pm_Remove D m (ID n)) ns m)"
  by (induction ns arbitrary: m) (auto simp: members_update [OF assms])

lemma apply_change_members:
  assumes "proto_map_laws D"
  shows "members D (apply_change D ev m) = view_change ev (members D m)"
    and "nodes_ok D m \<Longrightarrow> nodes_ok D (apply_change D ev m)"
  by (simp_all add: apply_change_def view_change_def fold_Set_members [OF assms] fold_Remove_members [OF assms])

section \<open>Contract of the observer\<close>

text \<open>Every store that the observer will see is a registry; its map is the view of the subscribers.\<close>

definition ob_ok ::
  "('st, 'm, 'u, 'x) registry_deps \<Rightarrow> ('st \<Rightarrow> 'u \<Rightarrow> 'u Registration option) \<Rightarrow> ('st, 'm, 'u, 'x) observer_world \<Rightarrow> bool" where
  "ob_ok D contents s \<longleftrightarrow> kv_laws (reg_kv D) contents \<and> proto_map_laws D \<and>
     registry_ok (contents (store s)) \<and> (\<forall>st. ObTick st \<in> set (ob_cases s) \<longrightarrow> registry_ok (contents st)) \<and>
     nodes_ok D (nodes s) \<and> members D (nodes s) = view (published s) \<and> changes_ok {} (published s)"

definition ob_inv ::
  "('st, 'm, 'u, 'x) registry_deps \<Rightarrow> ('st \<Rightarrow> 'u \<Rightarrow> 'u Registration option) \<Rightarrow> 'u observer_state \<Rightarrow>
   ('st, 'm, 'u, 'x) observer_world \<Rightarrow> bool" where
  "ob_inv D contents q s \<longleftrightarrow> ob_ok D contents s \<and>
     (case q of ObPublish ev \<Rightarrow> change_ok (members D (nodes s)) ev | _ \<Rightarrow> True)"

lemma registry_ok_mono: "registry_ok c \<Longrightarrow> c' \<subseteq>\<^sub>m c \<Longrightarrow> registry_ok c'"
  unfolding registry_ok_def by (metis domI map_le_def)

lemma ob_ok_store:
  assumes ok: "ob_ok D contents s" and s': "s' = s\<lparr>store := store s', reads := reads s'\<rparr>"
    and "contents (store s') \<subseteq>\<^sub>m contents (store s)"
  shows "ob_ok D contents s'" "nodes s' = nodes s" "ob_cases s' = ob_cases s"
proof -
  have f: "nodes s' = nodes s" "ob_cases s' = ob_cases s" "published s' = published s"
    by (subst s', simp)+
  then show "nodes s' = nodes s" "ob_cases s' = ob_cases s" by simp_all
  show "ob_ok D contents s'"
    using ok registry_ok_mono assms(3) unfolding ob_ok_def f by blast
qed

lemma pollState_result:
  assumes ok: "ob_ok D contents s"
  shows "case pollState D s of
      Done act s' \<Rightarrow> ob_ok D contents s' \<and> ob_cases s' = ob_cases s \<and> nodes s' = nodes s \<and>
        ((\<exists>x. act = Fail x) \<or> act = EnterState ObIdle \<or>
         (\<exists>ev. act = EnterState (ObPublish ev) \<and> change_ok (members D (nodes s')) ev))
    | _ \<Rightarrow> False"
proof -
  obtain res s' where ld: "loadNodes D s = (res, s')" by fastforce
  have laws: "kv_laws (reg_kv D) contents" "proto_map_laws D" "registry_ok (contents (store s))"
    and wf: "nodes_ok D (nodes s)"
    using ok by (simp_all add: ob_ok_def)
  note r = loadNodes_result [OF laws ld]
  from r have st: "s' = s\<lparr>store := store s', reads := reads s'\<rparr>" "contents (store s') \<subseteq>\<^sub>m contents (store s)"
    by blast+
  note keep = ob_ok_store [OF ok st]
  show ?thesis
  proof (cases res)
    case (Ok ns)
    let ?ev = "membership_change D (nodes s') ns"
    have "nodes_ok D ns" using r Ok by blast
    note ids = membership_change_ids [OF laws(2) wf this]
    show ?thesis
    proof (cases "Registered ?ev = [] \<and> Deregistered ?ev = []")
      case True
      then show ?thesis using ld Ok keep by (simp add: pollState_def Let_def)
    next
      case False
      then have "change_ok (members D (nodes s')) ?ev"
        using ids unfolding change_ok_def keep(2) by auto
      then show ?thesis using ld Ok keep False by (simp add: pollState_def Let_def With_def)
    qed
  next
    case (Err x)
    then show ?thesis using ld keep by (simp add: pollState_def)
  next
    case (Panic t)
    then show ?thesis using r by blast
  qed
qed

lemma ob_machine_ok:
  assumes inv: "ob_inv D contents q s"
  shows "case observer_machine D q s of
      Done act s' \<Rightarrow> ob_ok D contents s' \<and> act \<noteq> NoAction \<and> act \<noteq> StayInCurrentState \<and>
        (\<forall>q'. act = EnterState q' \<longrightarrow> ob_inv D contents q' s')
    | Panics t s' \<Rightarrow> False | Blocks s' \<Rightarrow> ob_ok D contents s'"
proof (cases q)
  case ObIdle
  with inv show ?thesis
    by (auto simp: ob_inv_def ob_idleState_def ob_ok_def split: list.splits observer_case.splits)
next
  case ObPoll
  with inv have "ob_ok D contents s" by (simp add: ob_inv_def)
  from pollState_result [OF this] ObPoll show ?thesis
    by (auto simp: ob_inv_def split: state_result.splits)
next
  case (ObPublish ev)
  with inv have ok: "ob_ok D contents s" and ch: "change_ok (members D (nodes s)) ev"
    by (simp_all add: ob_inv_def)
  then have laws: "proto_map_laws D" by (simp add: ob_ok_def)
  show ?thesis
  proof (cases "ob_cases s")
    case (Cons c cs)
    show ?thesis
    proof (cases c)
      case ObSent
      then show ?thesis using ok ch ObPublish Cons
        by (simp add: publishState_def ob_inv_def ob_ok_def apply_change_members [OF laws] view_snoc
            changes_ok_snoc view_def)
    qed (use ok ObPublish Cons in \<open>simp_all add: publishState_def ob_inv_def ob_ok_def\<close>)
  qed (use ok ObPublish in \<open>simp add: publishState_def\<close>)
qed

interpretation ob_fsm: fsm_contract "observer_machine D" ob_ctx_err "ob_inv D contents"
  "\<lambda>e. ob_ok D contents" "ob_ok D contents" "\<lambda>t s. False"
proof unfold_locales
  fix q s
  assume inv: "ob_inv D contents q s"
  note ok = ob_machine_ok [OF inv]
  show "ob_ok D contents s'" if "observer_machine D q s = Done Stop s'" for s' using ok that by simp
  show "ob_ok D contents s'" if "observer_machine D q s = Done (Fail e) s'" for e s' using ok that by simp
  show "ob_inv D contents q s'" if "observer_machine D q s = Done StayInCurrentState s'" for s'
    using ok that by simp
  show "ob_inv D contents q' s'" if "observer_machine D q s = Done (EnterState q') s'" for q' s'
    using ok that by simp
  show "observer_machine D q s \<noteq> Done NoAction s'" for s' using ok by auto
  show False if "observer_machine D q s = Panics t s'" for t s' using ok that by auto
  show "ob_ok D contents s'" if "observer_machine D q s = Blocks s'" for s' using ok that by simp
qed

text \<open>Every tick uses up a case; a poll is followed by a state that waits for one.\<close>

definition ob_meas :: "'u observer_state \<Rightarrow> ('st, 'm, 'u, 'x) observer_world \<Rightarrow> nat" where
  "ob_meas q s = 2 * length (ob_cases s) + (if q = ObPoll then 1 else 0)"

lemma load_pair_cases: "load_pair D k reg ns s = (res, s') \<Longrightarrow> ob_cases s' = ob_cases s"
  by (auto simp: load_pair_def Now_def Let_def split: option.splits if_splits prod.splits)

lemma load_pairs_cases: "load_pairs D ps ns s = (res, s') \<Longrightarrow> ob_cases s' = ob_cases s"
proof (induction ps arbitrary: ns s)
  case (Cons p ps)
  obtain k reg where p: "p = (k, reg)" by fastforce
  obtain res1 s1 where lp: "load_pair D k reg ns s = (res1, s1)" by fastforce
  from Cons.prems p lp load_pair_cases [OF lp] Cons.IH [of _ s1] show ?case
    by (cases res1) auto
qed simp

lemma loadNodes_cases: "loadNodes D s = (res, s') \<Longrightarrow> ob_cases s' = ob_cases s"
  by (auto simp: loadNodes_def dest!: load_pairs_cases split: prod.splits outcome.splits option.splits)

lemma pollState_moves: "pollState D s = Done act s' \<Longrightarrow> ob_cases s' = ob_cases s \<and> act \<noteq> StayInCurrentState \<and> act \<noteq> EnterState ObPoll"
  by (auto simp: pollState_def Let_def With_def dest: loadNodes_cases split: prod.splits outcome.splits if_splits)

interpretation ob_fsm: fsm_progress "observer_machine D" ob_ctx_err ob_meas
proof unfold_locales
  fix q s s'
  show "ob_meas q s' < ob_meas q s" if "observer_machine D q s = Done StayInCurrentState s'"
    using that by (cases q) (auto simp: ob_idleState_def publishState_def dest!: pollState_moves
        split: list.splits observer_case.splits)
  fix q'
  show "ob_meas q' s' < ob_meas q s" if "observer_machine D q s = Done (EnterState q') s'"
    using that by (cases q) (auto simp: ob_meas_def ob_idleState_def publishState_def dest!: pollState_moves
        split: list.splits observer_case.splits)
qed

lemma load_pair_healthy: "kv_healthy (reg_kv D) \<Longrightarrow> load_pair D k reg ns s = (res, s') \<Longrightarrow> res \<noteq> Err x"
  by (auto simp: load_pair_def Now_def Let_def dest: kv_healthyD(3) split: option.splits if_splits prod.splits)

lemma load_pairs_healthy:
  "kv_healthy (reg_kv D) \<Longrightarrow> load_pairs D ps ns s = (res, s') \<Longrightarrow> res \<noteq> Err x"
proof (induction ps arbitrary: ns s)
  case (Cons p ps)
  obtain k reg where p: "p = (k, reg)" by fastforce
  obtain res1 s1 where lp: "load_pair D k reg ns s = (res1, s1)" by fastforce
  from Cons.prems p lp load_pair_healthy [OF Cons.prems(1) lp] Cons.IH [OF Cons.prems(1), of _ s1] show ?case
    by (cases res1) auto
qed auto

lemma loadNodes_healthy:
  assumes "kv_healthy (reg_kv D)" "loadNodes D s = (res, s')"
  shows "res \<noteq> Err x"
proof -
  obtain ps e st where k: "kv_Range (reg_kv D) (store s) = ((ps, e), st)" by (metis surj_pair)
  obtain res1 s1 where lp: "load_pairs D ps (pm_zero D) (s\<lparr>store := st\<rparr>) = (res1, s1)" by fastforce
  show ?thesis
    using assms(2) k lp kv_healthyD(4) [OF assms(1) k] load_pairs_healthy [OF assms(1) lp]
    by (auto simp: loadNodes_def split: outcome.splits)
qed

lemma pollState_loaded:
  assumes "loadNodes D s = (Ok ns, s')"
  shows "pollState D s =
    (if Registered (membership_change D (nodes s') ns) = [] \<and> Deregistered (membership_change D (nodes s') ns) = []
     then Done (EnterState ObIdle) s' else Done (EnterState (ObPublish (membership_change D (nodes s') ns))) s')"
  using assms by (simp add: pollState_def Let_def With_def)

text \<open>A poll and the publication of what it has found, if there is anything.\<close>

definition polled ::
  "('st, 'm, 'u, 'x) registry_deps \<Rightarrow> ('st, 'm, 'u, 'x) observer_world \<Rightarrow> ('st, 'm, 'u, 'x) observer_world \<Rightarrow> bool" where
  "polled D s s' \<longleftrightarrow>
     (case pollState D s of
        Done (EnterState (ObPublish ev)) s1 \<Rightarrow> publishState D ev s1 = Done (EnterState ObIdle) s'
      | r \<Rightarrow> r = Done (EnterState ObIdle) s')"

lemma poll_converges:
  assumes "ob_ok D contents s" and "kv_healthy (reg_kv D)" and "clock_between t1 t2 s"
    and "ob_cases s = ObSent # cs"
  shows "\<exists>s'. polled D s s' \<and>
    unexpired (contents (store s)) t2 \<subseteq> view (published s') \<and> view (published s') \<subseteq> unexpired (contents (store s)) t1 \<and>
    (\<forall>k reg. contents (store s) k = Some reg \<longrightarrow> AsTime (ExpiresAt reg) \<le> t1 \<longrightarrow> contents (store s') k = None)"
proof -
  have laws: "kv_laws (reg_kv D) contents" "proto_map_laws D" "registry_ok (contents (store s))"
    and wf: "nodes_ok D (nodes s)" "members D (nodes s) = view (published s)"
    using assms(1) by (simp_all add: ob_ok_def)
  obtain res s1 where ld: "loadNodes D s = (res, s1)" by fastforce
  note r = loadNodes_result [OF laws ld, of t1 t2]
  then have st: "s1 = s\<lparr>store := store s1, reads := reads s1\<rparr>" by blast
  have f: "nodes s1 = nodes s" "published s1 = published s" "ob_cases s1 = ob_cases s" by (subst st, simp)+
  obtain ns where Ok: "res = Ok ns" using r loadNodes_healthy [OF assms(2) ld] by (cases res) blast+
  let ?ev = "membership_change D (nodes s1) ns"
  have ns: "nodes_ok D ns" "unexpired (contents (store s)) t2 \<subseteq> members D ns"
      "members D ns \<subseteq> unexpired (contents (store s)) t1"
      "\<forall>k reg. contents (store s) k = Some reg \<longrightarrow> AsTime (ExpiresAt reg) \<le> t1 \<longrightarrow> contents (store s1) k = None"
    using r Ok assms(3) by blast+
  note ids = membership_change_ids [OF laws(2) wf(1) ns(1), folded f(1)]
  note poll = pollState_loaded [OF ld [unfolded Ok]]
  show ?thesis
  proof (cases "Registered ?ev = [] \<and> Deregistered ?ev = []")
    case True
    then have "members D ns = view (published s1)" using ids(1,2) wf(2) f(1,2) by auto
    with True poll ns show ?thesis by (auto simp: polled_def)
  next
    case False
    let ?s' = "s1\<lparr>ob_cases := cs, published := published s1 @ [?ev], nodes := apply_change D ?ev (nodes s1)\<rparr>"
    have "publishState D ?ev s1 = Done (EnterState ObIdle) ?s'"
      using assms(4) f(3) by (simp add: publishState_def)
    moreover have "view (published ?s') = members D ns"
      using ids(1,2) wf(2) f(1,2) by (auto simp: view_snoc view_change_def)
    moreover have "pollState D s = Done (EnterState (ObPublish ?ev)) s1" using poll False by auto
    ultimately show ?thesis using ns by (intro exI [of _ ?s']) (auto simp: polled_def)
  qed
qed

section \<open>An example\<close>

text \<open>Two nodes in a store in memory, and a clock that gives the time 100 at every reading.\<close>

type_synonym example_store = "(nat \<times> nat Registration) list"

definition rg_example_deps :: "(('u \<times> 'u Registration) list, ('u, 'u Node) alist, 'u, string) registry_deps" where
  "rg_example_deps = \<lparr>pm_zero = pm_zero alist_map, pm_TryGet = pm_TryGet alist_map, pm_Has = pm_Has alist_map,
     pm_Set = pm_Set alist_map, pm_Remove = pm_Remove alist_map, pm_Len = pm_Len alist_map,
     pm_All = pm_All alist_map, reg_kv = mem_kv, errors_New = id\<rparr>"

lemma rg_example_deps_ok:
  "kv_laws (reg_kv rg_example_deps) map_of" "kv_healthy (reg_kv rg_example_deps)" "proto_map_laws rg_example_deps"
  by (simp_all add: rg_example_deps_def mem_kv_laws mem_kv_healthy proto_map_laws_fields [OF alist_map_laws])

definition rg_example_registrar :: "nat registrar" where
  "rg_example_registrar = \<lparr>Node = \<lparr>ID = 1, Node_Addresses = [''a:1'']\<rparr>, RenewInterval = 0\<rparr>"

definition rg_example_world :: "string registrar_case list \<Rightarrow> (('u \<times> 'u Registration) list, string) registrar_world" where
  "rg_example_world cs = \<lparr>store = [], nows = (\<lambda>_. 100), reads = 0, telemetry_log = [], interval = 5, rg_cases = cs\<rparr>"

definition rg_example_reg :: "nat \<Rightarrow> int \<Rightarrow> nat Registration" where
  "rg_example_reg k t = \<lparr>reg_Node = Some \<lparr>Id = k, Addresses = [''b:2'']\<rparr>, ExpiresAt = Some t\<rparr>"

definition ob_example_world ::
  "(nat, nat Node) alist \<Rightarrow> (example_store, string) observer_case list \<Rightarrow>
   (example_store, (nat, nat Node) alist, nat, string) observer_world" where
  "ob_example_world m cs = \<lparr>store = [(1, rg_example_reg 1 200), (2, rg_example_reg 2 50)], nows = (\<lambda>_. 100), reads = 0,
     telemetry_log = [], nodes = m, ob_cases = cs, published = [], ob_ctx_err = None\<rparr>"

lemma ob_example_ok:
  "\<forall>st. ObTick st \<in> set cs \<longrightarrow> st = [] \<Longrightarrow> ob_ok rg_example_deps map_of (ob_example_world DAList.empty cs)"
  using rg_example_deps_ok
  by (auto simp: ob_ok_def ob_example_world_def registry_ok_def rg_example_reg_def nodes_ok_def members_def view_def
      rg_example_deps_def alist_map_def split: if_splits)

section \<open>Properties\<close>

text \<open>
A registrar whose store works and which reads the clock at least once in two intervals stays
registered: after any number of ticks its registration, under its own identifier and with its
addresses, expires two intervals after the last reading, the registrations of the other nodes
are untouched, and it runs on until it is told to shut down, when exactly its registration is
removed and it returns without an error.
\<close>

lemma registrar_keeps_alive:
  assumes "kv_laws (reg_kv D) contents" and "kv_healthy (reg_kv D)"
    and "0 \<le> sint (registrar_interval r)" and "sint (registrar_interval r) < 2 ^ 62"
    and "\<And>k. nows s (Suc k) \<le> nows s k + 2 * sint (registrar_interval r)"
  shows "\<exists>s1 s2.
    registrar_Run D r (s\<lparr>rg_cases := replicate n RTick\<rparr>) = Blocked s1 \<and>
    contents (store s1) = (contents (store s))
      (ID (Node r) \<mapsto> registration r (nows s (reads s + 2 * n) + 2 * sint (registrar_interval r))) \<and>
    registrar_Run D r (s\<lparr>rg_cases := replicate n RTick @ [RShutdown]\<rparr>) = Returned None s2 \<and>
    contents (store s2) = (contents (store s))(ID (Node r) := None)"
proof -
  let ?i = "registrar_interval r"
  have run: "\<exists>s'. registrar_Run D r (s\<lparr>rg_cases := replicate n RTick @ cs\<rparr>) = registrar_loop D r cs s' \<and>
      contents (store s') = (contents (store s))
        (ID (Node r) \<mapsto> registration r (nows s (reads s + 2 * n) + 2 * sint ?i))" for cs
    using registrar_Run_registers [OF assms(1-4), of "s\<lparr>rg_cases := replicate n RTick @ cs\<rparr>"]
      registrar_ticks [OF assms(1-4), of "nows s" "contents (store s)" r "reads s" _ n cs] assms(5)
    by (fastforce simp: registered_until_def)
  obtain s0 where s0: "registrar_Run D r (s\<lparr>rg_cases := replicate n RTick @ [RShutdown]\<rparr>) =
        registrar_loop D r [RShutdown] s0"
      "contents (store s0) = (contents (store s))
        (ID (Node r) \<mapsto> registration r (nows s (reads s + 2 * n) + 2 * sint ?i))"
    using run by blast
  obtain e s2 where d: "deleteRegistration D r (s0\<lparr>rg_cases := []\<rparr>) = (e, s2)" by fastforce
  have e: "e = None" by (rule deleteRegistration_healthy [OF assms(2) d])
  have "contents (store s2) = (contents (store s))(ID (Node r) := None)"
    using deleteRegistration_result(4) [OF assms(1) d] e s0(2) by simp
  moreover have "registrar_loop D r [RShutdown] s0 = Returned None (telemetry_event ''cluster.deregister.ok'' s2)"
    using d e by (simp add: deregister_def)
  ultimately show ?thesis using run [of "[]"] s0(1) by (fastforce simp: registered_until_def)
qed

lemma registrar_keeps_alive_witness:
  "\<exists>s1. registrar_Run rg_example_deps rg_example_registrar (rg_example_world (replicate 3 RTick)) = Blocked s1 \<and>
    map_of (store s1) 1 = Some (registration rg_example_registrar (100 + 20 * 10 ^ 9))"
proof -
  have i: "sint (registrar_interval rg_example_registrar) = 10 * 10 ^ 9"
    by (simp add: registrar_interval_def rg_example_registrar_def DefaultRenewInterval_def)
  let ?s = "rg_example_world [] :: (example_store, string) registrar_world"
  have "\<exists>s1 s2. registrar_Run rg_example_deps rg_example_registrar (?s\<lparr>rg_cases := replicate 3 RTick\<rparr>) = Blocked s1 \<and>
    map_of (store s1) = (map_of (store ?s))(ID (Node rg_example_registrar) \<mapsto>
      registration rg_example_registrar (nows ?s (reads ?s + 2 * 3) + 2 * sint (registrar_interval rg_example_registrar))) \<and>
    registrar_Run rg_example_deps rg_example_registrar (?s\<lparr>rg_cases := replicate 3 RTick @ [RShutdown]\<rparr>) = Returned None s2 \<and>
    map_of (store s2) = (map_of (store ?s))(ID (Node rg_example_registrar) := None)"
    by (rule registrar_keeps_alive [OF rg_example_deps_ok(1,2)]) (simp_all add: i rg_example_world_def)
  then show ?thesis
    unfolding i by (auto simp: rg_example_world_def rg_example_registrar_def)
qed

text \<open>
C19: The bounds of the registration period. The interval of a registrar is always positive. Below
\<open>2 ^ 62\<close> nanoseconds its node is registered for exactly two intervals; from there on twice the
interval wraps around to a negative duration, so that the registration has expired before it is
written, and the first tick removes it and ends the run with an error.
\<close>

theorem registration_period_bounds:
  assumes "kv_laws (reg_kv D) contents" and "kv_healthy (reg_kv D)" and "\<And>k. nows s k \<le> nows s (Suc k)"
  shows "let i = sint (registrar_interval r); now = nows s (reads s) in
    0 < i \<and> (\<exists>s1. registrar_Run D r (s\<lparr>rg_cases := []\<rparr>) = Blocked s1 \<and>
      (if i < 2 ^ 62 then contents (store s1) (ID (Node r)) = Some (registration r (now + 2 * i))
       else contents (store s1) (ID (Node r)) = Some (registration r (now + 2 * i - 2 ^ 64)) \<and>
         now + 2 * i - 2 ^ 64 < now \<and>
         (\<exists>s2. registrar_Run D r (s\<lparr>rg_cases := RTick # cs\<rparr>) =
             Returned (Some (errors_New D ''cannot renew expired cluster node registration'')) s2 \<and>
           contents (store s2) (ID (Node r)) = None)))"
proof -
  define i now where "i = sint (registrar_interval r)" and "now = nows s (reads s)"
  obtain s0 where s0: "registrar_Run D r (s\<lparr>rg_cases := []\<rparr>) = Blocked (s0\<lparr>rg_cases := []\<rparr>)"
    and reg: "registered_until contents (contents (store s)) r (nows s) (registrar_interval r) (Suc (reads s))
      (now + sint (registrar_interval r * 2)) s0"
    using registrar_Run_saves [OF assms(1,2), of r "s\<lparr>rg_cases := []\<rparr>"] by (auto simp: now_def)
  have c: "contents (store (s0\<lparr>rg_cases := []\<rparr>)) (ID (Node r)) = Some (registration r (now + sint (registrar_interval r * 2)))"
    using reg by (simp add: registered_until_def)
  show ?thesis
  proof (cases "i < 2 ^ 62")
    case True
    then have "sint (registrar_interval r * 2) = 2 * i"
      unfolding i_def using registrar_interval_pos [of r] by (intro sint_double) simp_all
    with True s0 c registrar_interval_pos [of r] show ?thesis by (auto simp: i_def now_def)
  next
    case False
    then have w: "sint (registrar_interval r * 2) = 2 * i - 2 ^ 64" "2 * i - 2 ^ 64 < 0"
      unfolding i_def using sint_double_wraps [of "registrar_interval r"] by simp_all
    obtain s1 where run: "registrar_Run D r (s\<lparr>rg_cases := RTick # cs\<rparr>) = registrar_loop D r (RTick # cs) s1"
      and reg1: "registered_until contents (contents (store s)) r (nows s) (registrar_interval r) (Suc (reads s))
        (now + sint (registrar_interval r * 2)) s1"
      using registrar_Run_saves [OF assms(1,2), of r "s\<lparr>rg_cases := RTick # cs\<rparr>"] by (auto simp: now_def)
    have "contents (store s1) (ID (Node r)) = Some (registration r (now + sint (registrar_interval r * 2)))"
      "now + sint (registrar_interval r * 2) < nows s1 (reads s1)"
      using reg1 w assms(3) [of "reads s"] by (simp_all add: registered_until_def now_def)
    from registrar_tick_expired [OF assms(1,2) this, of cs] obtain s2 where
      s2: "registrar_Run D r (s\<lparr>rg_cases := RTick # cs\<rparr>) =
          Returned (Some (errors_New D ''cannot renew expired cluster node registration'')) s2"
        "contents (store s2) (ID (Node r)) = None"
      unfolding run by auto
    have "0 < i" unfolding i_def by (rule registrar_interval_pos)
    with False s0 c w s2 show ?thesis by (simp add: add_diff_eq Let_def i_def [symmetric] now_def [symmetric])
  qed
qed

theorem registration_period_bounds_witness:
  "\<exists>s2. registrar_Run rg_example_deps (rg_example_registrar\<lparr>RenewInterval := 2 ^ 62\<rparr>) (rg_example_world [RTick]) =
      Returned (Some ''cannot renew expired cluster node registration'') s2 \<and> map_of (store s2) 1 = None"
proof -
  let ?r = "rg_example_registrar\<lparr>RenewInterval := 2 ^ 62\<rparr>"
  have i: "sint (registrar_interval ?r) = 2 ^ 62" by (simp add: registrar_interval_def)
  show ?thesis
    using registration_period_bounds [OF rg_example_deps_ok(1,2), where s = "rg_example_world [RTick]" and r = ?r and cs = "[]"]
    unfolding i by (auto simp: rg_example_world_def rg_example_registrar_def rg_example_deps_def)
qed

text \<open>
C20: \<open>renew\<close> never revives a registration: if there is none it fails and writes nothing; if it
has expired \<open>renew\<close> fails and the registration stays or is removed; it succeeds only on a
registration that has not expired at the time read first, and then replaces exactly that one
by one that expires twice the interval after the time read next. It never panics.
\<close>

theorem renew_never_revives:
  assumes "kv_laws (reg_kv D) contents" and "renew D r s = (res, s')"
  shows "case contents (store s) (ID (Node r)) of
      None \<Rightarrow> (\<exists>x. res = Err x) \<and> contents (store s') = contents (store s)
    | Some reg \<Rightarrow>
        (case res of
           Ok u \<Rightarrow> nows s (reads s) \<le> AsTime (ExpiresAt reg) \<and>
             contents (store s') = (contents (store s))
               (ID (Node r) \<mapsto> registration r (nows s (reads s + 1) + sint (interval s * 2)))
         | Err x \<Rightarrow> AsTime (ExpiresAt reg) < nows s (reads s) \<longrightarrow>
             contents (store s') = contents (store s) \<or>
             contents (store s') = (contents (store s))(ID (Node r) := None)
         | Panic t \<Rightarrow> False)"
proof -
  obtain got st where g: "kv_Get (reg_kv D) (store s) (ID (Node r)) = (got, st)" by fastforce
  note get = kv_Get_law [OF assms(1) g]
  let ?s = "s\<lparr>store := st, reads := Suc (reads s)\<rparr>"
  obtain t e s1 where sv: "saveRegistration D r ?s = ((t, e), s1)" by (metis surj_pair)
  obtain e' s2 where d: "deleteRegistration D r (telemetry_event ''cluster.renew.error'' ?s) = (e', s2)" by fastforce
  show ?thesis
  proof (cases got)
    case (Ok v)
    show ?thesis
    proof (cases v)
      case None
      with assms(2) g Ok get show ?thesis by (auto simp: renew_def)
    next
      case (Some reg)
      with get Ok have reg: "contents (store s) (ID (Node r)) = Some reg" by simp
      show ?thesis
      proof (cases "AsTime (ExpiresAt reg) < nows s (reads s)")
        case True
        then have "(\<exists>x. res = Err x) \<and> s' = s2"
          using assms(2) g Ok Some d by (cases e') (auto simp: renew_def Now_def renew_expired_def)
        with reg deleteRegistration_result(4) [OF assms(1) d] get(1) show ?thesis by auto
      next
        case False
        with saveRegistration_result [OF assms(1) sv] assms(2) g Ok Some sv reg get(1) show ?thesis
          by (cases e) (auto simp: renew_def Now_def)
      qed
    qed
  next
    case (Err x)
    with assms(2) g get(1) show ?thesis by (auto simp: renew_def split: option.splits)
  next
    case (Panic t)
    with get(3) [of t] show ?thesis by simp
  qed
qed

theorem renew_never_revives_witness:
  "\<exists>x s'. renew rg_example_deps rg_example_registrar (rg_example_world []) = (Err x, s') \<and> store s' = []"
proof -
  obtain res s' where r: "renew rg_example_deps rg_example_registrar (rg_example_world []) = (res, s')"
    by fastforce
  from renew_never_revives [OF rg_example_deps_ok(1) r] r show ?thesis
    by (auto simp: rg_example_world_def)
qed

text \<open>
C21: A run of the observer of a well-formed registry ends or waits and never panics, and however
the registry changes between its polls, its map always holds exactly the nodes that a
subscriber obtains from the events that were received: each event says something, announces
only nodes that the subscriber does not have, each once, and removes only nodes that it has.
\<close>

theorem observer_view:
  assumes "kv_laws (reg_kv D) contents" and "proto_map_laws D" and "registry_ok (contents (store s))"
    and "\<forall>st. ObTick st \<in> set (ob_cases s) \<longrightarrow> registry_ok (contents st)"
    and "pm_TryGet D (nodes s) = Map.empty" and "published s = []"
  shows "\<exists>r. observer_Run D s = Some r \<and>
    (case r of
       Returned e s' \<Rightarrow> members D (nodes s') = view (published s') \<and> changes_ok {} (published s')
     | Panicked t s' \<Rightarrow> False
     | Blocked s' \<Rightarrow> members D (nodes s') = view (published s') \<and> changes_ok {} (published s'))"
proof -
  obtain e st where o: "kv_Open (reg_kv D) (store s) registryKeyspace = (e, st)" by fastforce
  have ok: "ob_ok D contents (s\<lparr>store := st\<rparr>)"
    using assms kv_Open_law [OF assms(1) o] by (auto simp: ob_ok_def nodes_ok_def members_def view_def)
  show ?thesis
  proof (cases e)
    case None
    obtain r where r: "Start (observer_machine D) ob_ctx_err ObPoll None (s\<lparr>store := st\<rparr>) = Some r"
      using ob_fsm.Start_returns by blast
    have "ob_inv D contents ObPoll (s\<lparr>store := st\<rparr>)" using ok by (simp add: ob_inv_def)
    from ob_fsm.Start_ok [OF this r] show ?thesis
      using o None r by (auto simp: observer_Run_def ob_fsm.run_ok_def ob_ok_def split: run_result.splits)
  next
    case (Some x)
    with o ok show ?thesis by (simp add: observer_Run_def ob_ok_def)
  qed
qed

theorem observer_view_witness:
  "\<exists>r. observer_Run rg_example_deps (ob_example_world DAList.empty [ObSent, ObTick [], ObSent, ObShutdown]) = Some r \<and>
    (case r of Returned e s' \<Rightarrow> members rg_example_deps (nodes s') = view (published s')
     | Panicked t s' \<Rightarrow> False | Blocked s' \<Rightarrow> members rg_example_deps (nodes s') = view (published s'))"
proof -
  let ?s = "ob_example_world DAList.empty [ObSent, ObTick [], ObSent, ObShutdown]"
  have "ob_ok rg_example_deps map_of ?s" by (rule ob_example_ok) simp
  then have "registry_ok (map_of (store ?s))" "\<forall>st. ObTick st \<in> set (ob_cases ?s) \<longrightarrow> registry_ok (map_of st)"
    by (simp_all add: ob_ok_def)
  moreover have "pm_TryGet rg_example_deps (nodes ?s) = Map.empty"
    by (simp add: rg_example_deps_def ob_example_world_def alist_map_def fun_eq_iff)
  moreover have "published ?s = []" by (simp add: ob_example_world_def)
  ultimately obtain r where "observer_Run rg_example_deps ?s = Some r"
    "case r of Returned e s' \<Rightarrow> members rg_example_deps (nodes s') = view (published s') \<and> changes_ok {} (published s')
     | Panicked t s' \<Rightarrow> False
     | Blocked s' \<Rightarrow> members rg_example_deps (nodes s') = view (published s') \<and> changes_ok {} (published s')"
    using observer_view [OF rg_example_deps_ok(1,3), of ?s] by blast
  then show ?thesis by (cases r) auto
qed

text \<open>
C22: After a poll of a store that works, and the publication of what it found if there is
anything, the subscribers' view is the set of the nodes whose registration has not expired
(up to those that expire while the poll reads the clock), and the expired registrations are
gone from the store.
\<close>

theorem observer_converges:
  assumes "ob_ok D contents s" and "kv_healthy (reg_kv D)" and "clock_between t1 t2 s"
    and "ob_cases s = ObSent # cs"
  shows "\<exists>s'. polled D s s' \<and>
    unexpired (contents (store s)) t2 \<subseteq> view (published s') \<and> view (published s') \<subseteq> unexpired (contents (store s)) t1 \<and>
    (\<forall>k reg. contents (store s) k = Some reg \<longrightarrow> AsTime (ExpiresAt reg) \<le> t1 \<longrightarrow> contents (store s') k = None)"
  by (rule poll_converges [OF assms])

theorem observer_converges_witness:
  "\<exists>s'. view (published s') = {1} \<and> map_of (store s') 2 = None \<and>
    polled rg_example_deps (ob_example_world DAList.empty [ObSent]) s'"
proof -
  let ?s = "ob_example_world DAList.empty [ObSent]"
  have ok: "ob_ok rg_example_deps map_of ?s" by (rule ob_example_ok) simp
  have clock: "clock_between 100 100 ?s" by (simp add: clock_between_def ob_example_world_def)
  have cases: "ob_cases ?s = [ObSent]" by (simp add: ob_example_world_def)
  have un: "unexpired (map_of (store ?s)) 100 = {1}"
    by (auto simp: unexpired_def ob_example_world_def rg_example_reg_def AsTime_def)
  have gone: "map_of (store ?s) 2 = Some (rg_example_reg 2 50)" "AsTime (ExpiresAt (rg_example_reg 2 50)) \<le> 100"
    by (simp_all add: ob_example_world_def rg_example_reg_def AsTime_def)
  from observer_converges [OF ok rg_example_deps_ok(2) clock cases] un gone show ?thesis by auto
qed

text \<open>
A poll that finds the same identifiers as before reports nothing and keeps the map as it is,
whatever the addresses of the nodes have become: a subscriber never learns of a new address.
\<close>

lemma pollState_ignores_addresses:
  assumes "proto_map_laws D" and "loadNodes D s = (Ok ns, s')" and "members D ns = members D (nodes s')"
  shows "pollState D s = Done (EnterState ObIdle) s'"
proof -
  have "\<forall>(k, n) \<in> set (pm_All D ns). pm_Has D (nodes s') k" "\<forall>(k, n) \<in> set (pm_All D (nodes s')). pm_Has D ns k"
    using assms(3) proto_map_All [OF assms(1)] proto_map_simps(4) [OF assms(1)] by (auto simp: members_def)
  then have "Registered (membership_change D (nodes s') ns) = []" "Deregistered (membership_change D (nodes s') ns) = []"
    unfolding membership_change_def by (auto simp: filter_empty_conv)
  with pollState_loaded [OF assms(2)] show ?thesis by simp
qed

definition ob_example_known :: "(nat, nat Node) alist" where
  "ob_example_known = DAList.update 1 \<lparr>ID = 1, Node_Addresses = [''old:1'']\<rparr> DAList.empty"

lemma ob_example_load:
  "\<exists>ns s'. loadNodes rg_example_deps (ob_example_world ob_example_known []) = (Ok ns, s') \<and>
    nodes s' = ob_example_known \<and> pm_TryGet rg_example_deps ns = [1 \<mapsto> \<lparr>ID = 1, Node_Addresses = [''b:2'']\<rparr>]"
  by (simp add: loadNodes_def ob_example_world_def rg_example_deps_def mem_kv_def load_pair_def Now_def
      rg_example_reg_def AsTime_def alist_map_def Let_def) (simp add: fun_eq_iff lookup_update)

lemma pollState_ignores_addresses_witness:
  "\<exists>s'. pollState rg_example_deps (ob_example_world ob_example_known []) = Done (EnterState ObIdle) s' \<and>
    map_option Node_Addresses (pm_TryGet rg_example_deps (nodes s') 1) = Some [''old:1'']"
proof -
  obtain ns s' where l: "loadNodes rg_example_deps (ob_example_world ob_example_known []) = (Ok ns, s')"
    "nodes s' = ob_example_known" "pm_TryGet rg_example_deps ns = [1 \<mapsto> \<lparr>ID = 1, Node_Addresses = [''b:2'']\<rparr>]"
    using ob_example_load by blast
  have k: "pm_TryGet rg_example_deps ob_example_known = [1 \<mapsto> \<lparr>ID = 1, Node_Addresses = [''old:1'']\<rparr>]"
    by (auto simp: rg_example_deps_def alist_map_def ob_example_known_def fun_eq_iff lookup_update)
  have "members rg_example_deps ns = members rg_example_deps (nodes s')"
    by (simp add: members_def l k)
  from pollState_ignores_addresses [OF rg_example_deps_ok(3) l(1) this] k l(2) show ?thesis by auto
qed

text \<open>
The registrar and an observer race. The observer has read the registration just before
the registrar renews it (at a time when it has not expired, as the registrar sees it), and
looks at its clock when the old expiry has been reached: it removes the renewed registration,
although that has not expired, and at its next tick the registrar fails and stops.
\<close>

lemma stale_delete_unregisters:
  assumes laws: "kv_laws (reg_kv D) contents" and healthy: "kv_healthy (reg_kv D)"
    and reg: "contents (store s) (ID (Node r)) = Some reg"
    and renewed: "nows s (reads s) \<le> AsTime (ExpiresAt reg)"
    and i: "0 \<le> sint (interval s)" "sint (interval s) < 2 ^ 62"
    and seen: "AsTime (ExpiresAt reg) \<le> nows ob (reads ob)"
  shows "\<exists>s1 ob1 s2.
    renew D r s = (Ok (), s1) \<and>
    contents (store s1) (ID (Node r)) = Some (registration r (nows s (reads s + 1) + 2 * sint (interval s))) \<and>
    load_pair D (ID (Node r)) reg ns (ob\<lparr>store := store s1\<rparr>) = (Ok ns, ob1) \<and>
    contents (store ob1) (ID (Node r)) = None \<and>
    renew D r (s1\<lparr>store := store ob1\<rparr>) = (Err (errors_New D ''cannot renew unregistered cluster node''), s2)"
proof -
  obtain s1 where s1: "renew D r s = (Ok (), s1)" "contents (store s1) = (contents (store s))
      (ID (Node r) \<mapsto> registration r (nows s (reads s + 1) + 2 * sint (interval s)))"
    using renew_ok [OF laws healthy reg renewed i] by blast
  obtain e st where k: "kv_Set (reg_kv D) (store s1) (ID (Node r)) None = (e, st)" by fastforce
  have e: "e = None" by (rule kv_healthyD(3) [OF healthy k])
  let ?ob1 = "ob\<lparr>reads := Suc (reads ob), store := st\<rparr>"
  have "load_pair D (ID (Node r)) reg ns (ob\<lparr>store := store s1\<rparr>) = (Ok ns, ?ob1)"
    using seen k e by (simp add: load_pair_def Now_def)
  moreover have gone: "contents (store ?ob1) (ID (Node r)) = None"
    using kv_Set_law [OF laws k] e by auto
  moreover obtain res st' where g: "kv_Get (reg_kv D) st (ID (Node r)) = (res, st')" by fastforce
  have "res = Ok None"
    using kv_Get_law(2,3) [OF laws g] kv_healthyD(2) [OF healthy g] gone by (cases res) auto
  with g have "\<exists>s2. renew D r (s1\<lparr>store := store ?ob1\<rparr>) =
      (Err (errors_New D ''cannot renew unregistered cluster node''), s2)"
    by (simp add: renew_def)
  ultimately show ?thesis using s1 by auto
qed

lemma stale_delete_unregisters_witness:
  "\<exists>s1 st s2. renew rg_example_deps rg_example_registrar (rg_example_world []\<lparr>store := [(1, rg_example_reg 1 100)]\<rparr>) = (Ok (), s1) \<and>
    renew rg_example_deps rg_example_registrar (s1\<lparr>store := st\<rparr>) =
      (Err ''cannot renew unregistered cluster node'', s2)"
proof -
  let ?s = "rg_example_world []\<lparr>store := [(1, rg_example_reg 1 100)]\<rparr>"
  let ?ob = "ob_example_world DAList.empty []"
  have "map_of (store ?s) (ID (Node rg_example_registrar)) = Some (rg_example_reg 1 100)"
    "nows ?s (reads ?s) \<le> AsTime (ExpiresAt (rg_example_reg 1 100))"
    "0 \<le> sint (interval ?s)" "sint (interval ?s) < 2 ^ 62"
    "AsTime (ExpiresAt (rg_example_reg 1 100)) \<le> nows ?ob (reads ?ob)"
    by (simp_all add: rg_example_world_def rg_example_registrar_def rg_example_reg_def AsTime_def ob_example_world_def)
  note stale = stale_delete_unregisters [OF rg_example_deps_ok(1,2) this, of DAList.empty]
  have "errors_New rg_example_deps = id" by (simp add: rg_example_deps_def)
  with stale show ?thesis by (metis id_apply)
qed

end
