(* ===== verification/Cluster_System.thy ===== *)
theory Cluster_System
  imports Registry
begin

text \<open>
  The registrar of a node and the observers of the other nodes over one store
  (\<open>internal/cluster/registry.go\<close> as a whole), in any order. An observer looks at a registration
  that it has read at some earlier time, in the order in which \<open>Range\<close> gives them; between its
  looks the registrar renews, and the other nodes change what is theirs. A renewal is one step:
  what others do falls between two of them, not between its \<open>Get\<close> and its \<open>Set\<close>.
\<close>

section \<open>Runs of a cluster\<close>

datatype ('st, 'u) cluster_event = Tick | Look 'u "'u Registration" "'st store_world" | Others "'st \<Rightarrow> 'st"

text \<open>What \<open>renew\<close> returns ends the run of the registrar if it is an error; the looks do not.\<close>

fun cluster_run ::
  "('st, 'm, 'u, 'x) registry_deps \<Rightarrow> 'u registrar \<Rightarrow> ('st, 'u) cluster_event list \<Rightarrow>
   ('st, 'x) registrar_world \<Rightarrow> ('x, unit) outcome \<times> ('st, 'x) registrar_world" where
  "cluster_run D r [] s = (Ok (), s)"
| "cluster_run D r (Tick # es) s =
     (case renew D r s of
        (Ok _, s') \<Rightarrow> cluster_run D r es s'
      | (Err x, s') \<Rightarrow> (Err x, s')
      | (Panic t, s') \<Rightarrow> (Panic t, s'))"
| "cluster_run D r (Look k reg ob # es) s =
     (case load_pair D k reg (pm_zero D) (ob\<lparr>store := store s\<rparr>) of
        (_, ob') \<Rightarrow> cluster_run D r es (s\<lparr>store := store ob'\<rparr>))"
| "cluster_run D r (Others f # es) s = cluster_run D r es (s\<lparr>store := f (store s)\<rparr>)"

definition ticks :: "('st, 'u) cluster_event list \<Rightarrow> nat" where
  "ticks es = length (filter (\<lambda>e. case e of Tick \<Rightarrow> True | _ \<Rightarrow> False) es)"

text \<open>
  The observers look in time: the registration of the node has not expired, by the clock of the
  observer, when it is looked at. Other nodes write only their own registrations.
\<close>

fun in_time :: "('st \<Rightarrow> 'u \<Rightarrow> 'u Registration option) \<Rightarrow> 'u \<Rightarrow> ('st, 'u) cluster_event \<Rightarrow> bool" where
  "in_time contents i Tick \<longleftrightarrow> True"
| "in_time contents i (Look k reg ob) \<longleftrightarrow> (k = i \<longrightarrow> nows ob (reads ob) < AsTime (ExpiresAt reg))"
| "in_time contents i (Others f) \<longleftrightarrow> (\<forall>st. contents (f st) i = contents st i)"

lemma look_keeps:
  assumes laws: "kv_laws (reg_kv D) contents" and lp: "load_pair D k reg ns s = (res, s')"
    and t: "k = i \<Longrightarrow> nows s (reads s) < AsTime (ExpiresAt reg)"
  shows "contents (store s') i = contents (store s) i"
proof (cases "nows s (reads s) < AsTime (ExpiresAt reg)")
  case True
  with lp show ?thesis by (auto simp: load_pair_def Now_def split: option.splits)
next
  case False
  obtain e st where kv: "kv_Set (reg_kv D) (store s) k None = (e, st)" by fastforce
  with lp False have "store s' = st" by (cases e) (auto simp: load_pair_def Now_def)
  moreover have "k \<noteq> i" using t False by blast
  ultimately show ?thesis using kv_Set_law [OF laws kv] by auto
qed

text \<open>The node is registered until \<open>t\<close>, whatever else the store holds.\<close>

definition node_until ::
  "('st \<Rightarrow> 'u \<Rightarrow> 'u Registration option) \<Rightarrow> 'u registrar \<Rightarrow> (nat \<Rightarrow> int) \<Rightarrow> u64 \<Rightarrow> nat \<Rightarrow> ('st, 'x) registrar_world \<Rightarrow> bool" where
  "node_until contents r ts i n s \<longleftrightarrow> nows s = ts \<and> reads s = Suc n \<and> interval s = i \<and>
     contents (store s) (ID (Node r)) = Some (registration r (ts n + 2 * sint i))"

lemma cluster_run_keeps:
  assumes laws: "kv_laws (reg_kv D) contents" and healthy: "kv_healthy (reg_kv D)"
    and i: "0 \<le> sint i" "sint i < 2 ^ 62" and clock: "\<And>k. ts (Suc k) \<le> ts k + 2 * sint i"
    and "node_until contents r ts i n s" and "list_all (in_time contents (ID (Node r))) es"
  shows "\<exists>s'. cluster_run D r es s = (Ok (), s') \<and> node_until contents r ts i (n + 2 * ticks es) s'"
  using assms(6,7)
proof (induction es arbitrary: n s)
  case Nil
  then show ?case by (simp add: ticks_def)
next
  case (Cons e es)
  have rest: "list_all (in_time contents (ID (Node r))) es" using Cons.prems(2) by simp
  have at: "nows s = ts" "reads s = Suc n" "interval s = i"
    "contents (store s) (ID (Node r)) = Some (registration r (ts n + 2 * sint i))"
    using Cons.prems(1) by (simp_all add: node_until_def)
  show ?case
  proof (cases e)
    case Tick
    have "nows s (reads s) \<le> AsTime (ExpiresAt (registration r (ts n + 2 * sint i)))"
      "0 \<le> sint (interval s)" "sint (interval s) < 2 ^ 62"
      using at i clock [of n] by (simp_all add: registration_def AsTime_def)
    from renew_ok [OF laws healthy at(4) this] obtain s1 where r: "renew D r s = (Ok (), s1)"
      and s1: "nows s1 = nows s" "reads s1 = reads s + 2" "interval s1 = interval s"
        "contents (store s1) = (contents (store s))
           (ID (Node r) \<mapsto> registration r (nows s (reads s + 1) + 2 * sint (interval s)))" by blast
    have "node_until contents r ts i (n + 2) s1" unfolding node_until_def s1 by (simp add: at)
    from Cons.IH [OF this rest] r Tick show ?thesis by (auto simp: ticks_def)
  next
    case (Look k reg ob)
    obtain res ob' where lp: "load_pair D k reg (pm_zero D) (ob\<lparr>store := store s\<rparr>) = (res, ob')" by fastforce
    have "contents (store ob') (ID (Node r)) = contents (store s) (ID (Node r))"
      using look_keeps [OF laws lp, of "ID (Node r)"] Cons.prems(2) Look by simp
    then have "node_until contents r ts i n (s\<lparr>store := store ob'\<rparr>)" using at by (simp add: node_until_def)
    from Cons.IH [OF this rest] lp Look show ?thesis by (simp add: ticks_def)
  next
    case (Others f)
    then have "node_until contents r ts i n (s\<lparr>store := f (store s)\<rparr>)"
      using at Cons.prems(2) by (simp add: node_until_def)
    from Cons.IH [OF this rest] Others show ?thesis by (simp add: ticks_def)
  qed
qed

lemma registered_node_until:
  "registered_until contents others r ts i (Suc n) (ts n + 2 * sint i) s \<Longrightarrow> node_until contents r ts i n s"
  by (simp add: registered_until_def node_until_def)

section \<open>Properties\<close>

text \<open>
C18: A cluster does not lose its live nodes. From where \<open>Run\<close> of a registrar has registered its
node, whatever the order of its ticks, the looks of the observers at registrations that they
have read, and the writes of the other nodes: as long as the registrar reads its clock in time
and no observer looks at a registration of the node after that registration's own expiry, every
tick succeeds, and the node is registered until two intervals after the last one.
\<close>

theorem cluster_keeps_node:
  assumes "kv_laws (reg_kv D) contents" and "kv_healthy (reg_kv D)"
    and "sint (registrar_interval r) < 2 ^ 62"
    and "\<And>k. nows s (Suc k) \<le> nows s k + 2 * sint (registrar_interval r)"
    and "list_all (in_time contents (ID (Node r))) es"
  shows "\<exists>s0 s1. registrar_Run D r s = registrar_loop D r (rg_cases s) s0 \<and>
    cluster_run D r es s0 = (Ok (), s1) \<and>
    contents (store s1) (ID (Node r)) =
      Some (registration r (nows s (reads s + 2 * ticks es) + 2 * sint (registrar_interval r)))"
proof -
  note i = less_imp_le [OF registrar_interval_pos [of r]] assms(3)
  obtain s0 where run: "registrar_Run D r s = registrar_loop D r (rg_cases s) s0"
    and "registered_until contents (contents (store s)) r (nows s) (registrar_interval r) (Suc (reads s))
      (nows s (reads s) + 2 * sint (registrar_interval r)) s0"
    using registrar_Run_registers [OF assms(1,2) i] by blast
  note node = registered_node_until [OF this(2)]
  obtain s1 where "cluster_run D r es s0 = (Ok (), s1)"
    "node_until contents r (nows s) (registrar_interval r) (reads s + 2 * ticks es) s1"
    using cluster_run_keeps [OF assms(1,2) i assms(4) node assms(5)] by blast
  with run show ?thesis by (auto simp: node_until_def)
qed

text \<open>A renewal, an observer that looks at the node and at one whose registration has expired, another renewal.\<close>

definition cluster_example :: "(example_store, nat) cluster_event list" where
  "cluster_example = [Tick, Look 1 (rg_example_reg 1 200) (store_world.truncate (ob_example_world DAList.empty [])),
     Look 2 (rg_example_reg 2 50) (store_world.truncate (ob_example_world DAList.empty [])), Tick]"

theorem cluster_keeps_node_witness:
  "\<exists>s0 s1. cluster_run rg_example_deps rg_example_registrar cluster_example s0 = (Ok (), s1) \<and>
    map_of (store s1) 1 = Some (registration rg_example_registrar (100 + 20 * 10 ^ 9))"
proof -
  have i: "sint (registrar_interval rg_example_registrar) = 10 * 10 ^ 9"
    by (simp add: registrar_interval_def rg_example_registrar_def DefaultRenewInterval_def)
  have "list_all (in_time map_of (ID (Node rg_example_registrar))) cluster_example"
    by (simp add: cluster_example_def rg_example_registrar_def rg_example_reg_def ob_example_world_def AsTime_def
        store_world.truncate_def)
  from cluster_keeps_node [OF rg_example_deps_ok(1,2) _ _ this, of "rg_example_world []"] show ?thesis
    unfolding i by (auto simp: rg_example_world_def rg_example_registrar_def cluster_example_def ticks_def)
qed

end
