(* ===== verification/Go_Strings.thy ===== *)
theory Go_Strings
  imports Prelude
begin

text \<open>
  \<open>strconv.QuoteToASCII\<close> of the standard library on a string of bytes: runes of well-formed
  UTF-8 are written as they are when they are printable ASCII and as escapes otherwise, and each
  byte that is not part of one as \<open>\x\<close> and two digits. Then \<open>strings.Split\<close> and
  \<open>net.SplitHostPort\<close>.
\<close>

section \<open>Quoting\<close>

definition hexdigit :: "nat \<Rightarrow> char" where
  "hexdigit d = (if d < 10 then char_of (48 + d) else char_of (87 + d))"

primrec hexn :: "nat \<Rightarrow> nat \<Rightarrow> string" where
  "hexn 0 r = []"
| "hexn (Suc n) r = hexn n (r div 16) @ [hexdigit (r mod 16)]"

definition continuation :: "nat \<Rightarrow> bool" where
  "continuation b \<longleftrightarrow> 128 \<le> b \<and> b \<le> 191"

text \<open>The rune at the front of a string that starts with a byte above ASCII, and its width.\<close>

fun decode_rune :: "nat list \<Rightarrow> (nat \<times> nat) option" where
  "decode_rune (b0 # b1 # bs) =
     (if 194 \<le> b0 \<and> b0 \<le> 223 then
        if continuation b1 then Some ((b0 - 192) * 64 + (b1 - 128), 2) else None
      else if 224 \<le> b0 \<and> b0 \<le> 239 then
        (case bs of
           b2 # _ \<Rightarrow>
             if continuation b1 \<and> continuation b2 \<and> (b0 = 224 \<longrightarrow> 160 \<le> b1) \<and> (b0 = 237 \<longrightarrow> b1 \<le> 159)
             then Some ((b0 - 224) * 4096 + (b1 - 128) * 64 + (b2 - 128), 3) else None
         | [] \<Rightarrow> None)
      else if 240 \<le> b0 \<and> b0 \<le> 244 then
        (case bs of
           b2 # b3 # _ \<Rightarrow>
             if continuation b1 \<and> continuation b2 \<and> continuation b3 \<and>
               (b0 = 240 \<longrightarrow> 144 \<le> b1) \<and> (b0 = 244 \<longrightarrow> b1 \<le> 143)
             then Some ((b0 - 240) * 262144 + (b1 - 128) * 4096 + (b2 - 128) * 64 + (b3 - 128), 4) else None
         | _ \<Rightarrow> None)
      else None)"
| "decode_rune _ = None"

definition backslash :: char where
  "backslash = char_of (92::nat)"

definition escape_rune :: "nat \<Rightarrow> string" where
  "escape_rune r =
     (if r = 34 \<or> r = 92 then [backslash, char_of r]
      else if 32 \<le> r \<and> r < 127 then [char_of r]
      else if r = 7 then [backslash, CHR ''a''] else if r = 8 then [backslash, CHR ''b'']
      else if r = 12 then [backslash, CHR ''f''] else if r = 10 then [backslash, CHR ''n'']
      else if r = 13 then [backslash, CHR ''r''] else if r = 9 then [backslash, CHR ''t'']
      else if r = 11 then [backslash, CHR ''v'']
      else if r < 32 \<or> r = 127 then [backslash, CHR ''x''] @ hexn 2 r
      else if r < 65536 then [backslash, CHR ''u''] @ hexn 4 r
      else [backslash, CHR ''U''] @ hexn 8 r)"

lemma decode_rune_width: "decode_rune bs = Some (r, w) \<Longrightarrow> 128 \<le> r \<and> 2 \<le> w \<and> w \<le> 4 \<and> (65536 \<le> r \<longleftrightarrow> w = 4)"
  by (induction bs rule: decode_rune.induct) (auto simp: continuation_def split: if_splits list.splits)

function quote_bytes :: "nat list \<Rightarrow> string" where
  "quote_bytes [] = []"
| "quote_bytes (b # bs) =
     (if b < 128 then escape_rune b @ quote_bytes bs
      else case decode_rune (b # bs) of
             None \<Rightarrow> [backslash, CHR ''x''] @ hexn 2 b @ quote_bytes bs
           | Some (r, w) \<Rightarrow> escape_rune r @ quote_bytes (drop w (b # bs)))"
  by pat_completeness auto

termination quote_bytes
  by (relation "measure length") (auto dest!: decode_rune_width)

definition QuoteToASCII :: "string \<Rightarrow> string" where
  "QuoteToASCII s = [CHR 0x22] @ quote_bytes (map of_char s) @ [CHR 0x22]"

text \<open>The result is printable, and longer than the string.\<close>

definition printable :: "char \<Rightarrow> bool" where
  "printable c \<longleftrightarrow> 32 \<le> (of_char c :: nat) \<and> (of_char c :: nat) < 127"

lemma hexn_printable: "c \<in> set (hexn n r) \<Longrightarrow> printable c"
proof (induction n arbitrary: r)
  case (Suc n)
  have "printable (hexdigit d)" if "d < 16" for d
    using that by (auto simp: printable_def hexdigit_def)
  with Suc show ?case by auto
qed simp

lemma length_hexn [simp]: "length (hexn n r) = n"
  by (induction n arbitrary: r) auto

lemma escape_rune_printable: "c \<in> set (escape_rune r) \<Longrightarrow> printable c"
  by (auto simp: escape_rune_def backslash_def printable_def dest: hexn_printable [unfolded printable_def] split: if_splits)

lemma escape_rune_length: "0 < length (escape_rune r)" "128 \<le> r \<Longrightarrow> 6 \<le> length (escape_rune r)"
  by (auto simp: escape_rune_def)

lemma quote_bytes_printable: "c \<in> set (quote_bytes bs) \<Longrightarrow> printable c"
proof (induction bs rule: quote_bytes.induct)
  case (2 b bs)
  have "printable backslash" "printable (CHR ''x'')" by (simp_all add: printable_def backslash_def)
  with 2 show ?case
    by (auto dest: escape_rune_printable hexn_printable split: if_splits option.splits)
qed simp

lemma quote_bytes_length: "length bs \<le> length (quote_bytes bs)"
proof (induction bs rule: quote_bytes.induct)
  case (2 b bs)
  show ?case
  proof (cases "b < 128")
    case True
    with 2 have "length bs \<le> length (quote_bytes bs)" by simp
    with True escape_rune_length(1) [of b] show ?thesis by (cases "escape_rune b") auto
  next
    case False
    show ?thesis
    proof (cases "decode_rune (b # bs)")
      case None
      with 2 False show ?thesis by simp
    next
      case (Some p)
      obtain r w where p: "p = (r, w)" by fastforce
      with Some decode_rune_width have "128 \<le> r" "w \<le> 4" by blast+
      with 2(3) [OF False Some [unfolded p] refl] escape_rune_length(2) [of r] False Some p
      show ?thesis by simp
    qed
  qed
qed simp

lemma QuoteToASCII_printable: "\<forall>c \<in> set (QuoteToASCII s). printable c"
  using quote_bytes_printable by (auto simp: QuoteToASCII_def printable_def)

lemma QuoteToASCII_longer: "length s < length (QuoteToASCII s)"
  using quote_bytes_length [of "map of_char s"] by (simp add: QuoteToASCII_def)

section \<open>Splitting\<close>

fun Split :: "char \<Rightarrow> string \<Rightarrow> string list" where
  "Split sep [] = [[]]"
| "Split sep (c # cs) =
     (if c = sep then [] # Split sep cs
      else case Split sep cs of w # ws \<Rightarrow> (c # w) # ws | [] \<Rightarrow> [[c]])"

fun index_of :: "char \<Rightarrow> string \<Rightarrow> nat option" where
  "index_of c [] = None"
| "index_of c (d # ds) = (if d = c then Some 0 else map_option Suc (index_of c ds))"

definition last_index_of :: "char \<Rightarrow> string \<Rightarrow> nat option" where
  "last_index_of c s = map_option (\<lambda>i. length s - 1 - i) (index_of c (rev s))"

datatype host_port_error = MissingPort | TooManyColons | MissingBracket | UnexpectedBracket

text \<open>The check for stray brackets, and the result.\<close>

definition host_port_result ::
  "string \<Rightarrow> nat \<Rightarrow> string \<Rightarrow> nat \<Rightarrow> nat \<Rightarrow> (host_port_error, string \<times> string) outcome" where
  "host_port_result s i host j k =
     (if CHR ''['' \<in> set (drop j s) \<or> CHR '']'' \<in> set (drop k s) then Err UnexpectedBracket
      else Ok (host, drop (i + 1) s))"

definition SplitHostPort :: "string \<Rightarrow> (host_port_error, string \<times> string) outcome" where
  "SplitHostPort s =
     (case last_index_of (CHR '':'') s of
        None \<Rightarrow> Err MissingPort
      | Some i \<Rightarrow>
          if hd s = CHR ''['' then
            (case index_of (CHR '']'') s of
               None \<Rightarrow> Err MissingBracket
             | Some e \<Rightarrow>
                 if e + 1 = length s then Err MissingPort
                 else if e + 1 = i then host_port_result s i (take (e - 1) (drop 1 s)) 1 (e + 1)
                 else if s ! (e + 1) = CHR '':'' then Err TooManyColons else Err MissingPort)
          else if CHR '':'' \<in> set (take i s) then Err TooManyColons
          else host_port_result s i (take i s) 0 0)"

lemma index_of_absent: "c \<notin> set s \<Longrightarrow> index_of c s = None"
  by (induction s) auto

lemma index_of_append: "c \<notin> set s \<Longrightarrow> index_of c (s @ c # t) = Some (length s)"
  by (induction s) auto

lemma last_index_of_append: "c \<notin> set t \<Longrightarrow> last_index_of c (s @ c # t) = Some (length s)"
  using index_of_append [of c "rev t" "rev s"] by (simp add: last_index_of_def)

lemma SplitHostPort_colon:
  assumes "CHR '':'' \<notin> set host" "CHR ''['' \<notin> set host" "CHR '']'' \<notin> set host"
    and "CHR '':'' \<notin> set port" "CHR ''['' \<notin> set port" "CHR '']'' \<notin> set port"
  shows "SplitHostPort (host @ CHR '':'' # port) = Ok (host, port)"
proof -
  have "hd (host @ CHR '':'' # port) \<noteq> CHR ''[''" using assms(2) by (cases host) auto
  then show ?thesis
    by (simp add: SplitHostPort_def host_port_result_def last_index_of_append assms)
qed

lemma SplitHostPort_no_colon: "CHR '':'' \<notin> set s \<Longrightarrow> SplitHostPort s = Err MissingPort"
  by (simp add: SplitHostPort_def last_index_of_def index_of_absent)

end
