(* ===== verification/Telemetry.thy ===== *)
theory Telemetry
  imports Go_Strings
begin

text \<open>
  \<open>internal/telemetry\<close>: attributes, and the recorder of traces, metrics and logs.

  OpenTelemetry is not part of this repository: its key/value pairs are the datatypes below, its
  providers, tracers, meters and loggers are parameters, and what is recorded with them is a
  state. A floating-point number is its 64 bits. The texts of times, durations and UUIDs
  are parameters.
\<close>

section \<open>Attributes\<close>

record Attr =
  atyp :: "8 word"
  key :: string
  str :: string
  anum :: u64

definition attrTypeNone :: "8 word" where "attrTypeNone = 0"
definition attrTypeBinary :: "8 word" where "attrTypeBinary = 1"
definition attrTypeString :: "8 word" where "attrTypeString = 2"
definition attrTypeBool :: "8 word" where "attrTypeBool = 3"
definition attrTypeInt64 :: "8 word" where "attrTypeInt64 = 4"
definition attrTypeFloat64 :: "8 word" where "attrTypeFloat64 = 5"

lemmas attrType_defs = attrTypeNone_def attrTypeBinary_def attrTypeString_def attrTypeBool_def
  attrTypeInt64_def attrTypeFloat64_def

definition attr_String :: "string \<Rightarrow> string \<Rightarrow> Attr" where
  "attr_String k v = \<lparr>atyp = attrTypeString, key = k, str = v, anum = 0\<rparr>"

definition attr_Stringer :: "('v \<Rightarrow> string) \<Rightarrow> string \<Rightarrow> 'v \<Rightarrow> Attr" where
  "attr_Stringer v_String k v = attr_String k (v_String v)"

definition attr_Binary :: "string \<Rightarrow> string \<Rightarrow> Attr" where
  "attr_Binary k v =
     (let (k', v') = (if 64 < length v then (k @ ''_truncated'', take 64 v) else (k, v))
      in \<lparr>atyp = attrTypeBinary, key = k', str = QuoteToASCII v', anum = 0\<rparr>)"

definition attr_UUID :: "('u \<Rightarrow> string) \<Rightarrow> string \<Rightarrow> 'u \<Rightarrow> Attr" where
  "attr_UUID AsString k v = attr_String k (AsString v)"

text \<open>The dynamic type of a value, \<open>None\<close> for that of a nil interface.\<close>

datatype go_type = GoType string | Pointer go_type

fun deref :: "go_type \<Rightarrow> string" where
  "deref (GoType n) = n"
| "deref (Pointer t) = deref t"

definition attr_Type :: "string \<Rightarrow> go_type option \<Rightarrow> ('x, Attr) outcome" where
  "attr_Type k t =
     (case t of
        None \<Rightarrow> Panic ''invalid memory address or nil pointer dereference''
      | Some t \<Rightarrow> Ok (attr_String k (deref t)))"

definition attr_Bool :: "string \<Rightarrow> bool \<Rightarrow> Attr" where
  "attr_Bool k v = \<lparr>atyp = attrTypeBool, key = k, str = [], anum = (if v then 1 else 0)\<rparr>"

definition attr_Int :: "string \<Rightarrow> int \<Rightarrow> Attr" where
  "attr_Int k v = \<lparr>atyp = attrTypeInt64, key = k, str = [], anum = word_of_int v\<rparr>"

definition attr_Float :: "string \<Rightarrow> u64 \<Rightarrow> Attr" where
  "attr_Float k bits = \<lparr>atyp = attrTypeFloat64, key = k, str = [], anum = bits\<rparr>"

definition attr_Time :: "('t \<Rightarrow> string) \<Rightarrow> string \<Rightarrow> 't \<Rightarrow> Attr" where
  "attr_Time Format k v = attr_String k (Format v)"

definition attr_Duration :: "('d \<Rightarrow> string) \<Rightarrow> string \<Rightarrow> 'd \<Rightarrow> Attr" where
  "attr_Duration d_String k v = attr_String k (d_String v)"

section \<open>Key/value pairs\<close>

datatype kv_value = KString string | KBytes string | KBool bool | KInt64 int | KFloat64 u64

type_synonym key_value = "string \<times> kv_value"

definition asAttrKeyValue :: "Attr \<Rightarrow> ('x, key_value option) outcome" where
  "asAttrKeyValue a =
     (if atyp a = attrTypeNone then Ok None
      else if atyp a = attrTypeBinary then Ok (Some (key a, KString (QuoteToASCII (str a))))
      else if atyp a = attrTypeString then Ok (Some (key a, KString (str a)))
      else if atyp a = attrTypeBool then Ok (Some (key a, KBool (anum a \<noteq> 0)))
      else if atyp a = attrTypeInt64 then Ok (Some (key a, KInt64 (sint (anum a))))
      else if atyp a = attrTypeFloat64 then Ok (Some (key a, KFloat64 (anum a)))
      else Panic ''unknown attribute type'')"

definition asLogKeyValue :: "Attr \<Rightarrow> ('x, key_value option) outcome" where
  "asLogKeyValue a =
     (if atyp a = attrTypeNone then Ok None
      else if atyp a = attrTypeBinary then Ok (Some (key a, KBytes (str a)))
      else if atyp a = attrTypeString then Ok (Some (key a, KString (str a)))
      else if atyp a = attrTypeBool then Ok (Some (key a, KBool (anum a \<noteq> 0)))
      else if atyp a = attrTypeInt64 then Ok (Some (key a, KInt64 (sint (anum a))))
      else if atyp a = attrTypeFloat64 then Ok (Some (key a, KFloat64 (anum a)))
      else Panic ''unknown attribute type'')"

text \<open>The loops of \<open>asAttrKeyValues\<close> and \<open>asLogKeyValues\<close>, for either conversion.\<close>

fun as_key_values :: "(Attr \<Rightarrow> ('x, key_value option) outcome) \<Rightarrow> Attr list \<Rightarrow> ('x, key_value list) outcome" where
  "as_key_values conv [] = Ok []"
| "as_key_values conv (a # as) =
     (case conv a of
        Ok kv \<Rightarrow>
          (case as_key_values conv as of
             Ok kvs \<Rightarrow> Ok ((case kv of None \<Rightarrow> [] | Some p \<Rightarrow> [p]) @ kvs)
           | r \<Rightarrow> r)
      | Err x \<Rightarrow> Err x
      | Panic t \<Rightarrow> Panic t)"

definition asAttrKeyValues :: "Attr list \<Rightarrow> ('x, key_value list) outcome" where
  "asAttrKeyValues = as_key_values asAttrKeyValue"

definition asLogKeyValues :: "Attr list \<Rightarrow> ('x, key_value list) outcome" where
  "asLogKeyValues = as_key_values asLogKeyValue"

text \<open>The attributes that the functions above make, and the zero value.\<close>

definition attr_ok :: "Attr \<Rightarrow> bool" where
  "attr_ok a \<longleftrightarrow> atyp a \<le> attrTypeFloat64"

lemma attr_ok_cases:
  assumes "attr_ok a"
  obtains "atyp a = attrTypeNone" | "atyp a = attrTypeBinary" | "atyp a = attrTypeString" | "atyp a = attrTypeBool"
    | "atyp a = attrTypeInt64" | "atyp a = attrTypeFloat64"
proof -
  have "unat (atyp a) \<le> 5" using assms by (simp add: attr_ok_def attrType_defs word_le_nat_alt)
  then have "unat (atyp a) \<in> {0, 1, 2, 3, 4, 5}" by auto
  then have "atyp a \<in> {0, 1, 2, 3, 4, 5}" by (auto simp: word_unat_eq_iff)
  then show thesis using that by (auto simp: attrType_defs)
qed

lemma as_key_values_ok:
  assumes "\<And>a. a \<in> set as \<Longrightarrow> \<exists>kv. conv a = Ok kv"
  shows "\<exists>kvs. as_key_values conv as = Ok kvs"
  using assms
proof (induction as)
  case (Cons a as)
  then obtain kv kvs where "conv a = Ok kv" "as_key_values conv as = Ok kvs" by force
  then show ?case by simp
qed simp

lemma asAttrKeyValue_ok: "attr_ok a \<Longrightarrow> \<exists>kv. asAttrKeyValue a = Ok kv"
  by (erule attr_ok_cases) (simp_all add: asAttrKeyValue_def attrType_defs)

lemma asLogKeyValue_ok: "attr_ok a \<Longrightarrow> \<exists>kv. asLogKeyValue a = Ok kv"
  by (erule attr_ok_cases) (simp_all add: asLogKeyValue_def attrType_defs)

lemma asAttrKeyValues_ok: "\<forall>a \<in> set as. attr_ok a \<Longrightarrow> \<exists>kvs. asAttrKeyValues as = Ok kvs"
  unfolding asAttrKeyValues_def by (rule as_key_values_ok) (simp add: asAttrKeyValue_ok)

lemma asLogKeyValues_ok: "\<forall>a \<in> set as. attr_ok a \<Longrightarrow> \<exists>kvs. asLogKeyValues as = Ok kvs"
  unfolding asLogKeyValues_def by (rule as_key_values_ok) (simp add: asLogKeyValue_ok)

lemma attr_ok_simps [simp]:
  "attr_ok (attr_String k v)" "attr_ok (attr_Binary k v)" "attr_ok (attr_Bool k b)" "attr_ok (attr_Int k i)"
  "attr_ok (attr_Float k w)"
  by (simp_all add: attr_ok_def attr_String_def attr_Binary_def attr_Bool_def attr_Int_def attr_Float_def attrType_defs
      Let_def split: prod.split)

section \<open>Recorders\<close>

datatype severity = SeverityInfo | SeverityError

text \<open>
  The operations of OpenTelemetry that the code calls. The creation of an instrument may fail;
  \<open>Enabled\<close> says whether a logger takes records of a severity.
\<close>

record ('tp, 'mp, 'lp, 't, 'm, 'l, 'x) otel =
  noop_TracerProvider :: 'tp
  noop_MeterProvider :: 'mp
  noop_LoggerProvider :: 'lp
  tp_Tracer :: "'tp \<Rightarrow> string \<Rightarrow> string \<Rightarrow> 't"
  mp_Meter :: "'mp \<Rightarrow> string \<Rightarrow> string \<Rightarrow> 'm"
  lp_Logger :: "'lp \<Rightarrow> string \<Rightarrow> string \<Rightarrow> 'l"
  NewSet :: "key_value list \<Rightarrow> key_value list"
  Int64Counter :: "'m \<Rightarrow> string \<Rightarrow> string \<Rightarrow> string \<Rightarrow> 'x option"
  Int64UpDownCounter :: "'m \<Rightarrow> string \<Rightarrow> string \<Rightarrow> string \<Rightarrow> 'x option"
  Int64Histogram :: "'m \<Rightarrow> string \<Rightarrow> string \<Rightarrow> string \<Rightarrow> 'x option"
  Enabled :: "'l \<Rightarrow> severity \<Rightarrow> bool"
  err_Error :: "'x \<Rightarrow> string"

record ('tp, 'mp, 'lp) Provider =
  TracerProvider :: "'tp option"
  MeterProvider :: "'mp option"
  LoggerProvider :: "'lp option"
  Attrs :: "Attr list"

text \<open>An instrument adds measurements with the attributes of its recorder and those of the call.\<close>

record Instrument =
  inst_name :: string
  inst_attrs :: "key_value list"

record ('t, 'm, 'l) Recorder =
  tracer :: 't
  meter :: 'm
  logger :: 'l
  attrKVs :: "key_value list"
  logKVs :: "key_value list"
  errorCount :: Instrument
  operationCount :: Instrument
  operationsInFlightCount :: Instrument

record 'x otel_span =
  span_name :: string
  span_attrs :: "key_value list"
  span_events :: "(string \<times> key_value list) list"
  span_status :: "string option"
  span_errors :: "'x list"
  span_ended :: bool

record log_record =
  EventName :: string
  Severity :: severity
  log_attrs :: "key_value list"
  Body :: "key_value list option"

record 'x telemetry =
  measurements :: "(string \<times> int \<times> key_value list) list"
  spans :: "'x otel_span list"
  logs :: "log_record list"

definition new_instrument ::
  "('tp, 'mp, 'lp, 't, 'm, 'l, 'x) otel \<Rightarrow> 'x option \<Rightarrow> string \<Rightarrow> key_value list \<Rightarrow> ('x, Instrument) outcome" where
  "new_instrument D e name kvs =
     (case e of Some x \<Rightarrow> Panic (err_Error D x) | None \<Rightarrow> Ok \<lparr>inst_name = name, inst_attrs = kvs\<rparr>)"

definition Counter where
  "Counter D r name unit desc = new_instrument D (Int64Counter D (meter r) name unit desc) name (attrKVs r)"

definition UpDownCounter where
  "UpDownCounter D r name unit desc = new_instrument D (Int64UpDownCounter D (meter r) name unit desc) name (attrKVs r)"

definition Histogram where
  "Histogram D r name unit desc = new_instrument D (Int64Histogram D (meter r) name unit desc) name (attrKVs r)"

definition run_Instrument :: "Instrument \<Rightarrow> int \<Rightarrow> Attr list \<Rightarrow> 'x telemetry \<Rightarrow> ('x, unit) outcome \<times> 'x telemetry" where
  "run_Instrument inst value attrs s =
     (case asAttrKeyValues attrs of
        Ok kvs \<Rightarrow> (Ok (), s\<lparr>measurements := measurements s @ [(inst_name inst, value, inst_attrs inst @ kvs)]\<rparr>)
      | Err x \<Rightarrow> (Err x, s)
      | Panic t \<Rightarrow> (Panic t, s))"

text \<open>Attributes of the measurements of data that is read and written.\<close>

definition ReadDirection :: Attr where
  "ReadDirection = attr_String ''network.io.direction'' ''read''"

definition WriteDirection :: Attr where
  "WriteDirection = attr_String ''network.io.direction'' ''write''"

text \<open>The version of the module, from the build information of the program that uses it.\<close>

definition module_version :: "(string \<times> string) list option \<Rightarrow> string" where
  "module_version info =
     (case info of
        None \<Rightarrow> ''unknown''
      | Some deps \<Rightarrow>
          (case find (\<lambda>(path, v). path = ''github.com/dogmatiq/veracity'') deps of
             Some (path, v) \<Rightarrow> v | None \<Rightarrow> ''unknown''))"

definition zero_Instrument :: Instrument where
  "zero_Instrument = \<lparr>inst_name = [], inst_attrs = []\<rparr>"

definition new_Recorder ::
  "('tp, 'mp, 'lp, 't, 'm, 'l, 'x) otel \<Rightarrow> string \<Rightarrow> ('tp, 'mp, 'lp) Provider option \<Rightarrow> Attr list \<Rightarrow>
   ('x, ('t, 'm, 'l) Recorder) outcome" where
  "new_Recorder D version p attrs =
     (let pkg = ''github.com/dogmatiq/veracity/'';
          tp = (case Option.bind p TracerProvider of Some x \<Rightarrow> x | None \<Rightarrow> noop_TracerProvider D);
          mp = (case Option.bind p MeterProvider of Some x \<Rightarrow> x | None \<Rightarrow> noop_MeterProvider D);
          lp = (case Option.bind p LoggerProvider of Some x \<Rightarrow> x | None \<Rightarrow> noop_LoggerProvider D)
      in case (asAttrKeyValues attrs, asLogKeyValues attrs) of
           (Ok akvs, Ok lkvs) \<Rightarrow>
             (let r = \<lparr>tracer = tp_Tracer D tp pkg version, meter = mp_Meter D mp pkg version,
                       logger = lp_Logger D lp pkg version, attrKVs = NewSet D akvs, logKVs = lkvs,
                       errorCount = zero_Instrument, operationCount = zero_Instrument,
                       operationsInFlightCount = zero_Instrument\<rparr>
              in case Counter D r ''errors'' ''{error}'' ''The number of errors that have occurred.'' of
                   Panic t \<Rightarrow> Panic t | Err x \<Rightarrow> Err x
                 | Ok i1 \<Rightarrow>
                     (case Counter D r ''operations'' ''{operation}'' ''The number of operations that have been performed.'' of
                        Panic t \<Rightarrow> Panic t | Err x \<Rightarrow> Err x
                      | Ok i2 \<Rightarrow>
                          (case UpDownCounter D r ''operations.in_flight'' ''{operation}''
                                  ''The number of operations that are currently in progress.'' of
                             Panic t \<Rightarrow> Panic t | Err x \<Rightarrow> Err x
                           | Ok i3 \<Rightarrow> Ok (r\<lparr>errorCount := i1, operationCount := i2, operationsInFlightCount := i3\<rparr>))))
         | (Panic t, _) \<Rightarrow> Panic t
         | (_, Panic t) \<Rightarrow> Panic t
         | (Err x, _) \<Rightarrow> Err x
         | (_, Err x) \<Rightarrow> Err x)"

section \<open>Spans and logs\<close>

text \<open>
  A context carries the span that was started in it, by its number; without one
  \<open>SpanFromContext\<close> gives a span that ignores everything.
\<close>

record Span =
  underlying :: nat
  span_op :: Attr

definition update_span :: "nat option \<Rightarrow> ('x otel_span \<Rightarrow> 'x otel_span) \<Rightarrow> 'x telemetry \<Rightarrow> 'x telemetry" where
  "update_span ctx f s = (case ctx of None \<Rightarrow> s | Some i \<Rightarrow> s\<lparr>spans := (spans s)[i := f (spans s ! i)]\<rparr>)"

definition StartSpan ::
  "('t, 'm, 'l) Recorder \<Rightarrow> string \<Rightarrow> Attr list \<Rightarrow> 'x telemetry \<Rightarrow> ('x, nat option \<times> Span) outcome \<times> 'x telemetry" where
  "StartSpan r name attrs s =
     (case asAttrKeyValues attrs of
        Ok kvs \<Rightarrow>
          (let i = length (spans s);
               s1 = s\<lparr>spans := spans s @ [\<lparr>span_name = name, span_attrs = attrKVs r @ kvs, span_events = [],
                       span_status = None, span_errors = [], span_ended = False\<rparr>]\<rparr>;
               op = attr_String ''operation'' name
           in case run_Instrument (operationCount r) 1 [op] s1 of
                (Ok _, s2) \<Rightarrow>
                  (case run_Instrument (operationsInFlightCount r) 1 [op] s2 of
                     (Ok _, s3) \<Rightarrow> (Ok (Some i, \<lparr>underlying = i, span_op = op\<rparr>), s3)
                   | (Err x, s3) \<Rightarrow> (Err x, s3)
                   | (Panic t, s3) \<Rightarrow> (Panic t, s3))
              | (Err x, s2) \<Rightarrow> (Err x, s2)
              | (Panic t, s2) \<Rightarrow> (Panic t, s2))
      | Err x \<Rightarrow> (Err x, s)
      | Panic t \<Rightarrow> (Panic t, s))"

definition Span_End :: "('t, 'm, 'l) Recorder \<Rightarrow> Span \<Rightarrow> 'x telemetry \<Rightarrow> ('x, unit) outcome \<times> 'x telemetry" where
  "Span_End r sp s =
     (case run_Instrument (operationsInFlightCount r) (- 1) [span_op sp] s of
        (Ok _, s1) \<Rightarrow> (Ok (), update_span (Some (underlying sp)) (\<lambda>u. u\<lparr>span_ended := True\<rparr>) s1)
      | r \<Rightarrow> r)"

definition SetAttributes :: "Span \<Rightarrow> Attr list \<Rightarrow> 'x telemetry \<Rightarrow> ('x, unit) outcome \<times> 'x telemetry" where
  "SetAttributes sp attrs s =
     (case asAttrKeyValues attrs of
        Ok kvs \<Rightarrow> (Ok (), update_span (Some (underlying sp)) (\<lambda>u. u\<lparr>span_attrs := span_attrs u @ kvs\<rparr>) s)
      | Err x \<Rightarrow> (Err x, s)
      | Panic t \<Rightarrow> (Panic t, s))"

definition recordEvent ::
  "('tp, 'mp, 'lp, 't, 'm, 'l, 'x) otel \<Rightarrow> ('t, 'm, 'l) Recorder \<Rightarrow> nat option \<Rightarrow> severity \<Rightarrow> string \<Rightarrow> string \<Rightarrow>
   'x option \<Rightarrow> Attr list \<Rightarrow> 'x telemetry \<Rightarrow> ('x, unit) outcome \<times> 'x telemetry" where
  "recordEvent D r ctx sev event message err attrs s =
     (if \<not> Enabled D (logger r) sev then (Ok (), s)
      else case (asAttrKeyValues attrs, asLogKeyValues attrs) of
        (Ok akvs, Ok lkvs) \<Rightarrow>
          (let s1 = update_span ctx
                 (\<lambda>u. u\<lparr>span_events := span_events u @ [(event, (''message'', KString message) # akvs)]\<rparr>) s;
               rec = \<lparr>EventName = event, Severity = sev,
                      log_attrs = logKVs r @ [(''message'', KString message)] @
                        (case err of None \<Rightarrow> [] | Some x \<Rightarrow> [(''error'', KString (err_Error D x))]),
                      Body = (if attrs = [] then None else Some lkvs)\<rparr>
           in (Ok (), s1\<lparr>logs := logs s1 @ [rec]\<rparr>))
      | (Panic t, _) \<Rightarrow> (Panic t, s)
      | (_, Panic t) \<Rightarrow> (Panic t, s)
      | (Err x, _) \<Rightarrow> (Err x, s)
      | (_, Err x) \<Rightarrow> (Err x, s))"

definition tel_Info ::
  "('tp, 'mp, 'lp, 't, 'm, 'l, 'x) otel \<Rightarrow> ('t, 'm, 'l) Recorder \<Rightarrow> nat option \<Rightarrow> string \<Rightarrow> string \<Rightarrow>
   Attr list \<Rightarrow> 'x telemetry \<Rightarrow> ('x, unit) outcome \<times> 'x telemetry" where
  "tel_Info D r ctx event message attrs s = recordEvent D r ctx SeverityInfo event message None attrs s"

definition tel_Error ::
  "('tp, 'mp, 'lp, 't, 'm, 'l, 'x) otel \<Rightarrow> ('t, 'm, 'l) Recorder \<Rightarrow> nat option \<Rightarrow> string \<Rightarrow> 'x \<Rightarrow>
   Attr list \<Rightarrow> 'x telemetry \<Rightarrow> ('x, unit) outcome \<times> 'x telemetry" where
  "tel_Error D r ctx event err attrs s =
     (case recordEvent D r ctx SeverityError event (err_Error D err) (Some err) attrs s of
        (Ok _, s1) \<Rightarrow>
          (case run_Instrument (errorCount r) 1 [] s1 of
             (Ok _, s2) \<Rightarrow>
               (Ok (), update_span ctx
                  (\<lambda>u. u\<lparr>span_status := Some (err_Error D err), span_errors := span_errors u @ [err]\<rparr>) s2)
           | r \<Rightarrow> r)
      | r \<Rightarrow> r)"

section \<open>Sequences of operations\<close>

text \<open>What a component does with its recorder: spans are ended by the number they were started with.\<close>

datatype 'x tel_op =
  OStart string "Attr list" | OEnd nat string | OSet nat "Attr list" | OInfo "nat option" string string "Attr list" |
  OError "nat option" string 'x "Attr list"

fun run_tel_op ::
  "('tp, 'mp, 'lp, 't, 'm, 'l, 'x) otel \<Rightarrow> ('t, 'm, 'l) Recorder \<Rightarrow> 'x tel_op \<Rightarrow> 'x telemetry \<Rightarrow>
   ('x, unit) outcome \<times> 'x telemetry" where
  "run_tel_op D r (OStart name attrs) s =
     (case StartSpan r name attrs s of
        (Ok _, s') \<Rightarrow> (Ok (), s') | (Err x, s') \<Rightarrow> (Err x, s') | (Panic t, s') \<Rightarrow> (Panic t, s'))"
| "run_tel_op D r (OEnd i name) s = Span_End r \<lparr>underlying = i, span_op = attr_String ''operation'' name\<rparr> s"
| "run_tel_op D r (OSet i attrs) s = SetAttributes \<lparr>underlying = i, span_op = attr_String [] []\<rparr> attrs s"
| "run_tel_op D r (OInfo ctx event message attrs) s = tel_Info D r ctx event message attrs s"
| "run_tel_op D r (OError ctx event err attrs) s = tel_Error D r ctx event err attrs s"

fun run_tel_ops ::
  "('tp, 'mp, 'lp, 't, 'm, 'l, 'x) otel \<Rightarrow> ('t, 'm, 'l) Recorder \<Rightarrow> 'x tel_op list \<Rightarrow> 'x telemetry \<Rightarrow>
   ('x, unit) outcome \<times> 'x telemetry" where
  "run_tel_ops D r [] s = (Ok (), s)"
| "run_tel_ops D r (op # ops) s =
     (case run_tel_op D r op s of (Ok _, s') \<Rightarrow> run_tel_ops D r ops s' | res \<Rightarrow> res)"

fun op_attrs :: "'x tel_op \<Rightarrow> Attr list" where
  "op_attrs (OStart name attrs) = attrs"
| "op_attrs (OEnd i name) = []"
| "op_attrs (OSet i attrs) = attrs"
| "op_attrs (OInfo ctx event message attrs) = attrs"
| "op_attrs (OError ctx event err attrs) = attrs"

definition starts :: "'x tel_op list \<Rightarrow> nat" where
  "starts ops = length (filter (\<lambda>op. \<exists>n as. op = OStart n as) ops)"

definition ends :: "'x tel_op list \<Rightarrow> nat" where
  "ends ops = length (filter (\<lambda>op. \<exists>i n. op = OEnd i n) ops)"

definition errs :: "'x tel_op list \<Rightarrow> nat" where
  "errs ops = length (filter (\<lambda>op. \<exists>c e x as. op = OError c e x as) ops)"

definition total :: "string \<Rightarrow> 'x telemetry \<Rightarrow> int" where
  "total name s = sum_list (map (\<lambda>(n, v, kvs). if n = name then v else 0) (measurements s))"

lemma run_Instrument_op [simp]:
  "run_Instrument inst v [attr_String k x] s =
     (Ok (), s\<lparr>measurements := measurements s @ [(inst_name inst, v, inst_attrs inst @ [(k, KString x)])]\<rparr>)"
  "run_Instrument inst v [] s = (Ok (), s\<lparr>measurements := measurements s @ [(inst_name inst, v, inst_attrs inst)]\<rparr>)"
  by (simp_all add: run_Instrument_def asAttrKeyValues_def asAttrKeyValue_def attr_String_def attrType_defs)

lemma counts_append [simp]:
  "starts (ops @ ops') = starts ops + starts ops'" "ends (ops @ ops') = ends ops + ends ops'"
  "errs (ops @ ops') = errs ops + errs ops'"
  by (simp_all add: starts_def ends_def errs_def)

lemma update_span_measurements [simp]: "measurements (update_span ctx f s) = measurements s"
  by (simp add: update_span_def split: option.split)

lemma update_span_length [simp]: "length (spans (update_span ctx f s)) = length (spans s)"
  by (simp add: update_span_def split: option.split)

lemma counts_Cons [simp]:
  "starts [] = 0" "ends [] = 0" "errs [] = 0"
  "starts (op # ops) = (case op of OStart n as \<Rightarrow> 1 | _ \<Rightarrow> 0) + starts ops"
  "ends (op # ops) = (case op of OEnd i n \<Rightarrow> 1 | _ \<Rightarrow> 0) + ends ops"
  "errs (op # ops) = (case op of OError c e x as \<Rightarrow> 1 | _ \<Rightarrow> 0) + errs ops"
  by (simp_all add: starts_def ends_def errs_def split: tel_op.split)

text \<open>The instruments of a recorder have the names they were created with.\<close>

definition recorder_ok :: "('t, 'm, 'l) Recorder \<Rightarrow> bool" where
  "recorder_ok r \<longleftrightarrow> inst_name (errorCount r) = ''errors'' \<and> inst_name (operationCount r) = ''operations'' \<and>
     inst_name (operationsInFlightCount r) = ''operations.in_flight''"

lemma new_Recorder_ok: "new_Recorder D v p attrs = Ok r \<Longrightarrow> recorder_ok r"
  by (auto simp: new_Recorder_def Let_def recorder_ok_def Counter_def UpDownCounter_def new_instrument_def
      split: outcome.splits option.splits)

lemma recordEvent_ok:
  fixes s :: "'x telemetry"
  assumes "\<forall>a \<in> set attrs. attr_ok a"
  shows "\<exists>s'. recordEvent D r ctx sev ev msg err attrs s = (Ok (), s') \<and> measurements s' = measurements s \<and>
    length (spans s') = length (spans s)"
proof -
  obtain akvs lkvs where "asAttrKeyValues attrs = (Ok akvs :: ('x, key_value list) outcome)"
    "asLogKeyValues attrs = (Ok lkvs :: ('x, key_value list) outcome)"
    using asAttrKeyValues_ok [OF assms] asLogKeyValues_ok [OF assms] by blast
  then show ?thesis by (simp add: recordEvent_def Let_def)
qed

lemma run_tel_op_ok:
  fixes s :: "'x telemetry"
  assumes "recorder_ok r" and "\<forall>a \<in> set (op_attrs op). attr_ok a"
  shows "\<exists>s'. run_tel_op D r op s = (Ok (), s') \<and>
    total ''operations.in_flight'' s' = total ''operations.in_flight'' s + int (starts [op]) - int (ends [op]) \<and>
    total ''operations'' s' = total ''operations'' s + int (starts [op]) \<and>
    total ''errors'' s' = total ''errors'' s + int (errs [op]) \<and>
    length (spans s') = length (spans s) + starts [op]"
proof (cases op)
  case (OStart name attrs)
  then obtain kvs where "asAttrKeyValues attrs = (Ok kvs :: ('x, key_value list) outcome)"
    using asAttrKeyValues_ok assms(2) by fastforce
  then show ?thesis using OStart assms(1) by (simp add: StartSpan_def Let_def recorder_ok_def total_def)
next
  case (OEnd i name)
  then show ?thesis using assms(1) by (simp add: Span_End_def recorder_ok_def total_def)
next
  case (OSet i attrs)
  then obtain kvs where "asAttrKeyValues attrs = (Ok kvs :: ('x, key_value list) outcome)"
    using asAttrKeyValues_ok assms(2) by fastforce
  then show ?thesis using OSet by (simp add: SetAttributes_def total_def)
next
  case (OInfo ctx ev msg attrs)
  with recordEvent_ok [of attrs D r ctx SeverityInfo ev msg None s] assms(2) show ?thesis
    by (auto simp: tel_Info_def total_def)
next
  case (OError ctx ev err attrs)
  then obtain s1 where "recordEvent D r ctx SeverityError ev (err_Error D err) (Some err) attrs s = (Ok (), s1)"
    "measurements s1 = measurements s" "length (spans s1) = length (spans s)"
    using recordEvent_ok [of attrs D r ctx SeverityError ev "err_Error D err" "Some err" s] assms(2) by auto
  with OError assms(1) show ?thesis by (simp add: tel_Error_def recorder_ok_def total_def)
qed

text \<open>
Whatever a component does with its recorder, with attributes of the known types, nothing
panics, the in-flight instrument counts the operations that were started less those that were
ended, the operations instrument those that were started, each with a span, and the errors
instrument the reported errors, whether or not the logger is enabled.
\<close>

lemma telemetry_counts:
  fixes s :: "'x telemetry"
  assumes "recorder_ok r" and "\<forall>op \<in> set ops. \<forall>a \<in> set (op_attrs op). attr_ok a"
  shows "\<exists>s'. run_tel_ops D r ops s = (Ok (), s') \<and>
    total ''operations.in_flight'' s' = total ''operations.in_flight'' s + int (starts ops) - int (ends ops) \<and>
    total ''operations'' s' = total ''operations'' s + int (starts ops) \<and>
    length (spans s') = length (spans s) + starts ops \<and>
    total ''errors'' s' = total ''errors'' s + int (errs ops)"
  using assms(2)
proof (induction ops arbitrary: s)
  case (Cons op ops)
  obtain s1 where s1: "run_tel_op D r op s = (Ok (), s1)"
    "total ''operations.in_flight'' s1 = total ''operations.in_flight'' s + int (starts [op]) - int (ends [op])"
    "total ''operations'' s1 = total ''operations'' s + int (starts [op])"
    "total ''errors'' s1 = total ''errors'' s + int (errs [op])"
    "length (spans s1) = length (spans s) + starts [op]"
    using run_tel_op_ok [OF assms(1), of op D s] Cons.prems by auto
  obtain s' where "run_tel_ops D r ops s1 = (Ok (), s')"
    "total ''operations.in_flight'' s' = total ''operations.in_flight'' s1 + int (starts ops) - int (ends ops)"
    "total ''operations'' s' = total ''operations'' s1 + int (starts ops)"
    "length (spans s') = length (spans s1) + starts ops"
    "total ''errors'' s' = total ''errors'' s1 + int (errs ops)"
    using Cons.IH [of s1] Cons.prems by auto
  with s1 show ?case by simp
qed simp

section \<open>Properties\<close>

text \<open>
C38: What the constructors of attributes put in comes out of both conversions, without a panic:
strings, booleans, the integers of 64 bits and floating-point numbers unchanged, and of binary
data at most its first 64 bytes, quoted in printable ASCII. In a trace the binary data is quoted a
second time, so its attribute there is never the quoted form that the log has.
\<close>

theorem attributes_converted:
  fixes i :: int
  assumes "- (2 ^ 63) \<le> i" and "i < 2 ^ 63"
  shows "map asAttrKeyValue [attr_String k v, attr_Bool k b, attr_Int k i, attr_Float k f] =
      (map (Ok \<circ> Some) [(k, KString v), (k, KBool b), (k, KInt64 i), (k, KFloat64 f)] :: ('x, key_value option) outcome list) \<and>
    map asLogKeyValue [attr_String k v, attr_Bool k b, attr_Int k i, attr_Float k f] =
      (map (Ok \<circ> Some) [(k, KString v), (k, KBool b), (k, KInt64 i), (k, KFloat64 f)] :: ('x, key_value option) outcome list) \<and>
    (let q = QuoteToASCII (take 64 v); k' = (if 64 < length v then k @ ''_truncated'' else k)
     in asLogKeyValue (attr_Binary k v) = (Ok (Some (k', KBytes q)) :: ('x, key_value option) outcome) \<and>
        (\<forall>c \<in> set q. printable c) \<and> QuoteToASCII q \<noteq> q \<and>
        asAttrKeyValue (attr_Binary k v) = (Ok (Some (k', KString (QuoteToASCII q))) :: ('x, key_value option) outcome))"
proof -
  have "sint (word_of_int i :: u64) = i"
    using assms by (simp add: sint_sbintrunc' signed_take_bit_int_eq_self)
  moreover have "QuoteToASCII q \<noteq> q" for q using QuoteToASCII_longer [of q] by auto
  ultimately show ?thesis
    using QuoteToASCII_printable [of "take 64 v"]
    by (simp add: asAttrKeyValue_def asLogKeyValue_def attr_String_def attr_Bool_def attr_Int_def attr_Float_def
        attr_Binary_def attrType_defs Let_def)
qed

theorem attributes_converted_witness:
  "asAttrKeyValue (attr_Int ''n'' (- 5)) = (Ok (Some (''n'', KInt64 (- 5))) :: (unit, key_value option) outcome) \<and>
   asAttrKeyValue (attr_Binary ''b'' [CHR ''a'', CHR 0x00]) =
     (Ok (Some (''b'', KString (QuoteToASCII (QuoteToASCII [CHR ''a'', CHR 0x00])))) :: (unit, key_value option) outcome)"
  using attributes_converted [where 'x = unit and i = "- 5" and k = "''n''" and v = "[]"]
    attributes_converted [where 'x = unit and i = "- 5" and k = "''b''" and v = "[CHR ''a'', CHR 0x00]"]
  by (simp add: Let_def)

definition example_otel :: "(unit, unit, unit, unit, unit, bool, 'x) otel" where
  "example_otel = \<lparr>noop_TracerProvider = (), noop_MeterProvider = (), noop_LoggerProvider = (),
     tp_Tracer = (\<lambda>_ _ _. ()), mp_Meter = (\<lambda>_ _ _. ()), lp_Logger = (\<lambda>_ _ _. False), NewSet = id,
     Int64Counter = (\<lambda>_ _ _ _. None), Int64UpDownCounter = (\<lambda>_ _ _ _. None), Int64Histogram = (\<lambda>_ _ _ _. None),
     Enabled = (\<lambda>l _. l), err_Error = (\<lambda>x. ''failed'')\<rparr>"

lemma example_recorder:
  "\<exists>r. new_Recorder example_otel ''v1'' (None :: (unit, unit, unit) Provider option) [] = Ok r"
  by (simp add: new_Recorder_def Let_def example_otel_def asAttrKeyValues_def asLogKeyValues_def Counter_def
      UpDownCounter_def new_instrument_def)

end
