(* ===== verification/Integration_Telemetry.thy ===== *)
theory Integration_Telemetry
  imports Integration_Correct Telemetry
begin

text \<open>
  What the supervisor of an integration (\<open>internal/integration/supervisor.go\<close>, \<open>scope.go\<close>) tells
  its recorder. For each operation of theory \<open>Integration_Supervisor\<close> there is the list of the
  calls that it makes on the recorder and its spans, along the same branches; \<open>n\<close> is the number of
  spans that have been started before, hence the number of the span that the operation starts.
  A deferred \<open>span.End\<close> is the last call, on errors and panics too.
\<close>

section \<open>Attributes\<close>

text \<open>The accessors of envelopes and the formatting that are code of other modules.\<close>

record ('u, 'env, 'arg) telemetry_deps =
  AsString :: "'u option \<Rightarrow> string"
  env_CorrelationId :: "'env option \<Rightarrow> 'u option"
  env_MediaType :: "'env option \<Rightarrow> string"
  env_Description :: "'env option \<Rightarrow> string"
  Sprintf :: "string \<Rightarrow> 'arg list \<Rightarrow> string"

definition command_attrs ::
  "('u, 'env, 'arg) telemetry_deps \<Rightarrow>
   ('j, 'u, 'env, 'x, 'k, 'w, 'msg, 'ev, 'arg, 'hid) integration_deps \<Rightarrow> 'env option \<Rightarrow> Attr list" where
  "command_attrs F D env =
     [attr_UUID (AsString F) ''command.message_id'' (env_MessageId D env),
      attr_UUID (AsString F) ''command.causation_id'' (env_MessageId D env),
      attr_UUID (AsString F) ''command.correlation_id'' (env_CorrelationId F env),
      attr_String ''command.media_type'' (env_MediaType F env),
      attr_String ''command.description'' (env_Description F env)]"

definition event_attrs ::
  "('u, 'env, 'arg) telemetry_deps \<Rightarrow>
   ('j, 'u, 'env, 'x, 'k, 'w, 'msg, 'ev, 'arg, 'hid) integration_deps \<Rightarrow> 'env option \<Rightarrow> Attr list" where
  "event_attrs F D env =
     [attr_UUID (AsString F) ''event.message_id'' (env_MessageId D env),
      attr_UUID (AsString F) ''event.causation_id'' (env_MessageId D env),
      attr_UUID (AsString F) ''event.correlation_id'' (env_CorrelationId F env),
      attr_String ''event.media_type'' (env_MediaType F env),
      attr_String ''event.description'' (env_Description F env)]"

section \<open>The scope\<close>

fun scope_tel ::
  "('u, 'env, 'arg) telemetry_deps \<Rightarrow>
   ('j, 'u, 'env, 'x, 'k, 'w, 'msg, 'ev, 'arg, 'hid) integration_deps \<Rightarrow> nat \<Rightarrow> ('ev, 'arg) scope_call list \<Rightarrow>
   ('env, 'hid) scope \<times> 'w \<Rightarrow> 'x tel_op list" where
  "scope_tel F D n [] sw = []"
| "scope_tel F D n (RecordEvent e # calls) (sc, w) =
     OInfo (Some n) ''integration.event_recorded'' ''event recorded''
       (event_attrs F D (Some (fst (Pack D e (sc_handler sc) (sc_command sc) w))))
     # scope_tel F D n calls (scope_call_step D (RecordEvent e) (sc, w))"
| "scope_tel F D n (Now # calls) (sc, w) = scope_tel F D n calls (scope_call_step D Now (sc, w))"
| "scope_tel F D n (Log fmt args # calls) (sc, w) =
     OInfo (Some n) ''integration.message_logged'' (Sprintf F fmt args) []
     # scope_tel F D n calls (scope_call_step D (Log fmt args) (sc, w))"

section \<open>Handling a command\<close>

definition appendEvents_tel ::
  "('j, 'u, 'env, 'x, 'k, 'w, 'msg, 'ev, 'arg, 'hid) integration_deps \<Rightarrow> nat \<Rightarrow> bool \<Rightarrow>
   ('u, 'env) CommandHandled option \<Rightarrow> ('j, 'u, 'env, 'x, 'k, 'w, 'hid) supervisor \<Rightarrow> 'x tel_op list" where
  "appendEvents_tel D n shared op s =
     (if length (ch_GetEvents op) = 0 then []
      else OStart ''integration.append_events'' [] #
        (case fst (sup_appendEvents D shared op s) of
           Err x \<Rightarrow> [OError (Some n) ''integration.append_events.error'' x []]
         | Panic t \<Rightarrow> []
         | Ok _ \<Rightarrow> [OInfo (Some n) ''integration.append_events.ok'' ''events appended to event stream successfully'' []])
        @ [OEnd n ''integration.append_events''])"

definition handleCommand_tel ::
  "('u, 'env, 'arg) telemetry_deps \<Rightarrow>
   ('j, 'u, 'env, 'x, 'k, 'w, 'msg, 'ev, 'arg, 'hid) integration_deps \<Rightarrow> nat \<Rightarrow> 'env option \<Rightarrow>
   ('j, 'u, 'env, 'x, 'k, 'w, 'hid) supervisor \<Rightarrow> 'x tel_op list" where
  "handleCommand_tel F D n env s =
     (let failed = (\<lambda>x. [OError (Some n) ''integration.handle_command.error'' x []])
      in OStart ''integration.handle_command'' (command_attrs F D env) #
       (case set_Add D (acceptedCommands s) (env_MessageId D env) of
          (Some x, k') \<Rightarrow> failed x
        | (None, k') \<Rightarrow>
            (let s1 = s\<lparr>acceptedCommands := k'\<rparr>
             in case Unpack D env of
                  Err x \<Rightarrow> failed x
                | Panic t \<Rightarrow> []
                | Ok msg \<Rightarrow>
                 (case assert_Command D msg of
                    Err x \<Rightarrow> []
                  | Panic t \<Rightarrow> []
                  | Ok cmd \<Rightarrow>
                    (case HandleCommand D cmd (outside s1) of
                       ((calls, herr), w1) \<Rightarrow>
                         (let sc0 = \<lparr>sc_handler = HandlerIdentity s, sc_command = env, sc_events = []\<rparr>
                          in scope_tel F D n calls (sc0, w1) @
                           (case run_scope D calls (sc0, w1) of
                              (sc, w2) \<Rightarrow>
                                (let s2 = s1\<lparr>outside := w2\<rparr>
                                 in case herr of
                                      Err x \<Rightarrow> failed x
                                    | Panic t \<Rightarrow> []
                                    | Ok _ \<Rightarrow>
                                        (let op = zero_CommandHandled\<lparr>ch_CommandId := env_MessageId D env,
                                               ch_Events := sc_events sc\<rparr>
                                         in case (if length (sc_events sc) \<noteq> 0 then select_stream D s2 else (Ok (), s2)) of
                                              (Err x, s3) \<Rightarrow> failed x
                                            | (Panic t, s3) \<Rightarrow> []
                                            | (Ok _, s3) \<Rightarrow>
                                                (let op' = (if length (sc_events sc) \<noteq> 0
                                                       then op\<lparr>ch_EventStreamId := eventStreamID s3,
                                                         ch_OffsetHint := eventOffsetHint s3\<rparr> else op)
                                                 in case sup_append D (op_RecordBuilder_Build
                                                         (op_WithCommandHandled (Some op') op_NewRecordBuilder)) s3 of
                                                      (Ok _, s4) \<Rightarrow>
                                                        OInfo (Some n) ''integration.handle_command.ok''
                                                          ''command handled successfully'' [] #
                                                        appendEvents_tel D (Suc n) True (Some op') s4
                                                    | (Err x, s4) \<Rightarrow> failed x
                                                    | (Panic t, s4) \<Rightarrow> [])))))))))
       @ [OEnd n ''integration.handle_command''])"

text \<open>Spans are ended, and an error is reported if there is one, once.\<close>

definition tel_ok :: "('x, 'a) outcome \<Rightarrow> 'x tel_op list \<Rightarrow> bool" where
  "tel_ok r ops \<longleftrightarrow> starts ops = ends ops \<and> errs ops = (case r of Err x \<Rightarrow> 1 | _ \<Rightarrow> 0) \<and>
     (\<forall>op \<in> set ops. \<forall>a \<in> set (op_attrs op). attr_ok a)"

lemma attr_UUID_ok [simp]: "attr_ok (attr_UUID f k v)"
  by (simp add: attr_UUID_def)

lemma attrs_ok [simp]: "a \<in> set (command_attrs F D env) \<Longrightarrow> attr_ok a" "a \<in> set (event_attrs F D env) \<Longrightarrow> attr_ok a"
  by (auto simp: command_attrs_def event_attrs_def)

lemma scope_tel_ok:
  "starts (scope_tel F D n calls sw) = 0 \<and> ends (scope_tel F D n calls sw) = 0 \<and> errs (scope_tel F D n calls sw) = 0 \<and>
    (\<forall>op \<in> set (scope_tel F D n calls sw). \<forall>a \<in> set (op_attrs op). attr_ok a)"
proof (induction calls arbitrary: sw)
  case (Cons c calls)
  then show ?case by (cases c; cases sw) simp_all
qed (cases sw; simp)

lemma appendEvents_tel_ok: "tel_ok (fst (sup_appendEvents D shared op s)) (appendEvents_tel D n shared op s)"
  by (auto simp: tel_ok_def appendEvents_tel_def sup_appendEvents_def Let_def split: outcome.splits)

text \<open>A span around calls that are well formed.\<close>

lemma tel_ok_span:
  assumes "tel_ok r ops" "\<forall>a \<in> set attrs. attr_ok a"
  shows "tel_ok r (OStart name attrs # ops @ [OEnd n name])"
  using assms by (auto simp: tel_ok_def)

lemma tel_ok_simps [simp]:
  "tel_ok r (OInfo c ev msg as # ops) \<longleftrightarrow> (\<forall>a \<in> set as. attr_ok a) \<and> tel_ok r ops"
  "tel_ok (Err x) [OError c ev y []]" "tel_ok (Panic t) []" "tel_ok (Ok v) []"
  "tel_ok r (scope_tel F D n calls sw @ ops) \<longleftrightarrow> tel_ok r ops"
  using scope_tel_ok [of F D n calls sw] by (auto simp: tel_ok_def split: outcome.splits)

lemma handleCommand_tel_ok: "tel_ok (fst (sup_handleCommand D env s)) (handleCommand_tel F D n env s)"
  unfolding handleCommand_tel_def Let_def
  by (rule tel_ok_span)
     (auto simp: sup_handleCommand_def Let_def appendEvents_tel_ok split: prod.split option.split outcome.split)

section \<open>Accepting a command\<close>

text \<open>What follows the send of an acknowledgement, which may wait for ever; then the span is not ended.\<close>

definition after_send :: "ack_error option chan chan_op \<Rightarrow> 'x tel_op list \<Rightarrow> 'x tel_op list" where
  "after_send sent ops = (case sent of Proceeds c \<Rightarrow> ops | _ \<Rightarrow> [])"

definition acceptCommand_tel ::
  "('u, 'env, 'arg) telemetry_deps \<Rightarrow>
   ('j, 'u, 'env, 'x, 'k, 'w, 'msg, 'ev, 'arg, 'hid) integration_deps \<Rightarrow> nat \<Rightarrow> 'env option ack_request \<Rightarrow>
   ('j, 'u, 'env, 'x, 'k, 'w, 'hid) supervisor \<Rightarrow> 'x tel_op list" where
  "acceptCommand_tel F D n req s =
     (let env = Value req
      in OStart ''integration.accept_command'' (command_attrs F D env) #
        (case set_Has D (acceptedCommands s) (env_MessageId D env) of
           (Err x, k') \<Rightarrow> []
         | (Panic t, k') \<Rightarrow> []
         | (Ok alreadyAccepted, k') \<Rightarrow>
             (let s1 = s\<lparr>acceptedCommands := k'\<rparr>
              in if alreadyAccepted
                 then after_send (Ack req)
                   [OInfo (Some n) ''integration.accept_command.ok''
                      ''acknowledged and ignored command that has already been accepted for handling'' []]
                 else
                   (case sup_append D (op_RecordBuilder_Build
                        (op_WithCommandAccepted (Some \<lparr>ca_Command = env\<rparr>) op_NewRecordBuilder)) s1 of
                      (Err x, s2) \<Rightarrow> [OError (Some n) ''integration.accept_command.error'' x []]
                    | (Panic t, s2) \<Rightarrow> []
                    | (Ok _, s2) \<Rightarrow>
                        (case Ack req of
                           Proceeds c \<Rightarrow> handleCommand_tel F D (Suc n) env (s2\<lparr>replied := replied s2 @ [req\<lparr>Acknowledgement := c\<rparr>]\<rparr>)
                         | _ \<Rightarrow> []))))
        @ (case sup_acceptCommand D req s of Blocks s' \<Rightarrow> [] | _ \<Rightarrow> [OEnd n ''integration.accept_command'']))"

section \<open>Recovery\<close>

fun append_all_tel ::
  "('j, 'u, 'env, 'x, 'k, 'w, 'msg, 'ev, 'arg, 'hid) integration_deps \<Rightarrow> nat \<Rightarrow> ('u, 'env) CommandHandled option list \<Rightarrow>
   ('j, 'u, 'env, 'x, 'k, 'w, 'hid) supervisor \<Rightarrow> 'x tel_op list" where
  "append_all_tel D n [] s = []"
| "append_all_tel D n (op # ops) s =
     (let t = appendEvents_tel D n False op s
      in t @ (case sup_appendEvents D False op s of (Ok _, s') \<Rightarrow> append_all_tel D (n + starts t) ops s' | r \<Rightarrow> []))"

fun handle_all_tel ::
  "('u, 'env, 'arg) telemetry_deps \<Rightarrow>
   ('j, 'u, 'env, 'x, 'k, 'w, 'msg, 'ev, 'arg, 'hid) integration_deps \<Rightarrow> nat \<Rightarrow> 'env CommandAccepted option list \<Rightarrow>
   ('j, 'u, 'env, 'x, 'k, 'w, 'hid) supervisor \<Rightarrow> 'x tel_op list" where
  "handle_all_tel F D n [] s = []"
| "handle_all_tel F D n (op # ops) s =
     (let t = handleCommand_tel F D n (ca_GetCommand op) s
      in t @ (case sup_handleCommand D (ca_GetCommand op) s of
          (Ok _, s') \<Rightarrow> handle_all_tel F D (n + starts t) ops s' | r \<Rightarrow> []))"

definition recover_pending_tel ::
  "('u, 'env, 'arg) telemetry_deps \<Rightarrow>
   ('j, 'u, 'env, 'x, 'k, 'w, 'msg, 'ev, 'arg, 'hid) integration_deps \<Rightarrow> nat \<Rightarrow> ('u, 'env) pending_ops \<Rightarrow>
   ('j, 'u, 'env, 'x, 'k, 'w, 'hid) supervisor \<Rightarrow> 'x tel_op list" where
  "recover_pending_tel F D n ah s =
     OSet n [attr_Int ''unhandled_commands'' (int (length (fst ah))), attr_Int ''unappended_events'' (int (length (snd ah)))] #
     (if length (fst ah) = 0 \<and> length (snd ah) = 0
      then [OInfo (Some n) ''integration.recover.ok'' ''no pending operations found in journal'' []]
      else
        (let t = (if length (snd ah) \<noteq> 0
               then OInfo (Some n) ''integration.recover.unappended_event_found''
                   ''journal contains events that have not yet been appended to an event stream'' []
                 # append_all_tel D (Suc n) (snd ah) s
               else [])
         in t @
           (case append_all D (snd ah) s of
              (Ok _, s1) \<Rightarrow>
                (if length (fst ah) \<noteq> 0
                 then OInfo (Some n) ''integration.recover.unhandled_command_found''
                     ''journal contains commands that have been accepted but not yet handled'' []
                   # handle_all_tel F D (Suc n + starts t) (fst ah) s1
                 else []) @
                (case handle_all D (fst ah) s1 of
                   (Ok _, s2) \<Rightarrow>
                     [OInfo (Some n) ''integration.recover.ok'' ''all pending operations in journal are now complete'' []]
                 | r \<Rightarrow> [])
            | r \<Rightarrow> [])))"

definition recover_tel ::
  "('u, 'env, 'arg) telemetry_deps \<Rightarrow>
   ('j, 'u, 'env, 'x, 'k, 'w, 'msg, 'ev, 'arg, 'hid) integration_deps \<Rightarrow> nat \<Rightarrow>
   ('j, 'u, 'env, 'x, 'k, 'w, 'hid) supervisor \<Rightarrow> 'x tel_op list" where
  "recover_tel F D n s =
     OStart ''integration.recover'' [] #
     (OInfo (Some n) ''integration.recover'' ''recovering pending operations from journal'' [] #
     (case j_Bounds D (journal s) of
        (Err x, j') \<Rightarrow> []
      | (Panic t, j') \<Rightarrow> []
      | (Ok (b, e), j') \<Rightarrow>
          (let s1 = s\<lparr>journal := j', journalPos := b\<rparr>
           in if e \<le> b then recover_pending_tel F D n ([], []) s1
              else
                (case j_Range D j' b of
                   ((rs, rerr), j2) \<Rightarrow>
                     (case recover_scan D rs b ([], []) of
                        (Panic t, p) \<Rightarrow> []
                      | (Err x, p) \<Rightarrow> []
                      | (Ok ah, p) \<Rightarrow>
                          (let s2 = s1\<lparr>journal := j2, journalPos := p\<rparr>
                           in case rerr of Some x \<Rightarrow> [] | None \<Rightarrow> recover_pending_tel F D n ah s2))))))
     @ [OEnd n ''integration.recover'']"

fun sup_tel ::
  "('u, 'env, 'arg) telemetry_deps \<Rightarrow>
   ('j, 'u, 'env, 'x, 'k, 'w, 'msg, 'ev, 'arg, 'hid) integration_deps \<Rightarrow> nat \<Rightarrow> 'env sup_state \<Rightarrow>
   ('j, 'u, 'env, 'x, 'k, 'w, 'hid) supervisor \<Rightarrow> 'x tel_op list" where
  "sup_tel F D n Recover s = recover_tel F D n s"
| "sup_tel F D n Idle s = []"
| "sup_tel F D n (AcceptCommand req) s = acceptCommand_tel F D n req s"

section \<open>What a state reports\<close>

text \<open>Each span is ended; at most one error is reported, and only by a state that fails.\<close>

definition state_tel_ok :: "('q, 'x, 's) state_result \<Rightarrow> 'x tel_op list \<Rightarrow> bool" where
  "state_tel_ok r ops \<longleftrightarrow> starts ops = ends ops \<and>
     errs ops \<le> (case r of Done (Fail x) s' \<Rightarrow> 1 | _ \<Rightarrow> 0) \<and>
     (\<forall>op \<in> set ops. \<forall>a \<in> set (op_attrs op). attr_ok a)"

lemma state_tel_ok_span:
  assumes "state_tel_ok r ops" "\<forall>a \<in> set attrs. attr_ok a"
  shows "state_tel_ok r (OStart name attrs # ops @ [OEnd n name])"
  using assms by (auto simp: state_tel_ok_def)

lemma state_tel_ok_simps [simp]:
  "state_tel_ok r (OInfo c ev msg as # ops) \<longleftrightarrow> (\<forall>a \<in> set as. attr_ok a) \<and> state_tel_ok r ops"
  "state_tel_ok r (OSet i as # ops) \<longleftrightarrow> (\<forall>a \<in> set as. attr_ok a) \<and> state_tel_ok r ops"
  "state_tel_ok r []" "state_tel_ok (Done (Fail x) s') [OError c ev y []]"
  by (auto simp: state_tel_ok_def)

text \<open>What is reported of an operation goes for the state that ends with its result.\<close>

lemma tel_ok_state:
  "tel_ok r ops \<Longrightarrow> (\<And>x. r = Err x \<Longrightarrow> \<exists>y s'. q = Done (Fail y) s') \<Longrightarrow> state_tel_ok q ops"
  by (cases r) (auto simp: tel_ok_def state_tel_ok_def)

lemma tel_ok_append: "tel_ok (Ok v) ops \<Longrightarrow> tel_ok r ops' \<Longrightarrow> tel_ok r (ops @ ops')"
  by (auto simp: tel_ok_def)

lemma append_all_tel_ok: "tel_ok (fst (append_all D ops s)) (append_all_tel D n ops s)"
proof (induction ops arbitrary: n s)
  case (Cons op ops)
  obtain r s' where r: "sup_appendEvents D False op s = (r, s')" by fastforce
  note t = appendEvents_tel_ok [of D False op s n, unfolded r fst_conv]
  show ?case
  proof (cases r)
    case (Ok u)
    with t tel_ok_append Cons.IH show ?thesis by (fastforce simp: r Let_def)
  qed (use t in \<open>simp_all add: r Let_def\<close>)
qed simp

lemma handle_all_tel_ok: "tel_ok (fst (handle_all D ops s)) (handle_all_tel F D n ops s)"
proof (induction ops arbitrary: n s)
  case (Cons op ops)
  obtain r s' where r: "sup_handleCommand D (ca_GetCommand op) s = (r, s')" by fastforce
  note t = handleCommand_tel_ok [of D "ca_GetCommand op" s F n, unfolded r fst_conv]
  show ?case
  proof (cases r)
    case (Ok u)
    with t tel_ok_append Cons.IH show ?thesis by (fastforce simp: r Let_def)
  qed (use t in \<open>simp_all add: r Let_def\<close>)
qed simp

lemma acks_fresh: "fresh_ack req \<Longrightarrow> (\<exists>c. Ack req = Proceeds c) \<and> (\<exists>c. Nack req = Proceeds c)"
  by (simp add: fresh_ack_def Ack_def Nack_def chan_defs)

lemma handled_state_ok:
  "state_tel_ok (case sup_handleCommand D env s of
       (Ok u, s4) \<Rightarrow> Done (EnterState Idle) s4
     | (Err x, s4) \<Rightarrow> Done (Fail x) s4
     | (Panic t, s4) \<Rightarrow> Panics t s4) (handleCommand_tel F D n env s)"
  by (rule tel_ok_state [OF handleCommand_tel_ok]) (auto split: prod.splits)

lemma acceptCommand_returns: "fresh_ack req \<Longrightarrow> sup_acceptCommand D req s \<noteq> Blocks s'"
  by (auto simp: sup_acceptCommand_def Let_def acknowledge_fresh split: prod.split outcome.split)

lemma acceptCommand_tel_ok:
  assumes fresh: "fresh_ack req"
  shows "state_tel_ok (sup_acceptCommand D req s) (acceptCommand_tel F D n req s)"
proof -
  obtain c c' where c: "Ack req = Proceeds c" "Nack req = Proceeds c'" using acks_fresh [OF fresh] by blast
  have e: "(case sup_acceptCommand D req s of Blocks s' \<Rightarrow> [] | _ \<Rightarrow> es) = es" for es :: "'x tel_op list"
    using acceptCommand_returns [OF fresh] by (cases "sup_acceptCommand D req s") auto
  show ?thesis
    unfolding acceptCommand_tel_def Let_def e
    by (rule state_tel_ok_span)
      (auto simp: sup_acceptCommand_def Let_def acknowledge_def c after_send_def handled_state_ok
      split: prod.split outcome.split)
qed

lemma recover_pending_tel_ok: "state_tel_ok (sup_recover_pending D ah s) (recover_pending_tel F D n ah s)"
proof (cases "length (fst ah) = 0 \<and> length (snd ah) = 0")
  case False
  obtain r1 s1 where one: "append_all D (snd ah) s = (r1, s1)" by fastforce
  obtain r2 s2 where two: "handle_all D (fst ah) s1 = (r2, s2)" by fastforce
  let ?ok = "[OInfo (Some n) ''integration.recover.ok'' ''all pending operations in journal are now complete'' []]"
  define t where "t = (if length (snd ah) \<noteq> 0
    then OInfo (Some n) ''integration.recover.unappended_event_found''
        ''journal contains events that have not yet been appended to an event stream'' []
      # append_all_tel D (Suc n) (snd ah) s
    else [])"
  define u where "u = (if length (fst ah) \<noteq> 0
    then OInfo (Some n) ''integration.recover.unhandled_command_found''
        ''journal contains commands that have been accepted but not yet handled'' []
      # handle_all_tel F D (Suc n + starts t) (fst ah) s1
    else [])"
  have t: "tel_ok r1 t" using append_all_tel_ok [of D "snd ah" s "Suc n"] one by (cases "snd ah") (auto simp: t_def)
  have u: "tel_ok r2 u" using handle_all_tel_ok [of D "fst ah" s1 F "Suc n + starts t"] two
    by (cases "fst ah") (auto simp: u_def)
  let ?tel = "t @ (case r1 of Ok _ \<Rightarrow> u @ (case r2 of Ok _ \<Rightarrow> ?ok | _ \<Rightarrow> []) | _ \<Rightarrow> [])"
  have tel: "recover_pending_tel F D n ah s =
      OSet n [attr_Int ''unhandled_commands'' (int (length (fst ah))), attr_Int ''unappended_events'' (int (length (snd ah)))] # ?tel"
    unfolding recover_pending_tel_def Let_def if_not_P [OF False] one prod.case t_def [symmetric] u_def [symmetric] two
    by (simp split: outcome.split)
  have "tel_ok (case r1 of Ok v \<Rightarrow> r2 | r \<Rightarrow> r) ?tel"
  proof (cases r1)
    case (Ok v)
    have "tel_ok r2 (u @ (case r2 of Ok _ \<Rightarrow> ?ok | _ \<Rightarrow> []))" using u by (cases r2) (auto simp: tel_ok_def)
    from tel_ok_append [OF t [unfolded Ok] this] Ok show ?thesis by simp
  qed (use t in auto)
  then have "state_tel_ok (sup_recover_pending D ah s) ?tel"
    by (rule tel_ok_state) (auto simp: sup_recover_pending_def one two split: outcome.splits)
  then show ?thesis unfolding tel by simp
qed (simp add: recover_pending_tel_def)

lemma recover_tel_ok: "state_tel_ok (sup_recover D s) (recover_tel F D n s)"
  unfolding recover_tel_def Let_def
  by (rule state_tel_ok_span)
    (auto simp: sup_recover_def Let_def recover_pending_tel_ok split: prod.split outcome.split option.split)

lemma sup_tel_ok:
  "(\<And>req. q = AcceptCommand req \<Longrightarrow> fresh_ack req) \<Longrightarrow> state_tel_ok (sup_machine D q s) (sup_tel F D n q s)"
  by (cases q) (simp_all add: recover_tel_ok acceptCommand_tel_ok)

section \<open>Properties\<close>

lemma tel_ok_counts:
  fixes tel :: "'x telemetry"
  assumes "new_Recorder T v p as = Ok r" and "tel_ok res ops"
  shows "\<exists>tel'. run_tel_ops T r ops tel = (Ok (), tel') \<and>
    total ''operations.in_flight'' tel' = total ''operations.in_flight'' tel \<and>
    total ''errors'' tel' = total ''errors'' tel + (case res of Err x \<Rightarrow> 1 | _ \<Rightarrow> 0)"
  using telemetry_counts [OF new_Recorder_ok [OF assms(1)], of ops T tel] assms(2)
  by (auto simp: tel_ok_def split: outcome.splits)

text \<open>
C39: The telemetry of the integration supervisor. Handling a command adds one to the errors
instrument when it returns an error and nothing when it does not, however deep in its calls the
error arose. Every state of the machine leaves the number of operations in flight as it was, on
errors and panics too, and reports at most one error, which it then fails with. No call on the
recorder panics, and none of this depends on the logger.
\<close>

theorem supervisor_telemetry:
  fixes tel :: "'x telemetry" and s :: "('j, 'u, 'env, 'x, 'k, 'w, 'hid) supervisor"
  assumes "new_Recorder T v p as = Ok r" and "\<And>req. q = AcceptCommand req \<Longrightarrow> req = Queue_New (Value req)"
  shows "(\<exists>tel'. run_tel_ops T r (handleCommand_tel F D (length (spans tel)) env s) tel = (Ok (), tel') \<and>
      total ''operations.in_flight'' tel' = total ''operations.in_flight'' tel \<and>
      total ''errors'' tel' = total ''errors'' tel + (case fst (sup_handleCommand D env s) of Err x \<Rightarrow> 1 | _ \<Rightarrow> 0)) \<and>
    (\<exists>tel'. run_tel_ops T r (sup_tel F D (length (spans tel)) q s) tel = (Ok (), tel') \<and>
      total ''operations.in_flight'' tel' = total ''operations.in_flight'' tel \<and>
      total ''errors'' tel \<le> total ''errors'' tel' \<and>
      total ''errors'' tel' \<le> total ''errors'' tel + (case sup_machine D q s of Done (Fail x) s' \<Rightarrow> 1 | _ \<Rightarrow> 0))"
proof -
  have "fresh_ack (Queue_New w)" for w :: "'env option" by (simp add: fresh_ack_def Queue_New_def)
  then have "fresh_ack req" if "q = AcceptCommand req" for req using assms(2) [OF that] by metis
  from sup_tel_ok [where D = D and s = s and F = F and n = "length (spans tel)", OF this]
  have ok: "state_tel_ok (sup_machine D q s) (sup_tel F D (length (spans tel)) q s)" .
  obtain tel' where "run_tel_ops T r (sup_tel F D (length (spans tel)) q s) tel = (Ok (), tel')"
    "total ''operations.in_flight'' tel' = total ''operations.in_flight'' tel"
    "total ''errors'' tel' = total ''errors'' tel + int (errs (sup_tel F D (length (spans tel)) q s))"
    using telemetry_counts [OF new_Recorder_ok [OF assms(1)], of "sup_tel F D (length (spans tel)) q s" T tel] ok
    by (auto simp: state_tel_ok_def)
  then show ?thesis using tel_ok_counts [OF assms(1) handleCommand_tel_ok] ok
    by (auto simp: state_tel_ok_def split: state_result.splits action.splits)
qed

text \<open>The command 7 of the example is handled: both instruments are back at 0.\<close>

definition integ_tel :: "(nat, nat, unit) telemetry_deps" where
  "integ_tel = \<lparr>AsString = \<lambda>u. ''id'', env_CorrelationId = id, env_MediaType = \<lambda>e. ''text'', env_Description = \<lambda>e. ''command'',
     Sprintf = \<lambda>f args. f\<rparr>"

theorem supervisor_telemetry_witness:
  "\<exists>r tel'. new_Recorder (example_otel :: (unit, unit, unit, unit, unit, bool, mem_err) otel) ''v1'' (None :: (unit, unit, unit) Provider option) [] = Ok r \<and>
    run_tel_ops example_otel r (handleCommand_tel integ_tel integ_mem 0 (Some 7)
      ((integ_state [])\<lparr>journal := integ_journal [accepted_record (Some 7)], journalPos := 1,
        replied := [acked (Queue_New (Some 7)) None]\<rparr>)) \<lparr>measurements = [], spans = [], logs = []\<rparr> = (Ok (), tel') \<and>
    total ''operations.in_flight'' tel' = 0 \<and> total ''errors'' tel' = 0"
proof -
  let ?s = "(integ_state [])\<lparr>journal := integ_journal [accepted_record (Some 7)], journalPos := 1,
      replied := [acked (Queue_New (Some 7)) None]\<rparr>"
  let ?tel = "\<lparr>measurements = [], spans = [], logs = []\<rparr> :: mem_err telemetry"
  obtain r where r: "new_Recorder (example_otel :: (unit, unit, unit, unit, unit, bool, mem_err) otel) ''v1''
      (None :: (unit, unit, unit) Provider option) [] = Ok r" using example_recorder by blast
  have "total n ?tel = 0" for n by (simp add: total_def)
  with supervisor_telemetry [OF r, where q = Idle and F = integ_tel and D = integ_mem and env = "Some 7" and s = ?s and tel = ?tel]
    integ_handle_command [of "[]"] r
  show ?thesis by auto
qed

text \<open>The error of the set of accepted commands ends the run, but is neither logged nor counted.\<close>

lemma Has_error_unreported:
  assumes "set_Has D (acceptedCommands s) (env_MessageId D (Value req)) = (Err x, k')" and "fresh_ack req"
  shows "(\<exists>s'. sup_acceptCommand D req s = Done (Fail x) s') \<and> errs (acceptCommand_tel F D n req s) = 0"
  using assms by (simp add: sup_acceptCommand_def acceptCommand_tel_def acknowledge_fresh Let_def split: state_result.split)

end
