(* ===== verification/Engine_Config.thy ===== *)
theory Engine_Config
  imports Telemetry
begin

text \<open>
  \<open>internal/engineconfig\<close> and \<open>engineoption.go\<close>: the configuration of an engine, built from
  the options, the environment and the application.

  Stores, providers, gRPC options, handlers, marshalers and identifiers are opaque. The code
  that is not part of the repository is an \<open>engine_deps\<close>: what the environment variables read
  as, the parsing and generation of UUIDs, the no-op and global providers, and the wrapping of
  the stores. A rich application is what its visitor is shown: identity, message types and
  handlers, in order. An identifier that does not parse and message types that cannot be
  marshaled are \<open>None\<close>; the texts of these two errors are not those of the libraries.
\<close>

section \<open>Data\<close>

record 'u identity =
  id_Name :: string
  id_Key :: 'u

record configkit_identity =
  ck_Name :: string
  ck_Key :: string

record ('u, 'mar) Packer =
  Site :: "'u identity option"
  Application :: "'u identity"
  Marshaler :: 'mar

text \<open>The fields of an integration supervisor that the configuration can set.\<close>

record ('h, 'u, 'js, 'ss, 'er, 'mar) supervisor_config =
  sc_Handler :: 'h
  sc_HandlerIdentity :: "'u identity"
  sc_Journals :: "'js option"
  sc_Sets :: "'ss option"
  sc_Packer :: "('u, 'mar) Packer"
  sc_Events :: "'er option"

text \<open>A command executor pushes to the command queue of a supervisor, named by its task.\<close>

record ('u, 'mar) CommandExecutor =
  ex_Commands :: nat
  ex_Packer :: "('u, 'mar) Packer"

record ('tp, 'mp, 'lp, 'js, 'ks, 'ss, 'd, 'so, 'u, 'ty, 'h, 'er, 'mar) Config =
  UseEnv :: bool
  SiteID :: "'u identity option"
  NodeID :: "'u option"
  Telemetry :: "('tp, 'mp, 'lp) Provider"
  Tasks :: "('h, 'u, 'js, 'ss, 'er, 'mar) supervisor_config list"
  Journals :: "'js option"
  Keyspaces :: "'ks option"
  Sets :: "'ss option"
  DialOptions :: "'d list"
  ServerOptions :: "'so list"
  ListenAddress :: string
  AdvertiseAddresses :: "string list"
  Executors :: "('ty \<rightharpoonup> ('u, 'mar) CommandExecutor) option"

definition zero_Config :: "('tp, 'mp, 'lp, 'js, 'ks, 'ss, 'd, 'so, 'u, 'ty, 'h, 'er, 'mar) Config" where
  "zero_Config = \<lparr>UseEnv = False, SiteID = None, NodeID = None,
     Telemetry = \<lparr>TracerProvider = None, MeterProvider = None, LoggerProvider = None, Attrs = []\<rparr>,
     Tasks = [], Journals = None, Keyspaces = None, Sets = None, DialOptions = [], ServerOptions = [],
     ListenAddress = [], AdvertiseAddresses = [], Executors = None\<rparr>"

section \<open>Options\<close>

datatype ('tp, 'mp, 'lp, 'js, 'ks, 'ss, 'd, 'so, 'u) EngineOption =
  OptEnvironment | OptNodeID 'u | OptTracerProvider 'tp | OptMeterProvider 'mp | OptLoggerProvider 'lp |
  OptJournals "'js option" | OptKeyspaces "'ks option" | OptSets "'ss option" | OptListenAddress string |
  OptAdvertiseAddresses "string list" | OptDialOptions "'d list" | OptServerOptions "'so list"

fun apply_option ::
  "('tp, 'mp, 'lp, 'js, 'ks, 'ss, 'd, 'so, 'u) EngineOption \<Rightarrow>
   ('tp, 'mp, 'lp, 'js, 'ks, 'ss, 'd, 'so, 'u, 'ty, 'h, 'er, 'mar) Config \<Rightarrow>
   ('tp, 'mp, 'lp, 'js, 'ks, 'ss, 'd, 'so, 'u, 'ty, 'h, 'er, 'mar) Config" where
  "apply_option OptEnvironment c = c\<lparr>UseEnv := True\<rparr>"
| "apply_option (OptNodeID i) c = c\<lparr>NodeID := Some i\<rparr>"
| "apply_option (OptTracerProvider p) c = c\<lparr>Telemetry := (Telemetry c)\<lparr>TracerProvider := Some p\<rparr>\<rparr>"
| "apply_option (OptMeterProvider p) c = c\<lparr>Telemetry := (Telemetry c)\<lparr>MeterProvider := Some p\<rparr>\<rparr>"
| "apply_option (OptLoggerProvider p) c = c\<lparr>Telemetry := (Telemetry c)\<lparr>LoggerProvider := Some p\<rparr>\<rparr>"
| "apply_option (OptJournals s) c = c\<lparr>Journals := s\<rparr>"
| "apply_option (OptKeyspaces s) c = c\<lparr>Keyspaces := s\<rparr>"
| "apply_option (OptSets s) c = c\<lparr>Sets := s\<rparr>"
| "apply_option (OptListenAddress a) c = c\<lparr>ListenAddress := a\<rparr>"
| "apply_option (OptAdvertiseAddresses as) c = c\<lparr>AdvertiseAddresses := as\<rparr>"
| "apply_option (OptDialOptions os) c = c\<lparr>DialOptions := DialOptions c @ os\<rparr>"
| "apply_option (OptServerOptions os) c = c\<lparr>ServerOptions := ServerOptions c @ os\<rparr>"

text \<open>The constructors, which panic when they are given nil or an invalid identifier.\<close>

definition WithOptionsFromEnvironment where
  "WithOptionsFromEnvironment = OptEnvironment"

definition WithNodeID :: "('u \<Rightarrow> string option) \<Rightarrow> 'u \<Rightarrow> (string, ('tp, 'mp, 'lp, 'js, 'ks, 'ss, 'd, 'so, 'u) EngineOption) outcome" where
  "WithNodeID Validate i = (case Validate i of Some e \<Rightarrow> Panic e | None \<Rightarrow> Ok (OptNodeID i))"

definition WithTracerProvider :: "'tp option \<Rightarrow> (string, ('tp, 'mp, 'lp, 'js, 'ks, 'ss, 'd, 'so, 'u) EngineOption) outcome" where
  "WithTracerProvider p =
     (case p of None \<Rightarrow> Panic ''tracer provider must not be nil'' | Some p \<Rightarrow> Ok (OptTracerProvider p))"

definition WithMetricProvider :: "'mp option \<Rightarrow> (string, ('tp, 'mp, 'lp, 'js, 'ks, 'ss, 'd, 'so, 'u) EngineOption) outcome" where
  "WithMetricProvider p =
     (case p of None \<Rightarrow> Panic ''metric provider must not be nil'' | Some p \<Rightarrow> Ok (OptMeterProvider p))"

definition WithLoggerProvider :: "'lp option \<Rightarrow> (string, ('tp, 'mp, 'lp, 'js, 'ks, 'ss, 'd, 'so, 'u) EngineOption) outcome" where
  "WithLoggerProvider p =
     (case p of None \<Rightarrow> Panic ''logger provider must not be nil'' | Some p \<Rightarrow> Ok (OptLoggerProvider p))"

definition WithJournalStore where "WithJournalStore s = OptJournals s"
definition WithKeyValueStore where "WithKeyValueStore s = OptKeyspaces s"
definition WithSetStore where "WithSetStore s = OptSets s"
definition WithGRPCListenAddress where "WithGRPCListenAddress addr = OptListenAddress addr"
definition WithGRPCAdvertiseAddresses where "WithGRPCAdvertiseAddresses addresses = OptAdvertiseAddresses addresses"
definition WithGRPCDialOptions where "WithGRPCDialOptions options = OptDialOptions options"
definition WithGRPCServerOptions where "WithGRPCServerOptions options = OptServerOptions options"

section \<open>Environment\<close>

record ('tp, 'mp, 'lp, 'js, 'ks, 'ss, 'u, 'ty, 'mar) engine_deps =
  env_NodeID :: "string option"
  env_JournalDSN :: "string option"
  env_KeyValueDSN :: "string option"
  env_SetDSN :: "string option"
  env_GRPCListenAddress :: "string option"
  env_GRPCAdvertiseAddresses :: "string option"
  uuid_Parse :: "string \<Rightarrow> 'u option"
  uuid_Validate :: "'u \<Rightarrow> string option"
  uuid_Generate :: 'u
  uuid_AsString :: "'u \<Rightarrow> string"
  DefaultGRPCPort :: string
  noop_providers :: "'tp \<times> 'mp \<times> 'lp"
  global_providers :: "'tp \<times> 'mp \<times> 'lp"
  journal_WithTelemetry :: "'js \<Rightarrow> 'tp option \<Rightarrow> 'mp option \<Rightarrow> 'lp option \<Rightarrow> 'js"
  kv_WithTelemetry :: "'ks \<Rightarrow> 'tp option \<Rightarrow> 'mp option \<Rightarrow> 'lp option \<Rightarrow> 'ks"
  set_WithTelemetry :: "'ss \<Rightarrow> 'tp option \<Rightarrow> 'mp option \<Rightarrow> 'lp option \<Rightarrow> 'ss"
  marshaler_New :: "'ty list \<Rightarrow> 'mar option"

text \<open>The constraints on the variables, of which \<open>ferrite\<close> only returns values that satisfy them.\<close>

definition nodeID_constraint :: "('tp, 'mp, 'lp, 'js, 'ks, 'ss, 'u, 'ty, 'mar) engine_deps \<Rightarrow> string \<Rightarrow> bool" where
  "nodeID_constraint D v = (case uuid_Parse D v of None \<Rightarrow> False | Some i \<Rightarrow> uuid_Validate D i = None)"

definition isNetworkAddress :: "string \<Rightarrow> bool" where
  "isNetworkAddress v =
     (case SplitHostPort v of
        Ok (host, port) \<Rightarrow> host = [] \<or> port = []
      | _ \<Rightarrow> True)"

definition advertise_constraint :: "string \<Rightarrow> bool" where
  "advertise_constraint v = list_all isNetworkAddress (Split (CHR '','') v)"

definition environment_ok :: "('tp, 'mp, 'lp, 'js, 'ks, 'ss, 'u, 'ty, 'mar) engine_deps \<Rightarrow> bool" where
  "environment_ok D \<longleftrightarrow> pred_option (nodeID_constraint D) (env_NodeID D) \<and>
     pred_option isNetworkAddress (env_GRPCListenAddress D) \<and>
     pred_option advertise_constraint (env_GRPCAdvertiseAddresses D)"

section \<open>Finalizing\<close>

definition finalizeNodeID ::
  "('tp, 'mp, 'lp, 'js, 'ks, 'ss, 'u, 'ty, 'mar) engine_deps \<Rightarrow>
   ('tp, 'mp, 'lp, 'js, 'ks, 'ss, 'd, 'so, 'u, 'ty, 'h, 'er, 'mar) Config \<Rightarrow>
   (string, ('tp, 'mp, 'lp, 'js, 'ks, 'ss, 'd, 'so, 'u, 'ty, 'h, 'er, 'mar) Config) outcome" where
  "finalizeNodeID D c =
     (if NodeID c \<noteq> None then Ok c
      else case (UseEnv c, env_NodeID D) of
             (True, Some v) \<Rightarrow>
               (case uuid_Parse D v of
                  None \<Rightarrow> Panic ''invalid UUID'' | Some i \<Rightarrow> Ok (c\<lparr>NodeID := Some i\<rparr>))
           | _ \<Rightarrow> Ok (c\<lparr>NodeID := Some (uuid_Generate D)\<rparr>))"

definition finalizeTelemetry ::
  "('tp, 'mp, 'lp, 'js, 'ks, 'ss, 'u, 'ty, 'mar) engine_deps \<Rightarrow>
   ('tp, 'mp, 'lp, 'js, 'ks, 'ss, 'd, 'so, 'u, 'ty, 'h, 'er, 'mar) Config \<Rightarrow>
   (string, ('tp, 'mp, 'lp, 'js, 'ks, 'ss, 'd, 'so, 'u, 'ty, 'h, 'er, 'mar) Config) outcome" where
  "finalizeTelemetry D c =
     (let T = Telemetry c;
          (tp, mp, lp) = (if UseEnv c then global_providers D else noop_providers D)
      in case NodeID c of
           None \<Rightarrow> Panic ''invalid memory address or nil pointer dereference''
         | Some i \<Rightarrow>
             Ok (c\<lparr>Telemetry := T\<lparr>
               TracerProvider := (case TracerProvider T of None \<Rightarrow> Some tp | Some p \<Rightarrow> Some p),
               MeterProvider := (case MeterProvider T of None \<Rightarrow> Some mp | Some p \<Rightarrow> Some p),
               LoggerProvider := (case LoggerProvider T of None \<Rightarrow> Some lp | Some p \<Rightarrow> Some p),
               Attrs := Attrs T @ [attr_UUID (uuid_AsString D) ''node_id'' i]\<rparr>\<rparr>))"

text \<open>A store named by a DSN: all three functions panic.\<close>

definition store_from_env :: "bool \<Rightarrow> string option \<Rightarrow> 's option \<Rightarrow> (string, 's option) outcome" where
  "store_from_env useEnv dsn s =
     (case (useEnv, s, dsn) of
        (True, None, Some url) \<Rightarrow> Panic ''not implemented''
      | _ \<Rightarrow> Ok s)"

definition stores_from_env ::
  "('tp, 'mp, 'lp, 'js, 'ks, 'ss, 'u, 'ty, 'mar) engine_deps \<Rightarrow>
   ('tp, 'mp, 'lp, 'js, 'ks, 'ss, 'd, 'so, 'u, 'ty, 'h, 'er, 'mar) Config \<Rightarrow>
   (string, 'js option \<times> 'ks option \<times> 'ss option) outcome" where
  "stores_from_env D c =
     (case store_from_env (UseEnv c) (env_JournalDSN D) (Journals c) of
        Panic t \<Rightarrow> Panic t | Err x \<Rightarrow> Err x
      | Ok js \<Rightarrow>
          (case store_from_env (UseEnv c) (env_KeyValueDSN D) (Keyspaces c) of
             Panic t \<Rightarrow> Panic t | Err x \<Rightarrow> Err x
           | Ok ks \<Rightarrow>
               (case store_from_env (UseEnv c) (env_SetDSN D) (Sets c) of
                  Panic t \<Rightarrow> Panic t | Err x \<Rightarrow> Err x
                | Ok ss \<Rightarrow> Ok (js, ks, ss))))"

definition finalizePersistence ::
  "('tp, 'mp, 'lp, 'js, 'ks, 'ss, 'u, 'ty, 'mar) engine_deps \<Rightarrow>
   ('tp, 'mp, 'lp, 'js, 'ks, 'ss, 'd, 'so, 'u, 'ty, 'h, 'er, 'mar) Config \<Rightarrow>
   (string, ('tp, 'mp, 'lp, 'js, 'ks, 'ss, 'd, 'so, 'u, 'ty, 'h, 'er, 'mar) Config) outcome" where
  "finalizePersistence D c =
     (let T = Telemetry c; tp = TracerProvider T; mp = MeterProvider T; lp = LoggerProvider T
      in case stores_from_env D c of
           Panic t \<Rightarrow> Panic t
         | Err x \<Rightarrow> Err x
         | Ok (None, _, _) \<Rightarrow>
             Panic ''no journal store is configured, set VERACITY_JOURNAL_DSN or provide the WithJournalStore() option''
         | Ok (Some js, None, _) \<Rightarrow>
             Panic ''no key/value store is configured, set VERACITY_KV_DSN or provide the WithKeyValueStore() option''
         | Ok (Some js, Some ks, None) \<Rightarrow>
             Panic ''no set store is configured, set VERACITY_SET_DSN or provide the WithSetStore() option''
         | Ok (Some js, Some ks, Some ss) \<Rightarrow>
             Ok (c\<lparr>Journals := Some (journal_WithTelemetry D js tp mp lp),
                   Keyspaces := Some (kv_WithTelemetry D ks tp mp lp),
                   Sets := Some (set_WithTelemetry D ss tp mp lp)\<rparr>))"

definition finalizeGRPC ::
  "('tp, 'mp, 'lp, 'js, 'ks, 'ss, 'u, 'ty, 'mar) engine_deps \<Rightarrow>
   ('tp, 'mp, 'lp, 'js, 'ks, 'ss, 'd, 'so, 'u, 'ty, 'h, 'er, 'mar) Config \<Rightarrow>
   ('tp, 'mp, 'lp, 'js, 'ks, 'ss, 'd, 'so, 'u, 'ty, 'h, 'er, 'mar) Config" where
  "finalizeGRPC D c =
     (let c1 = (if ListenAddress c = [] then
                  if UseEnv c then
                    (case env_GRPCListenAddress D of Some addr \<Rightarrow> c\<lparr>ListenAddress := addr\<rparr> | None \<Rightarrow> c)
                  else c\<lparr>ListenAddress := CHR '':'' # DefaultGRPCPort D\<rparr>
                else c)
      in if UseEnv c1 \<and> AdvertiseAddresses c1 = [] then
           (case env_GRPCAdvertiseAddresses D of
              Some addresses \<Rightarrow> c1\<lparr>AdvertiseAddresses := Split (CHR '','') addresses\<rparr> | None \<Rightarrow> c1)
         else c1)"

definition finalize ::
  "('tp, 'mp, 'lp, 'js, 'ks, 'ss, 'u, 'ty, 'mar) engine_deps \<Rightarrow>
   ('tp, 'mp, 'lp, 'js, 'ks, 'ss, 'd, 'so, 'u, 'ty, 'h, 'er, 'mar) Config \<Rightarrow>
   (string, ('tp, 'mp, 'lp, 'js, 'ks, 'ss, 'd, 'so, 'u, 'ty, 'h, 'er, 'mar) Config) outcome" where
  "finalize D c =
     (case finalizeNodeID D c of
        Panic t \<Rightarrow> Panic t | Err x \<Rightarrow> Err x
      | Ok c1 \<Rightarrow>
          (case finalizeTelemetry D c1 of
             Panic t \<Rightarrow> Panic t | Err x \<Rightarrow> Err x
           | Ok c2 \<Rightarrow>
               (case finalizePersistence D c2 of
                  Panic t \<Rightarrow> Panic t | Err x \<Rightarrow> Err x
                | Ok c3 \<Rightarrow> Ok (finalizeGRPC D c3))))"

section \<open>The application\<close>

datatype ('h, 'ty) rich_handler =
  RichAggregate | RichProcess | RichProjection |
  RichIntegration 'h configkit_identity "'ty list"

record ('h, 'ty) rich_application =
  app_Identity :: configkit_identity
  app_MessageTypes :: "'ty list"
  app_RichHandlers :: "('h, 'ty) rich_handler list"

definition marshalIdentity ::
  "('tp, 'mp, 'lp, 'js, 'ks, 'ss, 'u, 'ty, 'mar) engine_deps \<Rightarrow> configkit_identity \<Rightarrow> (string, 'u identity) outcome" where
  "marshalIdentity D i =
     (case uuid_Parse D (ck_Key i) of
        None \<Rightarrow> Panic ''invalid UUID'' | Some k \<Rightarrow> Ok \<lparr>id_Name = ck_Name i, id_Key = k\<rparr>)"

definition VisitRichIntegration ::
  "('tp, 'mp, 'lp, 'js, 'ks, 'ss, 'u, 'ty, 'mar) engine_deps \<Rightarrow> ('u, 'mar) Packer \<Rightarrow>
   'h \<Rightarrow> configkit_identity \<Rightarrow> 'ty list \<Rightarrow>
   ('tp, 'mp, 'lp, 'js, 'ks, 'ss, 'd, 'so, 'u, 'ty, 'h, 'er, 'mar) Config \<Rightarrow>
   (string, ('tp, 'mp, 'lp, 'js, 'ks, 'ss, 'd, 'so, 'u, 'ty, 'h, 'er, 'mar) Config) outcome" where
  "VisitRichIntegration D packer handler ident consumed c =
     (case marshalIdentity D ident of
        Panic t \<Rightarrow> Panic t | Err x \<Rightarrow> Err x
      | Ok i \<Rightarrow>
          (let task = \<lparr>sc_Handler = handler, sc_HandlerIdentity = i, sc_Journals = Journals c, sc_Sets = None,
                      sc_Packer = packer, sc_Events = None\<rparr>;
               exec = \<lparr>ex_Commands = length (Tasks c), ex_Packer = packer\<rparr>;
               m = (case Executors c of None \<Rightarrow> Map.empty | Some m \<Rightarrow> m)
           in Ok (c\<lparr>Tasks := Tasks c @ [task],
                    Executors := Some (fold (\<lambda>t m. m(t \<mapsto> exec)) consumed m)\<rparr>)))"

fun visit_handler ::
  "('tp, 'mp, 'lp, 'js, 'ks, 'ss, 'u, 'ty, 'mar) engine_deps \<Rightarrow> ('u, 'mar) Packer \<Rightarrow> ('h, 'ty) rich_handler \<Rightarrow>
   ('tp, 'mp, 'lp, 'js, 'ks, 'ss, 'd, 'so, 'u, 'ty, 'h, 'er, 'mar) Config \<Rightarrow>
   (string, ('tp, 'mp, 'lp, 'js, 'ks, 'ss, 'd, 'so, 'u, 'ty, 'h, 'er, 'mar) Config) outcome" where
  "visit_handler D pk (RichIntegration h i ts) c = VisitRichIntegration D pk h i ts c"
| "visit_handler D pk _ c = Ok c"

fun visit_handlers ::
  "('tp, 'mp, 'lp, 'js, 'ks, 'ss, 'u, 'ty, 'mar) engine_deps \<Rightarrow> ('u, 'mar) Packer \<Rightarrow> ('h, 'ty) rich_handler list \<Rightarrow>
   ('tp, 'mp, 'lp, 'js, 'ks, 'ss, 'd, 'so, 'u, 'ty, 'h, 'er, 'mar) Config \<Rightarrow>
   (string, ('tp, 'mp, 'lp, 'js, 'ks, 'ss, 'd, 'so, 'u, 'ty, 'h, 'er, 'mar) Config) outcome" where
  "visit_handlers D pk [] c = Ok c"
| "visit_handlers D pk (h # hs) c =
     (case visit_handler D pk h c of
        Ok c' \<Rightarrow> visit_handlers D pk hs c' | Err x \<Rightarrow> Err x | Panic t \<Rightarrow> Panic t)"

text \<open>An error of \<open>marshaler.New\<close> is returned, and \<open>New\<close> panics with it.\<close>

definition VisitRichApplication ::
  "('tp, 'mp, 'lp, 'js, 'ks, 'ss, 'u, 'ty, 'mar) engine_deps \<Rightarrow> ('h, 'ty) rich_application \<Rightarrow>
   ('tp, 'mp, 'lp, 'js, 'ks, 'ss, 'd, 'so, 'u, 'ty, 'h, 'er, 'mar) Config \<Rightarrow>
   (string, ('tp, 'mp, 'lp, 'js, 'ks, 'ss, 'd, 'so, 'u, 'ty, 'h, 'er, 'mar) Config) outcome" where
  "VisitRichApplication D app c =
     (case marshaler_New D (app_MessageTypes app) of
        None \<Rightarrow> Err ''cannot make a marshaler''
      | Some m \<Rightarrow>
          (case marshalIdentity D (app_Identity app) of
             Panic t \<Rightarrow> Panic t
           | Err x \<Rightarrow> Err x
           | Ok i \<Rightarrow>
               visit_handlers D \<lparr>Site = SiteID c, Application = i, Marshaler = m\<rparr> (app_RichHandlers app) c))"

definition engineconfig_New ::
  "('tp, 'mp, 'lp, 'js, 'ks, 'ss, 'u, 'ty, 'mar) engine_deps \<Rightarrow> ('h, 'ty) rich_application \<Rightarrow>
   ('tp, 'mp, 'lp, 'js, 'ks, 'ss, 'd, 'so, 'u) EngineOption list \<Rightarrow>
   (string, ('tp, 'mp, 'lp, 'js, 'ks, 'ss, 'd, 'so, 'u, 'ty, 'h, 'er, 'mar) Config) outcome" where
  "engineconfig_New D app options =
     (case finalize D (fold apply_option options zero_Config) of
        Panic t \<Rightarrow> Panic t
      | Err x \<Rightarrow> Panic x
      | Ok c \<Rightarrow>
          (case VisitRichApplication D app c of
             Ok c' \<Rightarrow> Ok c' | Err x \<Rightarrow> Panic x | Panic t \<Rightarrow> Panic t))"

section \<open>What the visitor leaves\<close>

fun integrations :: "('h, 'ty) rich_handler list \<Rightarrow> ('h \<times> configkit_identity \<times> 'ty list) list" where
  "integrations [] = []"
| "integrations (RichIntegration h i ts # hs) = (h, i, ts) # integrations hs"
| "integrations (_ # hs) = integrations hs"

text \<open>The task whose queue the commands of a type go to.\<close>

definition route_to :: "('tp, 'mp, 'lp, 'js, 'ks, 'ss, 'd, 'so, 'u, 'ty, 'h, 'er, 'mar) Config \<Rightarrow> 'ty \<Rightarrow> nat option" where
  "route_to c t = map_option ex_Commands (Option.bind (Executors c) (\<lambda>m. m t))"

definition last_consumer :: "('h \<times> configkit_identity \<times> 'ty list) list \<Rightarrow> 'ty \<Rightarrow> nat \<Rightarrow> bool" where
  "last_consumer ints t k \<longleftrightarrow> k < length ints \<and> t \<in> set (snd (snd (ints ! k))) \<and>
     (\<forall>j. k < j \<longrightarrow> j < length ints \<longrightarrow> t \<notin> set (snd (snd (ints ! j))))"

definition task_ok ::
  "'js option \<Rightarrow> 'h \<times> configkit_identity \<times> 'ty list \<Rightarrow> ('h, 'u, 'js, 'ss, 'er, 'mar) supervisor_config \<Rightarrow> bool" where
  "task_ok js h s \<longleftrightarrow> sc_Handler s = fst h \<and> id_Name (sc_HandlerIdentity s) = ck_Name (fst (snd h)) \<and>
     sc_Journals s = js \<and> sc_Sets s = None \<and> sc_Events s = None"

definition visited ::
  "('h \<times> configkit_identity \<times> 'ty list) list \<Rightarrow> ('tp, 'mp, 'lp, 'js, 'ks, 'ss, 'd, 'so, 'u, 'ty, 'h, 'er, 'mar) Config \<Rightarrow> bool" where
  "visited ints c \<longleftrightarrow> list_all2 (task_ok (Journals c)) ints (Tasks c) \<and>
     (\<forall>t k. route_to c t = Some k \<longleftrightarrow> last_consumer ints t k) \<and>
     (\<forall>m t e. Executors c = Some m \<longrightarrow> m t = Some e \<longrightarrow> ex_Packer e = sc_Packer (Tasks c ! ex_Commands e))"

lemma visited_executor:
  assumes "visited ints c" and "Executors c = Some m" and "m t = Some e"
  shows "ex_Commands e < length (Tasks c)" "last_consumer ints t (ex_Commands e)"
    "task_ok (Journals c) (ints ! ex_Commands e) (Tasks c ! ex_Commands e)"
    "ex_Packer e = sc_Packer (Tasks c ! ex_Commands e)"
proof -
  have "route_to c t = Some (ex_Commands e)" using assms by (simp add: route_to_def)
  then show l: "last_consumer ints t (ex_Commands e)" using assms(1) by (simp add: visited_def)
  have a: "list_all2 (task_ok (Journals c)) ints (Tasks c)" using assms(1) by (simp add: visited_def)
  have k: "ex_Commands e < length ints" using l by (simp add: last_consumer_def)
  show "ex_Commands e < length (Tasks c)" using k list_all2_lengthD [OF a] by simp
  show "task_ok (Journals c) (ints ! ex_Commands e) (Tasks c ! ex_Commands e)" by (rule list_all2_nthD [OF a k])
  show "ex_Packer e = sc_Packer (Tasks c ! ex_Commands e)" using assms by (simp add: visited_def)
qed

lemma visited_task:
  assumes "visited ints c" and "task \<in> set (Tasks c)"
  shows "\<exists>h \<in> set ints. task_ok (Journals c) h task"
proof -
  obtain k where k: "k < length (Tasks c)" "task = Tasks c ! k" using assms(2) by (auto simp: in_set_conv_nth)
  have a: "list_all2 (task_ok (Journals c)) ints (Tasks c)" using assms(1) by (simp add: visited_def)
  have "k < length ints" using k(1) list_all2_lengthD [OF a] by simp
  with list_all2_nthD2 [OF a k(1)] k(2) show ?thesis by (auto intro: bexI [of _ "ints ! k"])
qed

lemma visited_route: "visited ints c \<Longrightarrow> route_to c t = Some k \<longleftrightarrow> last_consumer ints t k"
  by (simp add: visited_def)

lemma fold_update: "fold (\<lambda>t m. m(t \<mapsto> e)) ts m = (\<lambda>x. if x \<in> set ts then Some e else m x)"
  by (induction ts arbitrary: m) (auto simp: fun_eq_iff)

lemma last_consumer_snoc:
  "last_consumer (ints @ [h]) t k \<longleftrightarrow>
     (if t \<in> set (snd (snd h)) then k = length ints else last_consumer ints t k)"
  by (auto simp: last_consumer_def nth_append less_Suc_eq)

definition new_task ::
  "'h \<Rightarrow> string \<Rightarrow> 'u \<Rightarrow> ('u, 'mar) Packer \<Rightarrow> 'js option \<Rightarrow> ('h, 'u, 'js, 'ss, 'er, 'mar) supervisor_config" where
  "new_task h n k pk js = \<lparr>sc_Handler = h, sc_HandlerIdentity = \<lparr>id_Name = n, id_Key = k\<rparr>, sc_Journals = js,
    sc_Sets = None, sc_Packer = pk, sc_Events = None\<rparr>"

lemma VisitRichIntegration_eq:
  "uuid_Parse D (ck_Key i) = Some k \<Longrightarrow> VisitRichIntegration D pk h i ts c =
     Ok (c\<lparr>Tasks := Tasks c @ [new_task h (ck_Name i) k pk (Journals c)],
       Executors := Some (\<lambda>x. if x \<in> set ts then Some \<lparr>ex_Commands = length (Tasks c), ex_Packer = pk\<rparr>
         else (case Executors c of None \<Rightarrow> Map.empty | Some m \<Rightarrow> m) x)\<rparr>)"
  by (simp add: VisitRichIntegration_def marshalIdentity_def Let_def fold_update new_task_def)

lemma VisitRichIntegration_visited:
  assumes v: "visited ints c" and r: "VisitRichIntegration D pk h i ts c = Ok c'"
  shows "visited (ints @ [(h, i, ts)]) c'" "\<exists>tasks ex. c' = c\<lparr>Tasks := tasks, Executors := ex\<rparr>"
proof -
  obtain k where k: "uuid_Parse D (ck_Key i) = Some k"
    using r by (auto simp: VisitRichIntegration_def marshalIdentity_def split: option.splits)
  then have c': "c' = c\<lparr>Tasks := Tasks c @ [new_task h (ck_Name i) k pk (Journals c)],
       Executors := Some (\<lambda>x. if x \<in> set ts then Some \<lparr>ex_Commands = length (Tasks c), ex_Packer = pk\<rparr>
         else (case Executors c of None \<Rightarrow> Map.empty | Some m \<Rightarrow> m) x)\<rparr>"
    using r by (simp add: VisitRichIntegration_eq)
  then show "\<exists>tasks ex. c' = c\<lparr>Tasks := tasks, Executors := ex\<rparr>" by blast
  have len: "length (Tasks c) = length ints" using v by (auto simp: visited_def dest: list_all2_lengthD)
  have "route_to c' t = (if t \<in> set ts then Some (length ints) else route_to c t)" for t
    by (simp add: c' route_to_def len split: option.split)
  then have "route_to c' t = Some n \<longleftrightarrow> last_consumer (ints @ [(h, i, ts)]) t n" for t n
    using v by (auto simp: visited_def last_consumer_snoc)
  moreover have "list_all2 (task_ok (Journals c')) (ints @ [(h, i, ts)]) (Tasks c')"
    using v by (simp add: c' visited_def list_all2_appendI task_ok_def new_task_def)
  moreover have "ex_Packer e = sc_Packer (Tasks c' ! ex_Commands e)" if "Executors c' = Some m" "m t = Some e" for m t e
  proof (cases "t \<in> set ts")
    case True
    with that show ?thesis by (auto simp: c' nth_append new_task_def)
  next
    case False
    with that obtain m0 where m0: "Executors c = Some m0" "m0 t = Some e" by (auto simp: c' split: option.splits)
    with visited_executor [OF v] show ?thesis by (simp add: c' nth_append)
  qed
  ultimately show "visited (ints @ [(h, i, ts)]) c'" by (simp add: visited_def)
qed

lemma visit_handlers_visited:
  "visit_handlers D pk hs c = Ok c' \<Longrightarrow> visited ints c \<Longrightarrow>
     visited (ints @ integrations hs) c' \<and> (\<exists>tasks ex. c' = c\<lparr>Tasks := tasks, Executors := ex\<rparr>)"
proof (induction hs arbitrary: c ints)
  case Nil
  then show ?case by (auto intro!: exI [of _ "Tasks c"] exI [of _ "Executors c"])
next
  case (Cons hd hs)
  show ?case
  proof (cases hd)
    case (RichIntegration h i ts)
    then obtain c1 where c1: "VisitRichIntegration D pk h i ts c = Ok c1" "visit_handlers D pk hs c1 = Ok c'"
      using Cons.prems(1) by (auto split: outcome.splits)
    note v = VisitRichIntegration_visited [OF Cons.prems(2) c1(1)]
    from Cons.IH [OF c1(2) v(1)] v(2) RichIntegration show ?thesis by (fastforce simp: append_assoc)
  qed (use Cons in auto)
qed

text \<open>A configuration is made if all handlers have identifiers.\<close>

definition parses :: "('tp, 'mp, 'lp, 'js, 'ks, 'ss, 'u, 'ty, 'mar) engine_deps \<Rightarrow> configkit_identity \<Rightarrow> bool" where
  "parses D i \<longleftrightarrow> uuid_Parse D (ck_Key i) \<noteq> None"

lemma visit_handlers_ok:
  "case visit_handlers D pk hs c of
     Ok c' \<Rightarrow> \<forall>(h, i, ts) \<in> set (integrations hs). parses D i
   | Err x \<Rightarrow> False
   | Panic t \<Rightarrow> \<not> (\<forall>(h, i, ts) \<in> set (integrations hs). parses D i)"
proof (induction hs arbitrary: c)
  case (Cons hd hs)
  show ?case
  proof (cases hd)
    case (RichIntegration h i ts)
    show ?thesis
    proof (cases "uuid_Parse D (ck_Key i)")
      case None
      with RichIntegration show ?thesis by (simp add: VisitRichIntegration_def marshalIdentity_def parses_def)
    next
      case (Some k)
      define c1 where "c1 = c\<lparr>Tasks := Tasks c @ [new_task h (ck_Name i) k pk (Journals c)],
        Executors := Some (\<lambda>x. if x \<in> set ts then Some \<lparr>ex_Commands = length (Tasks c), ex_Packer = pk\<rparr>
          else (case Executors c of None \<Rightarrow> Map.empty | Some m \<Rightarrow> m) x)\<rparr>"
      have eq: "visit_handlers D pk (hd # hs) c = visit_handlers D pk hs c1"
        using RichIntegration by (simp add: VisitRichIntegration_eq [OF Some] c1_def)
      show ?thesis unfolding eq using Some RichIntegration Cons.IH [of c1]
        by (simp add: parses_def cong: outcome.case_cong)
    qed
  qed (use Cons.IH in \<open>simp_all cong: outcome.case_cong\<close>)
qed simp

section \<open>What finalizing leaves\<close>

lemma options_keep:
  "Tasks (fold apply_option opts c) = Tasks c \<and> Executors (fold apply_option opts c) = Executors c"
proof (induction opts arbitrary: c)
  case (Cons o' opts)
  have "Tasks (apply_option o' c) = Tasks c \<and> Executors (apply_option o' c) = Executors c"
    by (cases o') simp_all
  with Cons show ?case by simp
qed simp

definition or_else :: "'a option \<Rightarrow> 'a \<Rightarrow> 'a option" where
  "or_else x d = (case x of None \<Rightarrow> Some d | Some v \<Rightarrow> Some v)"

text \<open>When finalizing succeeds: the options give all three stores, and the environment a valid identifier.\<close>

definition options_ok ::
  "('tp, 'mp, 'lp, 'js, 'ks, 'ss, 'u, 'ty, 'mar) engine_deps \<Rightarrow>
   ('tp, 'mp, 'lp, 'js, 'ks, 'ss, 'd, 'so, 'u, 'ty, 'h, 'er, 'mar) Config \<Rightarrow> bool" where
  "options_ok D c \<longleftrightarrow> Journals c \<noteq> None \<and> Keyspaces c \<noteq> None \<and> Sets c \<noteq> None \<and>
     (NodeID c = None \<longrightarrow> UseEnv c \<longrightarrow> (\<forall>v. env_NodeID D = Some v \<longrightarrow> uuid_Parse D v \<noteq> None))"

text \<open>
  What is the same in the result as in the options, and what is filled in. An option that was
  given is never overridden by the environment.
\<close>

definition finalized ::
  "('tp, 'mp, 'lp, 'js, 'ks, 'ss, 'u, 'ty, 'mar) engine_deps \<Rightarrow>
   ('tp, 'mp, 'lp, 'js, 'ks, 'ss, 'd, 'so, 'u, 'ty, 'h, 'er, 'mar) Config \<Rightarrow>
   ('tp, 'mp, 'lp, 'js, 'ks, 'ss, 'd, 'so, 'u, 'ty, 'h, 'er, 'mar) Config \<Rightarrow> bool" where
  "finalized D c0 c \<longleftrightarrow>
     (let (tp, mp, lp) = (if UseEnv c0 then global_providers D else noop_providers D);
          T = Telemetry c; T0 = Telemetry c0
      in NodeID c = (case NodeID c0 of Some i \<Rightarrow> Some i | None \<Rightarrow>
           (case (UseEnv c0, env_NodeID D) of (True, Some v) \<Rightarrow> uuid_Parse D v | _ \<Rightarrow> Some (uuid_Generate D))) \<and>
         NodeID c \<noteq> None \<and>
         TracerProvider T = or_else (TracerProvider T0) tp \<and> MeterProvider T = or_else (MeterProvider T0) mp \<and>
         LoggerProvider T = or_else (LoggerProvider T0) lp \<and>
         Journals c = map_option (\<lambda>s. journal_WithTelemetry D s (TracerProvider T) (MeterProvider T) (LoggerProvider T)) (Journals c0) \<and>
         Keyspaces c = map_option (\<lambda>s. kv_WithTelemetry D s (TracerProvider T) (MeterProvider T) (LoggerProvider T)) (Keyspaces c0) \<and>
         Sets c = map_option (\<lambda>s. set_WithTelemetry D s (TracerProvider T) (MeterProvider T) (LoggerProvider T)) (Sets c0) \<and>
         Journals c \<noteq> None \<and> Keyspaces c \<noteq> None \<and> Sets c \<noteq> None \<and>
         ListenAddress c = (if ListenAddress c0 \<noteq> [] then ListenAddress c0
           else if UseEnv c0 then (case env_GRPCListenAddress D of Some a \<Rightarrow> a | None \<Rightarrow> [])
           else CHR '':'' # DefaultGRPCPort D) \<and>
         AdvertiseAddresses c = (if AdvertiseAddresses c0 \<noteq> [] \<or> \<not> UseEnv c0 then AdvertiseAddresses c0
           else (case env_GRPCAdvertiseAddresses D of Some v \<Rightarrow> Split (CHR '','') v | None \<Rightarrow> [])) \<and>
         DialOptions c = DialOptions c0 \<and> ServerOptions c = ServerOptions c0)"

lemma finalizeGRPC_fields:
  "Tasks (finalizeGRPC D c) = Tasks c" "Executors (finalizeGRPC D c) = Executors c"
  "NodeID (finalizeGRPC D c) = NodeID c" "Telemetry (finalizeGRPC D c) = Telemetry c"
  "Journals (finalizeGRPC D c) = Journals c" "Keyspaces (finalizeGRPC D c) = Keyspaces c"
  "Sets (finalizeGRPC D c) = Sets c" "DialOptions (finalizeGRPC D c) = DialOptions c"
  "ServerOptions (finalizeGRPC D c) = ServerOptions c"
  "ListenAddress (finalizeGRPC D c) = (if ListenAddress c \<noteq> [] then ListenAddress c
     else if UseEnv c then (case env_GRPCListenAddress D of Some a \<Rightarrow> a | None \<Rightarrow> [])
     else CHR '':'' # DefaultGRPCPort D)"
  "AdvertiseAddresses (finalizeGRPC D c) = (if AdvertiseAddresses c \<noteq> [] \<or> \<not> UseEnv c then AdvertiseAddresses c
     else (case env_GRPCAdvertiseAddresses D of Some v \<Rightarrow> Split (CHR '','') v | None \<Rightarrow> []))"
  by (simp_all add: finalizeGRPC_def Let_def split: option.split)

lemma store_from_env_cases:
  "store_from_env e dsn s = (if e \<and> s = None \<and> dsn \<noteq> None then Panic ''not implemented'' else Ok s)"
  by (auto simp: store_from_env_def split: option.split bool.split)

lemma finalizeNodeID_result:
  "case finalizeNodeID D c of
     Ok c' \<Rightarrow> (\<exists>i. c' = c\<lparr>NodeID := Some i\<rparr> \<and>
       Some i = (case NodeID c of Some i \<Rightarrow> Some i | None \<Rightarrow> (case (UseEnv c, env_NodeID D) of (True, Some v) \<Rightarrow> uuid_Parse D v
              | _ \<Rightarrow> Some (uuid_Generate D)))) \<and>
       (NodeID c = None \<longrightarrow> UseEnv c \<longrightarrow> (\<forall>v. env_NodeID D = Some v \<longrightarrow> uuid_Parse D v \<noteq> None))
   | Err x \<Rightarrow> False
   | Panic t \<Rightarrow> NodeID c = None \<and> UseEnv c \<and> (\<exists>v. env_NodeID D = Some v \<and> uuid_Parse D v = None)"
  by (auto simp: finalizeNodeID_def split: option.splits bool.splits)

lemma finalizePersistence_result:
  "case finalizePersistence D c of
     Ok c' \<Rightarrow> (\<exists>js ks ss. Journals c = Some js \<and> Keyspaces c = Some ks \<and> Sets c = Some ss \<and>
       c' = (let T = Telemetry c; tp = TracerProvider T; mp = MeterProvider T; lp = LoggerProvider T
         in c\<lparr>Journals := Some (journal_WithTelemetry D js tp mp lp), Keyspaces := Some (kv_WithTelemetry D ks tp mp lp),
              Sets := Some (set_WithTelemetry D ss tp mp lp)\<rparr>))
   | Err x \<Rightarrow> False
   | Panic t \<Rightarrow> Journals c = None \<or> Keyspaces c = None \<or> Sets c = None"
  by (simp add: finalizePersistence_def stores_from_env_def store_from_env_cases Let_def split: option.split)

lemma finalize_result:
  "case finalize D c0 of
     Ok c \<Rightarrow> options_ok D c0 \<and> finalized D c0 c \<and> Tasks c = Tasks c0 \<and> Executors c = Executors c0
   | Err x \<Rightarrow> False
   | Panic t \<Rightarrow> \<not> options_ok D c0"
proof (cases "finalizeNodeID D c0")
  case n: (Ok c1)
  then obtain i where c1: "c1 = c0\<lparr>NodeID := Some i\<rparr>"
    and i: "Some i = (case NodeID c0 of Some i \<Rightarrow> Some i | None \<Rightarrow> (case (UseEnv c0, env_NodeID D) of
      (True, Some v) \<Rightarrow> uuid_Parse D v | _ \<Rightarrow> Some (uuid_Generate D)))"
    and env: "NodeID c0 = None \<longrightarrow> UseEnv c0 \<longrightarrow> (\<forall>v. env_NodeID D = Some v \<longrightarrow> uuid_Parse D v \<noteq> None)"
    using finalizeNodeID_result [where D = D and c = c0] by auto
  obtain tp mp lp where ps: "(if UseEnv c0 then global_providers D else noop_providers D) = (tp, mp, lp)"
    by (cases "if UseEnv c0 then global_providers D else noop_providers D") auto
  define T where "T = (Telemetry c0)\<lparr>TracerProvider := or_else (TracerProvider (Telemetry c0)) tp,
     MeterProvider := or_else (MeterProvider (Telemetry c0)) mp,
     LoggerProvider := or_else (LoggerProvider (Telemetry c0)) lp,
     Attrs := Attrs (Telemetry c0) @ [attr_UUID (uuid_AsString D) ''node_id'' i]\<rparr>"
  define c2 where "c2 = c1\<lparr>Telemetry := T\<rparr>"
  have t: "finalizeTelemetry D c1 = Ok c2"
    using ps by (simp add: finalizeTelemetry_def c1 c2_def T_def or_else_def Let_def)
  show ?thesis
  proof (cases "finalizePersistence D c2")
    case p: (Ok c3)
    from finalizePersistence_result [where D = D and c = c2] p obtain js ks ss where
      st: "Journals c0 = Some js" "Keyspaces c0 = Some ks" "Sets c0 = Some ss"
      and c3: "c3 = c2\<lparr>Journals := Some (journal_WithTelemetry D js (TracerProvider T) (MeterProvider T) (LoggerProvider T)),
        Keyspaces := Some (kv_WithTelemetry D ks (TracerProvider T) (MeterProvider T) (LoggerProvider T)),
        Sets := Some (set_WithTelemetry D ss (TracerProvider T) (MeterProvider T) (LoggerProvider T))\<rparr>"
      by (auto simp: c2_def c1 Let_def)
    have id: "NodeID (finalizeGRPC D c3) = (case NodeID c0 of Some i \<Rightarrow> Some i | None \<Rightarrow>
        (case (UseEnv c0, env_NodeID D) of (True, Some v) \<Rightarrow> uuid_Parse D v | _ \<Rightarrow> Some (uuid_Generate D)))"
      using i by (simp add: finalizeGRPC_fields c3 c2_def c1)
    have "finalized D c0 (finalizeGRPC D c3)"
      unfolding finalized_def Let_def ps prod.case
      by (intro conjI id [unfolded prod.case]) (simp_all add: finalizeGRPC_fields c3 c2_def c1 st T_def)
    with n t p st env show ?thesis
      by (simp add: finalize_def options_ok_def finalizeGRPC_fields c3 c2_def c1)
  next
    case (Err x)
    with finalizePersistence_result [where D = D and c = c2] show ?thesis by simp
  next
    case (Panic e)
    with finalizePersistence_result [where D = D and c = c2] n t show ?thesis
      by (auto simp: finalize_def options_ok_def c2_def c1)
  qed
next
  case (Err x)
  with finalizeNodeID_result [where D = D and c = c0] show ?thesis by simp
next
  case (Panic e)
  with finalizeNodeID_result [where D = D and c = c0] show ?thesis by (auto simp: finalize_def options_ok_def)
qed

text \<open>Dependencies where every identifier is 7 and everything else that is opaque is trivial.\<close>

definition example_deps :: "(unit, unit, unit, nat, nat, nat, nat, string, unit) engine_deps" where
  "example_deps = \<lparr>env_NodeID = None, env_JournalDSN = None, env_KeyValueDSN = None, env_SetDSN = None,
     env_GRPCListenAddress = Some ''localhost:50555'', env_GRPCAdvertiseAddresses = None, uuid_Parse = \<lambda>s. Some 7,
     uuid_Validate = \<lambda>i. None, uuid_Generate = 7, uuid_AsString = \<lambda>i. ''7'', DefaultGRPCPort = ''50555'',
     noop_providers = ((), (), ()), global_providers = ((), (), ()), journal_WithTelemetry = \<lambda>s t m l. s,
     kv_WithTelemetry = \<lambda>s t m l. s, set_WithTelemetry = \<lambda>s t m l. s, marshaler_New = \<lambda>ts. Some ()\<rparr>"

section \<open>Making a configuration\<close>

lemma VisitRichApplication_result:
  assumes "Tasks c = []" and "Executors c = None"
  shows "case VisitRichApplication D app c of
     Ok c' \<Rightarrow> marshaler_New D (app_MessageTypes app) \<noteq> None \<and> parses D (app_Identity app) \<and>
       (\<forall>(h, i, ts) \<in> set (integrations (app_RichHandlers app)). parses D i) \<and>
       visited (integrations (app_RichHandlers app)) c' \<and> (\<exists>tasks ex. c' = c\<lparr>Tasks := tasks, Executors := ex\<rparr>)
   | _ \<Rightarrow> marshaler_New D (app_MessageTypes app) = None \<or> \<not> parses D (app_Identity app) \<or>
       \<not> (\<forall>(h, i, ts) \<in> set (integrations (app_RichHandlers app)). parses D i)"
proof (cases "marshaler_New D (app_MessageTypes app)")
  case (Some m)
  show ?thesis
  proof (cases "uuid_Parse D (ck_Key (app_Identity app))")
    case k: (Some k)
    define pk where "pk = \<lparr>Site = SiteID c, Application = \<lparr>id_Name = ck_Name (app_Identity app), id_Key = k\<rparr>, Marshaler = m\<rparr>"
    have eq: "VisitRichApplication D app c = visit_handlers D pk (app_RichHandlers app) c"
      by (simp add: VisitRichApplication_def Some marshalIdentity_def k pk_def)
    have v0: "visited [] c" using assms by (simp add: visited_def route_to_def last_consumer_def)
    show ?thesis
    proof (cases "visit_handlers D pk (app_RichHandlers app) c")
      case r: (Ok c')
      have "visited (integrations (app_RichHandlers app)) c' \<and> (\<exists>tasks ex. c' = c\<lparr>Tasks := tasks, Executors := ex\<rparr>)"
        using visit_handlers_visited [OF r v0] by simp
      moreover have "\<forall>(h, i, ts) \<in> set (integrations (app_RichHandlers app)). parses D i"
        using visit_handlers_ok [where D = D and pk = pk and hs = "app_RichHandlers app" and c = c] r by simp
      ultimately show ?thesis by (simp add: eq r Some k parses_def [of D "app_Identity app"])
    qed (use visit_handlers_ok [where D = D and pk = pk and hs = "app_RichHandlers app" and c = c] in \<open>simp_all add: eq\<close>)
  qed (simp add: VisitRichApplication_def Some marshalIdentity_def parses_def)
qed (simp add: VisitRichApplication_def)

definition application_ok ::
  "('tp, 'mp, 'lp, 'js, 'ks, 'ss, 'u, 'ty, 'mar) engine_deps \<Rightarrow> ('h, 'ty) rich_application \<Rightarrow> bool" where
  "application_ok D app \<longleftrightarrow> marshaler_New D (app_MessageTypes app) \<noteq> None \<and> parses D (app_Identity app) \<and>
     (\<forall>(h, i, ts) \<in> set (integrations (app_RichHandlers app)). parses D i)"

lemma finalized_some:
  "finalized D c0 c \<Longrightarrow> NodeID c \<noteq> None \<and> Journals c \<noteq> None \<and> Keyspaces c \<noteq> None \<and> Sets c \<noteq> None"
  unfolding finalized_def Let_def split_def by blast

lemma finalized_frame: "finalized D c0 (c\<lparr>Tasks := tasks, Executors := ex\<rparr>) = finalized D c0 c"
  by (simp add: finalized_def split del: if_split)

lemma New_cases:
  fixes D :: "('tp, 'mp, 'lp, 'js, 'ks, 'ss, 'u, 'ty, 'mar) engine_deps"
    and opts :: "('tp, 'mp, 'lp, 'js, 'ks, 'ss, 'd, 'so, 'u) EngineOption list"
  shows "let c0 = (fold apply_option opts zero_Config :: ('tp, 'mp, 'lp, 'js, 'ks, 'ss, 'd, 'so, 'u, 'ty, 'h, 'er, 'mar) Config)
    in case engineconfig_New D app opts of
         Ok c \<Rightarrow> options_ok D c0 \<and> application_ok D app \<and>
           finalized D c0 c \<and> visited (integrations (app_RichHandlers app)) c
       | Err x \<Rightarrow> False
       | Panic t \<Rightarrow> \<not> (options_ok D c0 \<and> application_ok D app)"
proof -
  define c0 :: "('tp, 'mp, 'lp, 'js, 'ks, 'ss, 'd, 'so, 'u, 'ty, 'h, 'er, 'mar) Config" where
    "c0 = fold apply_option opts zero_Config"
  have z: "Tasks c0 = [] \<and> Executors c0 = None" unfolding c0_def by (simp add: options_keep zero_Config_def)
  show ?thesis
  proof (cases "finalize D c0")
    case f: (Ok c)
    have fin: "options_ok D c0" "finalized D c0 c" "Tasks c = []" "Executors c = None"
      using finalize_result [where D = D and ?c0.0 = c0] f z by auto
    show ?thesis
    proof (cases "VisitRichApplication D app c")
      case (Ok c')
      with VisitRichApplication_result [OF fin(3,4), of D app] f fin show ?thesis
        by (auto simp: engineconfig_New_def Let_def c0_def [symmetric] application_ok_def finalized_frame)
    qed (use VisitRichApplication_result [OF fin(3,4), of D app] f in
         \<open>auto simp: engineconfig_New_def Let_def c0_def [symmetric] application_ok_def\<close>)
  qed (use finalize_result [where D = D and ?c0.0 = c0] in \<open>simp_all add: engineconfig_New_def Let_def c0_def [symmetric]\<close>)
qed

lemma New_visited:
  fixes c :: "('tp, 'mp, 'lp, 'js, 'ks, 'ss, 'd, 'so, 'u, 'ty, 'h, 'er, 'mar) Config"
  assumes "engineconfig_New D app opts = Ok c"
  shows "visited (integrations (app_RichHandlers app)) c" "NodeID c \<noteq> None" "Journals c \<noteq> None" "Keyspaces c \<noteq> None"
    "Sets c \<noteq> None"
  using New_cases [where 'er = 'er and D = D and app = app and opts = opts] assms by (auto simp: Let_def dest: finalized_some)

text \<open>
C23: \<open>New\<close> makes a configuration exactly when the options give all three stores, the node
  identifier of the environment is valid where it is used, and the application can be marshaled
  and identified; otherwise it panics. In the configuration no option is overridden by the
  environment, what was left open has its default, the stores are wrapped with the telemetry of
  the configuration, there is one task for each integration in order, and the commands of a type
  are routed to the task of the last integration that consumes it, packed by the packer of that task.
\<close>

theorem New_result:
  fixes D :: "('tp, 'mp, 'lp, 'js, 'ks, 'ss, 'u, 'ty, 'mar) engine_deps"
    and opts :: "('tp, 'mp, 'lp, 'js, 'ks, 'ss, 'd, 'so, 'u) EngineOption list"
  shows "let c0 = (fold apply_option opts zero_Config :: ('tp, 'mp, 'lp, 'js, 'ks, 'ss, 'd, 'so, 'u, 'ty, 'h, 'er, 'mar) Config)
    in case engineconfig_New D app opts of
         Ok c \<Rightarrow> options_ok D c0 \<and> application_ok D app \<and>
           finalized D c0 c \<and> visited (integrations (app_RichHandlers app)) c
       | Err x \<Rightarrow> False
       | Panic t \<Rightarrow> \<not> (options_ok D c0 \<and> application_ok D app)"
  by (rule New_cases)

text \<open>
The constraint on the gRPC addresses of the environment is the wrong way round: an address
  with a host and a port is rejected, and one without a port or without a host is accepted.
\<close>

lemma isNetworkAddress_inverted:
  assumes "host \<noteq> []" "CHR '':'' \<notin> set host" "CHR ''['' \<notin> set host" "CHR '']'' \<notin> set host"
    and "port \<noteq> []" "CHR '':'' \<notin> set port" "CHR ''['' \<notin> set port" "CHR '']'' \<notin> set port"
    and "env_GRPCListenAddress D = Some (host @ CHR '':'' # port)"
  shows "\<not> environment_ok D \<and> isNetworkAddress host \<and> isNetworkAddress (host @ '':'') \<and> isNetworkAddress (CHR '':'' # port)"
  using SplitHostPort_colon [OF assms(2-4,6-8)] SplitHostPort_colon [OF assms(2-4), of "[]"]
    SplitHostPort_colon [OF _ _ _ assms(6-8), of "[]"] assms
  by (simp add: environment_ok_def isNetworkAddress_def SplitHostPort_no_colon)

lemma isNetworkAddress_inverted_witness:
  "\<not> environment_ok example_deps \<and> isNetworkAddress ''localhost''"
  using isNetworkAddress_inverted [of "''localhost''" "''50555''" example_deps] by (simp add: example_deps_def)

end
