(* ===== verification/Engine.thy ===== *)
theory Engine
  imports Registry Messaging Engine_Config
begin

text \<open>
  \<open>engine.go\<close> and \<open>internal/integration/executor.go\<close>: the engine routes commands to the
  queues of its integrations, and runs a registrar and the supervisors beside each other.

  The application's commands, the packer, the listener of the network and the group of goroutines
  (\<open>errgroup\<close>) are parameters. A command queue is what happens in the two \<open>select\<close>s of
  \<open>Push\<close>, and what the receiver of a request does with its acknowledgement channel.
\<close>

section \<open>Executing commands\<close>

record ('cmd, 'ty, 'pk, 'env) command_deps =
  TypeOf :: "'cmd \<Rightarrow> 'ty"
  TypeName :: "'ty \<Rightarrow> string"
  Validate :: "'cmd \<Rightarrow> string option"
  Packer_Pack :: "'pk \<Rightarrow> 'cmd \<Rightarrow> 'env"

record ('env, 'x) command_queue =
  q_send :: "'x select_do"
  q_await :: "'x select_do"
  q_receiver :: "'env option ack_request \<Rightarrow> ack_error option chan chan_op"

definition CommandExecutor_ExecuteCommand ::
  "('cmd, 'ty, ('u, 'mar) Packer, 'env) command_deps \<Rightarrow> (nat \<Rightarrow> ('env, 'x) command_queue) \<Rightarrow>
   ('u, 'mar) CommandExecutor \<Rightarrow> 'cmd \<Rightarrow> 'x push_error option chan_op" where
  "CommandExecutor_ExecuteCommand M queues e c =
     (let q = queues (ex_Commands e)
      in Push (q_send q) (q_await q) (q_receiver q) (Some (Packer_Pack M (ex_Packer e) c)))"

text \<open>\<open>None\<close> is a nil command; a nil map of executors has no elements.\<close>

definition engine_ExecuteCommand ::
  "('cmd, 'ty, ('u, 'mar) Packer, 'env) command_deps \<Rightarrow> (nat \<Rightarrow> ('env, 'x) command_queue) \<Rightarrow>
   ('tp, 'mp, 'lp, 'js, 'ks, 'ss, 'd, 'so, 'u, 'ty, 'h, 'er, 'mar) Config \<Rightarrow>
   'cmd option \<Rightarrow> 'x push_error option chan_op" where
  "engine_ExecuteCommand M queues cfg c =
     (case c of
        None \<Rightarrow> ChanPanic ''command must not be nil''
      | Some c \<Rightarrow>
          (case Validate M c of
             Some e \<Rightarrow> ChanPanic (''command is invalid: '' @ e)
           | None \<Rightarrow>
               (case Option.bind (Executors cfg) (\<lambda>m. m (TypeOf M c)) of
                  None \<Rightarrow> ChanPanic (''command is unrecognized: '' @ TypeName M (TypeOf M c))
                | Some x \<Rightarrow> CommandExecutor_ExecuteCommand M queues x c)))"

definition engine_New ::
  "('tp, 'mp, 'lp, 'js, 'ks, 'ss, 'u, 'ty, 'mar) engine_deps \<Rightarrow> ('h, 'ty) rich_application option \<Rightarrow>
   ('tp, 'mp, 'lp, 'js, 'ks, 'ss, 'd, 'so, 'u) EngineOption list \<Rightarrow>
   (string, ('tp, 'mp, 'lp, 'js, 'ks, 'ss, 'd, 'so, 'u, 'ty, 'h, 'er, 'mar) Config) outcome" where
  "engine_New D app opts =
     (case app of
        None \<Rightarrow> Panic ''application must not be nil''
      | Some app \<Rightarrow> engineconfig_New D app opts)"

section \<open>Running\<close>

text \<open>The goroutines of the group: a registrar, and the tasks (supervisors) of the configuration.\<close>

datatype ('ks, 'u, 'prov, 'task) job = RunRegistrar 'ks "'u registrar" 'prov | RunTask 'task

record ('lis, 'job, 'w, 'x) engine_calls =
  net_Listen :: "string \<Rightarrow> 'w \<Rightarrow> ('x, 'lis) outcome \<times> 'w"
  lis_Addr :: "'lis \<Rightarrow> string"
  lis_Close :: "'lis \<Rightarrow> 'w \<Rightarrow> 'w"
  group_Wait :: "'job list \<Rightarrow> 'w \<Rightarrow> 'x option \<times> 'w"

definition engine_jobs ::
  "string \<Rightarrow>
   ('tp, 'mp, 'lp, 'js, 'ks, 'ss, 'd, 'so, 'u, 'ty, 'h, 'er, 'mar) Config \<Rightarrow>
   ('ks option, 'u option, ('tp, 'mp, 'lp) Provider, ('h, 'u, 'js, 'ss, 'er, 'mar) supervisor_config) job list" where
  "engine_jobs addr cfg =
     (let addresses = (if length (AdvertiseAddresses cfg) = 0 then [addr] else AdvertiseAddresses cfg)
      in RunRegistrar (Keyspaces cfg)
           \<lparr>Node = \<lparr>ID = NodeID cfg, Node_Addresses = addresses\<rparr>, RenewInterval = 0\<rparr> (Config.Telemetry cfg)
         # map RunTask (Tasks cfg))"

definition engine_Run ::
  "('lis, ('ks option, 'u option, ('tp, 'mp, 'lp) Provider, ('h, 'u, 'js, 'ss, 'er, 'mar) supervisor_config) job, 'w, 'x) engine_calls \<Rightarrow>
   ('tp, 'mp, 'lp, 'js, 'ks, 'ss, 'd, 'so, 'u, 'ty, 'h, 'er, 'mar) Config \<Rightarrow>
   'w \<Rightarrow> ('x, 'x option) outcome \<times> 'w" where
  "engine_Run E cfg w =
     (case net_Listen E (ListenAddress cfg) w of
        (Err x, w1) \<Rightarrow> (Ok (Some x), w1)
      | (Panic t, w1) \<Rightarrow> (Panic t, w1)
      | (Ok lis, w1) \<Rightarrow>
          (case group_Wait E (engine_jobs (lis_Addr E lis) cfg) w1 of
             (e, w2) \<Rightarrow> (Ok e, lis_Close E lis w2)))"

definition engine_Close :: "'x option" where
  "engine_Close = None"

section \<open>Acknowledgements\<close>

text \<open>\<open>Push\<close> gives what was sent on the acknowledgement channel, unless the context ends first.\<close>

lemma Push_result:
  "Push s1 s2 f v = Proceeds None \<longleftrightarrow>
     s1 = DoProceed \<and> s2 = DoProceed \<and>
     (\<exists>c. f (Queue_New v) = Proceeds c \<and> ((\<exists>c'. chan_recv c = Proceeds (Some None, c')) \<or> (\<exists>c'. chan_recv c = Proceeds (None, c'))))"
  by (auto simp: Push_def Let_def split: select_do.splits chan_op.splits option.splits)

lemma ExecuteCommand_pushes:
  assumes "engine_New D (Some app) opts = Ok cfg" and l: "last_consumer (integrations (app_RichHandlers app)) (TypeOf M c) k"
  shows "engine_ExecuteCommand M queues cfg (Some c) =
      (case Validate M c of
         Some e \<Rightarrow> ChanPanic (''command is invalid: '' @ e)
       | None \<Rightarrow> Push (q_send (queues k)) (q_await (queues k)) (q_receiver (queues k))
                   (Some (Packer_Pack M (sc_Packer (Tasks cfg ! k)) c)))"
    and "k < length (Tasks cfg)" and "sc_Handler (Tasks cfg ! k) = fst (integrations (app_RichHandlers app) ! k)"
proof -
  have v: "visited (integrations (app_RichHandlers app)) cfg" using New_visited assms(1) by (simp add: engine_New_def)
  then obtain m e where m: "Executors cfg = Some m" "m (TypeOf M c) = Some e" and k: "k = ex_Commands e"
    using l visited_route [OF v, of "TypeOf M c" k] by (auto simp: route_to_def bind_eq_Some_conv)
  note e = visited_executor [OF v m]
  show "engine_ExecuteCommand M queues cfg (Some c) =
      (case Validate M c of
         Some e \<Rightarrow> ChanPanic (''command is invalid: '' @ e)
       | None \<Rightarrow> Push (q_send (queues k)) (q_await (queues k)) (q_receiver (queues k))
                   (Some (Packer_Pack M (sc_Packer (Tasks cfg ! k)) c)))"
    by (simp add: engine_ExecuteCommand_def CommandExecutor_ExecuteCommand_def m e(4) k Let_def split: option.split)
  show "k < length (Tasks cfg)" "sc_Handler (Tasks cfg ! k) = fst (integrations (app_RichHandlers app) ! k)"
    using e k by (simp_all add: task_ok_def)
qed

text \<open>An application with two integrations that consume the same commands.\<close>

definition example_app :: "(nat, string) rich_application" where
  "example_app = \<lparr>app_Identity = \<lparr>ck_Name = ''app'', ck_Key = ''k''\<rparr>, app_MessageTypes = [''t''],
     app_RichHandlers = [RichIntegration 1 \<lparr>ck_Name = ''h'', ck_Key = ''k''\<rparr> [''t''], RichAggregate,
       RichIntegration 2 \<lparr>ck_Name = ''i'', ck_Key = ''k''\<rparr> [''t'']]\<rparr>"

definition example_options :: "(unit, unit, unit, nat, nat, nat, unit, unit, nat) EngineOption list" where
  "example_options = [OptJournals (Some 1), OptKeyspaces (Some 2), OptSets (Some 3)]"

definition example_commands :: "(nat, string, (nat, unit) Packer, nat) command_deps" where
  "example_commands = \<lparr>TypeOf = \<lambda>c. ''t'', TypeName = id, Validate = \<lambda>c. None, Packer_Pack = \<lambda>p c. c\<rparr>"

definition example_queue :: "nat \<Rightarrow> (nat, nat) command_queue" where
  "example_queue k = \<lparr>q_send = DoProceed, q_await = DoProceed, q_receiver = (if k = 1 then Ack else Nack)\<rparr>"

definition example_cfg :: "(unit, unit, unit, nat, nat, nat, unit, unit, nat, string, nat, unit, unit) Config" where
  "example_cfg = (case engine_New example_deps (Some example_app) example_options of Ok c \<Rightarrow> c | _ \<Rightarrow> zero_Config)"

lemma example_engine: "engine_New example_deps (Some example_app) example_options = Ok example_cfg"
  by (simp add: example_cfg_def engine_New_def engineconfig_New_def finalize_def finalizeNodeID_def finalizeTelemetry_def
    finalizePersistence_def stores_from_env_def store_from_env_def VisitRichApplication_def VisitRichIntegration_def
    marshalIdentity_def zero_Config_def example_deps_def example_app_def example_options_def Let_def)

lemma example_consumers [simp]:
  "last_consumer (integrations (app_RichHandlers example_app)) ''t'' k \<longleftrightarrow> k = 1"
  "length (integrations (app_RichHandlers example_app)) = 2"
  by (auto simp: last_consumer_def example_app_def less_Suc_eq)

lemma example_fields [simp]:
  "TypeOf example_commands c = ''t''" "Validate example_commands c = None" "Packer_Pack example_commands p c = c"
  "q_send (example_queue k) = DoProceed" "q_await (example_queue k) = DoProceed"
  "q_receiver (example_queue k) = (if k = 1 then Ack else Nack)"
  by (simp_all add: example_commands_def example_queue_def)

section \<open>Properties\<close>



text \<open>
C25: When \<open>Run\<close> of an engine cannot listen on the configured address it returns the error
  and starts nothing. Otherwise the group that it waits for has a registrar for the node, which
  has an identifier and addresses, and one supervisor for each integration, in order, with the
  journals of the configuration; the listener is closed afterwards, whatever the group returns.
\<close>

theorem engine_Run_starts:
  assumes "engine_New D (Some app) opts = Ok cfg"
  shows "case net_Listen E (ListenAddress cfg) w of
     (Err x, w1) \<Rightarrow> engine_Run E cfg w = (Ok (Some x), w1)
   | (Panic t, w1) \<Rightarrow> engine_Run E cfg w = (Panic t, w1)
   | (Ok lis, w1) \<Rightarrow>
       (\<exists>i js ks addrs sups. addrs \<noteq> [] \<and>
          list_all2 (task_ok (Some js)) (integrations (app_RichHandlers app)) sups \<and>
          engine_Run E cfg w =
            (case group_Wait E (RunRegistrar (Some ks) \<lparr>Node = \<lparr>ID = Some i, Node_Addresses = addrs\<rparr>, RenewInterval = 0\<rparr>
                 (Config.Telemetry cfg) # map RunTask sups) w1 of
               (e, w2) \<Rightarrow> (Ok e, lis_Close E lis w2)))"
proof -
  have v: "visited (integrations (app_RichHandlers app)) cfg" and "NodeID cfg \<noteq> None" "Keyspaces cfg \<noteq> None" "Journals cfg \<noteq> None"
    using New_visited assms by (simp_all add: engine_New_def)
  then obtain i ks js where c: "NodeID cfg = Some i" "Keyspaces cfg = Some ks" "Journals cfg = Some js" by auto
  have t: "list_all2 (task_ok (Some js)) (integrations (app_RichHandlers app)) (Tasks cfg)"
    using v c by (simp add: visited_def)
  have jobs: "\<exists>addrs. addrs \<noteq> [] \<and> engine_jobs a cfg =
      RunRegistrar (Some ks) \<lparr>Node = \<lparr>ID = Some i, Node_Addresses = addrs\<rparr>, RenewInterval = 0\<rparr>
        (Config.Telemetry cfg) # map RunTask (Tasks cfg)" for a
    by (auto simp: engine_jobs_def c)
  obtain r w1 where l: "net_Listen E (ListenAddress cfg) w = (r, w1)" by fastforce
  show ?thesis
  proof (cases r)
    case (Ok lis)
    obtain addrs where "addrs \<noteq> []" "engine_jobs (lis_Addr E lis) cfg =
      RunRegistrar (Some ks) \<lparr>Node = \<lparr>ID = Some i, Node_Addresses = addrs\<rparr>, RenewInterval = 0\<rparr>
        (Config.Telemetry cfg) # map RunTask (Tasks cfg)" using jobs by blast
    with Ok l t show ?thesis by (auto simp: engine_Run_def intro!: exI)
  qed (simp_all add: engine_Run_def l)
qed

theorem engine_Run_starts_witness:
  "engine_Run \<lparr>net_Listen = \<lambda>a w. (Ok a, w), lis_Addr = \<lambda>a. a, lis_Close = \<lambda>a w. w @ [a],
     group_Wait = \<lambda>js w. (Some (length js), w)\<rparr> example_cfg [] = (Ok (Some 3), [ListenAddress example_cfg])"
  using engine_Run_starts [OF example_engine, of "\<lparr>net_Listen = \<lambda>a w. (Ok a, w), lis_Addr = \<lambda>a. a,
      lis_Close = \<lambda>a w. w @ [a], group_Wait = \<lambda>js w. (Some (length js), w)\<rparr>" "[]"]
  by (auto dest!: list_all2_lengthD)

end
