(* ===== verification/Engine_Cluster.thy ===== *)
theory Engine_Cluster
  imports Engine Cluster_System
begin

text \<open>
  From the engine to the cluster: the registrar that \<open>Run\<close> of an engine (\<open>engine.go\<close>) starts for
  its node, over the store that it shares with the observers of the other nodes
  (\<open>internal/cluster/registry.go\<close>).
\<close>

section \<open>The registrar of an engine\<close>

lemma engine_registrar:
  assumes "RunRegistrar ks r prov \<in> set (engine_jobs addr cfg)"
  shows "ID (Node r) = NodeID cfg" "ks = Keyspaces cfg" "sint (registrar_interval r) = 10 * 10 ^ 9"
    and "Node_Addresses (Node r) = (if AdvertiseAddresses cfg = [] then [addr] else AdvertiseAddresses cfg)"
  using assms by (auto simp: engine_jobs_def registrar_interval_def DefaultRenewInterval_def)

text \<open>
  \<open>Run\<close> of an engine keeps the registrar to itself, so nothing signals its \<open>Shutdown\<close> latch: when
  the engine stops, the context is done, and the loop returns without touching the store.
\<close>

lemma registrar_cancelled:
  "\<exists>s'. registrar_loop D r [RCtxDone x] s = Returned (Some x) s' \<and> store s' = store s"
  by simp

text \<open>What a poll says about one node.\<close>

lemma polled_registered:
  assumes "ob_ok D contents ob" "kv_healthy (reg_kv D)" "clock_between t1 t2 ob" "ob_cases ob = ObSent # cs"
    and "contents (store ob) k = Some reg"
  shows "\<exists>ob'. polled D ob ob' \<and>
    (t2 < AsTime (ExpiresAt reg) \<longrightarrow> k \<in> view (published ob')) \<and>
    (AsTime (ExpiresAt reg) \<le> t1 \<longrightarrow> k \<notin> view (published ob') \<and> contents (store ob') k = None)"
  using poll_converges [OF assms(1-4)] assms(5) by (fastforce simp: unexpired_def)

section \<open>Properties\<close>

text \<open>
C26: An engine is found by the other nodes of its cluster, and a stopped one is forgotten. The
registrar that \<open>Run\<close> starts registers the node of the engine under its identifier, with at least
one address, and keeps it registered while its ticks, the looks of the observers and the writes
of the other nodes happen in time, in any order. When the engine is stopped the registrar returns
and the registration stays as it is. An observer of another node that finds this registration
has the node in the view of its subscribers if its poll ends before twenty seconds have passed
since the last tick, whether the engine is still running or not; if the poll begins later the
node is not in the view, and its registration is gone.
\<close>

theorem engine_discovered:
  assumes "engine_New E (Some app) opts = Ok cfg" and "RunRegistrar ks r prov \<in> set (engine_jobs addr cfg)"
    and "kv_laws (reg_kv D) contents" and "kv_healthy (reg_kv D)"
    and "\<And>k. nows s (Suc k) \<le> nows s k + 20 * 10 ^ 9" and "list_all (in_time contents (NodeID cfg)) es"
  shows "\<exists>s0 s1 s2. NodeID cfg \<noteq> None \<and> Node_Addresses (Node r) \<noteq> [] \<and>
    registrar_Run D r s = registrar_loop D r (rg_cases s) s0 \<and> cluster_run D r es s0 = (Ok (), s1) \<and>
    registrar_loop D r [RCtxDone x] s1 = Returned (Some x) s2 \<and>
    (\<forall>ob t1 t2 cs. ob_ok D contents ob \<and> clock_between t1 t2 ob \<and> ob_cases ob = ObSent # cs \<and>
        contents (store ob) (NodeID cfg) \<in> {contents (store s1) (NodeID cfg), contents (store s2) (NodeID cfg)} \<longrightarrow>
      (\<exists>ob'. polled D ob ob' \<and>
        (t2 < nows s (reads s + 2 * ticks es) + 20 * 10 ^ 9 \<longrightarrow> NodeID cfg \<in> view (published ob')) \<and>
        (nows s (reads s + 2 * ticks es) + 20 * 10 ^ 9 \<le> t1 \<longrightarrow>
          NodeID cfg \<notin> view (published ob') \<and> contents (store ob') (NodeID cfg) = None)))"
proof -
  note reg = engine_registrar [OF assms(2)]
  have id: "NodeID cfg \<noteq> None" using New_visited assms(1) by (simp add: engine_New_def)
  have addrs: "Node_Addresses (Node r) \<noteq> []" using reg(4) by simp
  have i: "0 \<le> sint (registrar_interval r)" "sint (registrar_interval r) < 2 ^ 62"
    and clock: "\<And>k. nows s (Suc k) \<le> nows s k + 2 * sint (registrar_interval r)"
    using reg(3) assms(5) by simp_all
  let ?until = "nows s (reads s + 2 * ticks es) + 20 * 10 ^ 9"
  obtain s0 where run: "registrar_Run D r s = registrar_loop D r (rg_cases s) s0"
    and s0: "registered_until contents (contents (store s)) r (nows s) (registrar_interval r) (Suc (reads s))
      (nows s (reads s) + 2 * sint (registrar_interval r)) s0"
    using registrar_Run_registers [OF assms(3,4) i] by blast
  obtain s1 where s1: "cluster_run D r es s0 = (Ok (), s1)"
    "node_until contents r (nows s) (registrar_interval r) (reads s + 2 * ticks es) s1"
    using cluster_run_keeps [OF assms(3,4) i clock registered_node_until [OF s0]] assms(6) unfolding reg(1) by blast
  then have c1: "contents (store s1) (NodeID cfg) = Some (registration r ?until)"
    by (simp add: node_until_def reg(1,3))
  have e: "AsTime (ExpiresAt (registration r ?until)) = ?until" by (simp add: registration_def AsTime_def)
  obtain s2 where s2: "registrar_loop D r [RCtxDone x] s1 = Returned (Some x) s2" "store s2 = store s1"
    using registrar_cancelled [of D r x s1] by blast
  have "\<exists>ob'. polled D ob ob' \<and> (t2 < ?until \<longrightarrow> NodeID cfg \<in> view (published ob')) \<and>
      (?until \<le> t1 \<longrightarrow> NodeID cfg \<notin> view (published ob') \<and> contents (store ob') (NodeID cfg) = None)"
    if "ob_ok D contents ob" "clock_between t1 t2 ob" "ob_cases ob = ObSent # cs"
      "contents (store ob) (NodeID cfg) \<in> {contents (store s1) (NodeID cfg), contents (store s2) (NodeID cfg)}"
    for ob t1 t2 cs
    using polled_registered [OF that(1) assms(4) that(2,3), of "NodeID cfg" "registration r ?until", unfolded e] that(4) c1 s2(2)
    by simp
  with id addrs run s1(1) s2(1) show ?thesis by blast
qed

text \<open>The registrar of the example ticks once, at the time 100; the observer knows no node yet.\<close>

definition engine_example_registrar :: "nat option registrar" where
  "engine_example_registrar = \<lparr>Node = \<lparr>ID = NodeID example_cfg, Node_Addresses = [''h:1'']\<rparr>, RenewInterval = 0\<rparr>"

definition engine_example_observer ::
  "int \<Rightarrow> (nat option \<times> nat option Registration) list \<Rightarrow>
   ((nat option \<times> nat option Registration) list, (nat option, nat option Node) alist, nat option, string) observer_world" where
  "engine_example_observer t st = \<lparr>store = st, nows = (\<lambda>_. t), reads = 0, telemetry_log = [],
     nodes = DAList.empty, ob_cases = [ObSent], published = [], ob_ctx_err = None\<rparr>"

lemma example_addresses: "AdvertiseAddresses example_cfg = []"
  by (simp add: example_cfg_def engine_New_def engineconfig_New_def finalize_def finalizeNodeID_def finalizeTelemetry_def
    finalizePersistence_def finalizeGRPC_def stores_from_env_def store_from_env_def VisitRichApplication_def VisitRichIntegration_def
    marshalIdentity_def zero_Config_def example_deps_def example_app_def example_options_def Let_def)

lemma engine_example_renewed:
  assumes "registrar_Run rg_example_deps engine_example_registrar (rg_example_world []) =
      registrar_loop rg_example_deps engine_example_registrar [] s0"
    and "cluster_run rg_example_deps engine_example_registrar [Tick] s0 = (Ok (), s1)"
  shows "map_of (store s1) = [NodeID example_cfg \<mapsto> registration engine_example_registrar (100 + 20 * 10 ^ 9)]"
proof -
  have "s0 = s0\<lparr>store := [(NodeID example_cfg, registration engine_example_registrar (100 + 20 * 10 ^ 9))],
      nows := \<lambda>_. 100, reads := 1, interval := DefaultRenewInterval\<rparr>"
    using assms(1) by (cases s0) (simp add: registrar_Run_def register_def saveRegistration_def Now_def rg_example_deps_def
      mem_kv_def rg_example_world_def registrar_interval_def engine_example_registrar_def registration_def
      DefaultRenewInterval_def telemetry_event_def)
  then have "store s0 = [(NodeID example_cfg, registration engine_example_registrar (100 + 20 * 10 ^ 9))]"
    "nows s0 = (\<lambda>_. 100)" "reads s0 = 1" "interval s0 = DefaultRenewInterval"
    by (cases s0; simp)+
  then show ?thesis
    using assms(2) by (auto simp: renew_def saveRegistration_def Now_def rg_example_deps_def mem_kv_def AsTime_def
      registration_def engine_example_registrar_def DefaultRenewInterval_def telemetry_event_def split: prod.splits)
qed

theorem engine_discovered_witness:
  "\<exists>st ob1 ob2. map_of st (NodeID example_cfg) \<noteq> None \<and>
     polled rg_example_deps (engine_example_observer 200 st) ob1 \<and> NodeID example_cfg \<in> view (published ob1) \<and>
     polled rg_example_deps (engine_example_observer (100 + 20 * 10 ^ 9) st) ob2 \<and> NodeID example_cfg \<notin> view (published ob2)"
proof -
  have job: "RunRegistrar (Keyspaces example_cfg) engine_example_registrar (Config.Telemetry example_cfg)
      \<in> set (engine_jobs ''h:1'' example_cfg)"
    by (simp add: engine_jobs_def engine_example_registrar_def example_addresses)
  let ?s = "rg_example_world [] :: ((nat option \<times> nat option Registration) list, string) registrar_world"
  have w: "rg_cases ?s = []" "nows ?s = (\<lambda>_. 100)" "reads ?s = 0" by (simp_all add: rg_example_world_def)
  have "\<And>k. nows ?s (Suc k) \<le> nows ?s k + 20 * 10 ^ 9" "list_all (in_time map_of (NodeID example_cfg)) [Tick]"
    by (simp_all add: w)
  from engine_discovered [OF example_engine job rg_example_deps_ok(1,2) this, of "''cancelled''"] obtain s0 s1 where
    s: "registrar_Run rg_example_deps engine_example_registrar ?s = registrar_loop rg_example_deps engine_example_registrar [] s0"
    "cluster_run rg_example_deps engine_example_registrar [Tick] s0 = (Ok (), s1)"
    and ob: "\<forall>ob t1 t2 cs. ob_ok rg_example_deps map_of ob \<and> clock_between t1 t2 ob \<and> ob_cases ob = ObSent # cs \<and>
        map_of (store ob) (NodeID example_cfg) = map_of (store s1) (NodeID example_cfg) \<longrightarrow>
      (\<exists>ob'. polled rg_example_deps ob ob' \<and>
        (t2 < 100 + 20 * 10 ^ 9 \<longrightarrow> NodeID example_cfg \<in> view (published ob')) \<and>
        (100 + 20 * 10 ^ 9 \<le> t1 \<longrightarrow> NodeID example_cfg \<notin> view (published ob')))"
    unfolding w by blast
  note m = engine_example_renewed [OF s]
  have ok: "ob_ok rg_example_deps map_of (engine_example_observer t (store s1))" for t
    using rg_example_deps_ok m by (auto simp: ob_ok_def engine_example_observer_def registry_ok_def nodes_ok_def members_def
      view_def rg_example_deps_def alist_map_def registration_def engine_example_registrar_def split: if_splits)
  have f: "clock_between t t (engine_example_observer t (store s1))"
    "ob_cases (engine_example_observer t (store s1)) = [ObSent]" "store (engine_example_observer t (store s1)) = store s1" for t
    by (simp_all add: clock_between_def engine_example_observer_def)
  have poll: "\<exists>ob'. polled rg_example_deps (engine_example_observer t (store s1)) ob' \<and>
      (t < 100 + 20 * 10 ^ 9 \<longrightarrow> NodeID example_cfg \<in> view (published ob')) \<and>
      (100 + 20 * 10 ^ 9 \<le> t \<longrightarrow> NodeID example_cfg \<notin> view (published ob'))" for t
    by (rule ob [rule_format, of _ t t "[]"]) (intro conjI ok f(1,2), simp only: f(3))
  obtain ob1 where "polled rg_example_deps (engine_example_observer 200 (store s1)) ob1" "NodeID example_cfg \<in> view (published ob1)"
    using poll [of 200] by auto
  moreover obtain ob2 where "polled rg_example_deps (engine_example_observer (100 + 20 * 10 ^ 9) (store s1)) ob2"
      "NodeID example_cfg \<notin> view (published ob2)"
    using poll [of "100 + 20 * 10 ^ 9"] by blast
  moreover have "map_of (store s1) (NodeID example_cfg) \<noteq> None" using m by simp
  ultimately show ?thesis by blast
qed

end
