(* ===== verification/Example_Program.thy ===== *)
theory Example_Program
  imports Engine
begin

text \<open>
  \<open>cmd/example/main.go\<close>: the program of the repository that makes an engine and runs it. The
  exporter of the logs, its provider, the stores in memory and the application of module
  \<open>example\<close> are parameters. The context of \<open>Run\<close> is in the world of the engine's calls. Also
  \<open>engineshutdown.go\<close>, which nothing calls.
\<close>

record ('exp, 'lp, 'js, 'ks, 'app, 'x) main_deps =
  stdoutlog_New :: "('x, 'exp) outcome"
  log_NewLoggerProvider :: "'exp \<Rightarrow> 'lp"
  memoryjournal_BinaryStore :: 'js
  memorykv_BinaryStore :: 'ks
  example_App :: 'app
  main_Error :: "'x \<Rightarrow> string"

text \<open>
  What \<open>main\<close> does to the world when it returns, or the value that it panics with. The argument
  \<open>T\<close> only fixes the types of the configuration, of which the code uses one instance.
\<close>

definition main ::
  "('exp, 'lp, 'js, 'ks, ('h, 'ty) rich_application, 'x) main_deps \<Rightarrow>
   ('tp, 'mp, 'lp, 'js, 'ks, 'ss, 'u, 'ty, 'mar) engine_deps \<Rightarrow>
   ('lis, ('ks option, 'u option, ('tp, 'mp, 'lp) Provider, ('h, 'u, 'js, 'ss, 'er, 'mar) supervisor_config) job, 'w, 'x) engine_calls \<Rightarrow>
   ('tp, 'mp, 'lp, 'js, 'ks, 'ss, 'd, 'so, 'u, 'ty, 'h, 'er, 'mar) Config itself \<Rightarrow>
   'w \<Rightarrow> ('x, unit) outcome \<times> 'w" where
  "main P D E T w =
     (case stdoutlog_New P of
        Err x \<Rightarrow> (Panic (main_Error P x), w)
      | Panic t \<Rightarrow> (Panic t, w)
      | Ok logExporter \<Rightarrow>
          (case WithLoggerProvider (Some (log_NewLoggerProvider P logExporter)) of
             Panic t \<Rightarrow> (Panic t, w)
           | Err x \<Rightarrow> (Panic x, w)
           | Ok withLogger \<Rightarrow>
               (case engine_New D (Some (example_App P))
                       [WithJournalStore (Some (memoryjournal_BinaryStore P)),
                        WithKeyValueStore (Some (memorykv_BinaryStore P)),
                        withLogger :: ('tp, 'mp, 'lp, 'js, 'ks, 'ss, 'd, 'so, 'u) EngineOption] of
                  Panic t \<Rightarrow> (Panic t, w)
                | Err x \<Rightarrow> (Panic x, w)
                | Ok cfg \<Rightarrow>
                    (case engine_Run E (cfg :: ('tp, 'mp, 'lp, 'js, 'ks, 'ss, 'd, 'so, 'u, 'ty, 'h, 'er, 'mar) Config) w of
                       (Ok (Some x), w') \<Rightarrow> (Panic (main_Error P x), w')
                     | (Ok None, w') \<Rightarrow> (Ok (), w')
                     | (Err x, w') \<Rightarrow> (Panic (main_Error P x), w')
                     | (Panic t, w') \<Rightarrow> (Panic t, w')))))"

definition defaultShutdownTimeout :: u64 where
  "defaultShutdownTimeout = 15 * 10 ^ 9"

text \<open>The deadline of the context that it returns at the time \<open>now\<close>, not that of its argument.\<close>

definition shutdownContextFor :: "'ctx \<Rightarrow> int \<Rightarrow> int" where
  "shutdownContextFor ctx now = now + sint defaultShutdownTimeout"

section \<open>Properties\<close>

text \<open>
The example program never runs its engine. It gives no set store and does not ask for the
options of the environment, so \<open>New\<close> panics, whatever the application, the environment and the
network are, and nothing has been listened to.
\<close>

lemma example_main_panics:
  "main P D E T w =
     (Panic (case stdoutlog_New P of
        Ok logExporter \<Rightarrow> ''no set store is configured, set VERACITY_SET_DSN or provide the WithSetStore() option''
      | Err x \<Rightarrow> main_Error P x
      | Panic t \<Rightarrow> t), w)"
proof (cases "stdoutlog_New P")
  case (Ok logExporter)
  then show ?thesis
    by (simp add: main_def WithLoggerProvider_def WithJournalStore_def WithKeyValueStore_def engine_New_def
        engineconfig_New_def finalize_def zero_Config_def finalizeNodeID_def finalizeTelemetry_def
        finalizePersistence_def stores_from_env_def store_from_env_def Let_def split: prod.split)
qed (simp_all add: main_def)

end
