(* ===== verification/Spec2Isabelle.thy ===== *)
theory Spec2Isabelle
  imports Prelude Go_Slices Ordered_Set Optimistic_System Partitioner Messaging Fsm Journal_API Mem_Journal
    Stream_Journal Stream_Worker Integration_Journal Integration_Supervisor Integration_History
    Integration_Correct Integration_Restart Integration_Liveness Integration_Stream Proto_Map Stream_Supervisor Servers Stream_System KV_API
    Registry_Messages Registry Cluster_System Go_Strings Telemetry Integration_Telemetry Engine_Config Engine Engine_Cluster Example_Program
begin

text \<open>
  A model of Veracity, an event-sourced engine for Dogma applications written in Go, and the
  theorems that make it correct.

  The program. An engine (\<open>engine.go\<close>) is made from options and an application
  (\<open>engineoption.go\<close>, \<open>internal/engineconfig\<close>). Its \<open>ExecuteCommand\<close> packs a
  command and pushes it to the acknowledged queue (\<open>internal/messaging/ackqueue\<close>) of the
  integration that consumes it. Its \<open>Run\<close> starts a registrar that keeps the node in a shared
  key/value store (\<open>internal/cluster\<close>) and one integration supervisor for each integration
  handler (\<open>internal/integration\<close>). The supervisor stores the commands it acknowledges in a
  journal, has them handled, stores the events of the handler, and appends them to an event
  stream through an \<open>EventRecorder\<close>. A stream (\<open>internal/eventstream\<close>) is a journal
  written by workers, one for each stream, that an event stream supervisor starts when requests
  arrive. Supervisors, workers and the registry observer are state machines run by
  \<open>internal/fsm\<close>; they communicate by the primitives of \<open>internal/messaging\<close> and
  \<open>internal/signaling\<close>. \<open>internal/cluster/partition.go\<close> assigns workloads to nodes over
  the ordered sets of \<open>internal/optimistic\<close>. \<open>internal/telemetry\<close> records what happens.

  Theories and code.
  \<^item> \<open>Prelude\<close>: 64-bit words, outcomes (value, error or panic), facts on lists.
    \<open>Go_Slices\<close>: slices with shared backing arrays and the functions of package
    \<open>slices\<close>. \<open>Go_Strings\<close>: \<open>strconv.QuoteToASCII\<close>, \<open>strings.Split\<close> and
    \<open>net.SplitHostPort\<close>.
  \<^item> \<open>Ordered_Set\<close>, \<open>Partitioner\<close>: \<open>internal/optimistic\<close> and \<open>partition.go\<close>. The
    state of a \<open>Value\<close> is a pointer into a heap of slices, \<open>Apply\<close> is its loop with what
    other goroutines do between the load and the compare-and-swap as an argument.
    \<open>Optimistic_System\<close> is any number of goroutines in that loop at once, interleaved at each
    access to the pointer by a schedule.
  \<^item> \<open>Fsm\<close>: actions, the machine and \<open>Start\<close>. A state is a name, a machine a function from
    names and worlds to results; four locales hold what is proved once for all machines: that an
    invariant kept by every state is one of the run, with and without a final state, whether it
    returns, waits or panics, and that a run ends when a measure decreases.
  \<^item> \<open>Messaging\<close>: channels, latches, events, exchanges, queues and topics.
    \<open>Servers\<close>: the contract between a goroutine that serves requests and its clients.
  \<^item> \<open>Journal_API\<close>, \<open>KV_API\<close>, \<open>Proto_Map\<close>: the interfaces of \<open>persistencekit\<close> and
    \<open>enginekit\<close> that the code calls, as records of operations with their documented laws;
    \<open>Mem_Journal\<close> and the instances in the other two satisfy them and serve the witnesses.
  \<^item> \<open>Stream_Journal\<close>, \<open>Stream_Worker\<close>, \<open>Stream_Supervisor\<close>: the records of a stream
    with their generated code, \<open>worker.go\<close> and \<open>append.go\<close>, and \<open>supervisor.go\<close>. The
    state of a worker is its position and offset; the world of the supervisor has its map of
    workers and the goroutines that are alive. \<open>Stream_System\<close> is the supervisor together with
    the workers it has started.
  \<^item> \<open>Integration_Journal\<close>, \<open>Integration_Supervisor\<close>: the records of an integration, and
    \<open>supervisor.go\<close> and \<open>scope.go\<close>. The state has the fields of \<open>Supervisor\<close>, the
    journal, the set of accepted commands and the world outside; two fields record what has
    been replied and what has been asked of the event recorder.
  \<^item> \<open>Integration_History\<close>, \<open>Integration_Correct\<close>, \<open>Integration_Restart\<close>,
    \<open>Integration_Liveness\<close>, \<open>Integration_Stream\<close>: what a journal says about the commands, the
    proofs about the supervisor, its restarts, and what it does when its calls succeed, and the
    composition with the stream. The last section but one of this theory composes the supervisor
    with a command executor.
  \<^item> \<open>Registry_Messages\<close>, \<open>Registry\<close>: the messages of \<open>registrypb\<close> and their encoding, and
    \<open>registry.go\<close>, the registrar and the observer over one store. \<open>Cluster_System\<close> interleaves
    a registrar with the observers and the other nodes; in \<open>Engine_Cluster\<close> it is the registrar
    of an engine.
  \<^item> \<open>Telemetry\<close>: attributes, recorders, instruments, spans and logs. \<open>Integration_Telemetry\<close>:
    what each operation of the integration supervisor tells its recorder.
  \<^item> \<open>Engine_Config\<close>, \<open>Engine\<close>, \<open>Example_Program\<close>: options, configuration, engine, command
    executor, and \<open>main\<close> of \<open>cmd/example\<close>.

  How effects are modelled. Operations take and return the state they change. A call into code
  outside the repository is an operation of a record that decides, from a state of its own,
  what happens, failures included; a call that fails may or may not have had its effect.
  A \<open>select\<close> takes the case that was ready from a list; when the list is empty the goroutine
  waits for ever (\<open>Blocked\<close>). A panic is a result too (\<open>Panicked\<close>), with the state it leaves: the
  handler of an integration may panic, its message may not be a command, and a run that panics is
  followed by others as a run that fails is. Where goroutines share state they are a step relation:
  latches, the cluster of workers on one journal, runs of a supervisor with kills and restarts;
  or the steps of each goroutine and a schedule that says who moves: the calls of \<open>Apply\<close>.
  Where a goroutine only sends requests to others, theory \<open>Servers\<close> is between them: a run of a
  worker and a run of an integration supervisor reply to what they receive once, in order and
  truthfully, and the clients use no more than that.

  What the lemmas show.
  \<^item> The journal of an integration: each command is accepted, handled and appended at most
    once, in this order, over any number of runs; recovery computes what is pending; a run that
    ends without an error leaves nothing pending, and the next one does nothing for what is
    done; replies tell the truth; only handling a command panics. When all calls succeed a run
    serves every command that it reads, and ends only when it is told to.
  \<^item> The stream: it is append-only with contiguous offsets, and a request is stored at most
    once however often it is tried. Together with the above the events of a command are stored
    exactly once.
  \<^item> A command for which \<open>ExecuteCommand\<close> of an executor over the queue of a supervisor returned nil
    is handled by that run of the supervisor or by a later one, and the call returns once the run
    has read the command. This is an executor and a supervisor with both stores, as the tests of
    \<open>internal/integration\<close> put them together; an engine gives its supervisors no set store, see below.
  \<^item> The event stream supervisor has at most one worker for each stream, and its final state
    awaits all of them. With its workers it refuses or answers every request that it has read and
    does not hold, so a call of \<open>Do\<close> returns, truthfully.
  \<^item> A registrar stays registered as long as its store works, it reads the clock in time and its
    interval is below \<open>2 ^ 62\<close> nanoseconds, whatever the observers do that look at its
    registrations before these expire. The map of the observer is what its events say. So the
    node of an engine is in the view of the other nodes while the engine runs, and afterwards until
    its registration expires: nothing makes the registrar of an engine deregister.
  \<^item> Routing by highest score, that adding or removing a node moves only its workloads, and that
    nodes with the same members route alike; the refinement of the ordered set to finite sets
    when it is not contended, and how it fails when it is. The value below it is linearizable
    for functions that only compute, and lock-free for all.
  \<^item> Latches, events, topics and exchanges; the round trips of builders and attributes; counts
    of the instruments, which the integration supervisor leaves balanced; what \<open>New\<close>, \<open>ExecuteCommand\<close> and \<open>Run\<close> of an engine do, and that
    the supervisors it starts panic because they are given no set store. (The theorems about the
    supervisor are about one whose journal and set have been opened.)

  Bounds. Journal positions and offsets are 64-bit words; the theorems about streams ask for
  fewer than \<open>2 ^ 64\<close> events, journals hold fewer than \<open>2 ^ 64\<close> records. No fuel is used: the
  loop of \<open>Fsm\<close>, which may not end, is a \<open>partial_function (option)\<close>, and the theorems about
  the machines show that they return or wait (the cases of a \<open>select\<close> are finite, and each turn
  uses one); the other loops are recursive functions that terminate.

  Not modelled: the reflection glue of \<open>protoimpl\<close> in the generated files (\<open>Reset\<close>,
  \<open>String\<close>, descriptors), and the encoding of messages, which is a parameter; the text and
  attributes of the log messages of the streams and the registry; \<open>ferrite\<close>, \<open>configkit\<close> and the
  marshalers, which are parameters; test helpers. Data races within one operation are modelled
  only where the code uses atomics or locks.
\<close>

section \<open>From the executor to the journal\<close>

text \<open>
  A command executor over the queue of a supervisor, as \<open>supervisor_test.go\<close> puts them together:
  \<open>Commands\<close> is \<open>&sup.Commands\<close>. The queue is that of a run of the supervisor. If the request is
  the \<open>n\<close>-th that the run reads, its channel holds the \<open>n\<close>-th reply of the run, and otherwise
  nothing is ever sent on it; \<open>sel1\<close> and \<open>sel2\<close> are the cases of the two \<open>select\<close>s of \<open>Push\<close>.
\<close>

definition run_queue ::
  "'x select_do \<Rightarrow> 'x select_do \<Rightarrow> nat \<Rightarrow> ('j, 'u, 'env, 'x, 'k, 'w, 'hid) sup_run \<Rightarrow> ('env, 'x) command_queue" where
  "run_queue sel1 sel2 n w = \<lparr>q_send = sel1, q_await = sel2,
     q_receiver = (\<lambda>req. if n < length (sup_replies w) \<and> fst (sup_replies w ! n) = Value req
       then chan_send (snd (sup_replies w ! n)) (Acknowledgement req) else WouldBlock)\<rparr>"

lemma Push_run_queue:
  "Push sel1 sel2 (q_receiver (run_queue sel1 sel2 n w)) v = Proceeds None \<longleftrightarrow>
     sel1 = DoProceed \<and> sel2 = DoProceed \<and> n < length (sup_replies w) \<and> sup_replies w ! n = (v, None)"
  "n < length (sup_replies w) \<Longrightarrow> sup_replies w ! n = (v, a) \<Longrightarrow>
   Push DoProceed DoProceed (q_receiver (run_queue sel1 sel2 n w)) v = Proceeds (map_option PushAck a)"
  by (auto simp: Push_def Let_def run_queue_def Queue_New_def chan_defs prod_eq_iff split: select_do.splits)

text \<open>
C4: From the executor to the journal. Take any history of runs of an integration supervisor,
with failures, panics and restarts, and a further run, opened from its stores, whose queue a
command executor pushes to. If \<open>ExecuteCommand\<close> returns nil then, however that run ends, once it
or any later run stops without an error or waits for more, the envelope that the packer made of
the command has been handled, and if it produced events they have been appended to their stream.
\<close>

theorem executor_command_handled:
  assumes "integration_laws I base hist mems"
    and "hist (journal s) = []" and "mems (acceptedCommands s) = {}" and "appends s = []"
    and "sup_runs I s acks s1" and "restarted s1 s2"
    and "op_Open H (Some js) hk = Ok (journal s2)" and "OpenAcceptedCommandsSet H (Some ss) hk = Ok (acceptedCommands s2)"
    and "sup_Run_stores I H (Some js) (Some ss) hk s2 = Some r"
    and "CommandExecutor_ExecuteCommand M (\<lambda>_. run_queue sel1 sel2 n (s2, r)) x c = Proceeds None"
    and "r = Returned None s6 \<or> r = Blocked s6 \<or>
      (\<exists>acks' s4 s5. sup_runs I (run_world r) acks' s4 \<and> restarted s4 s5 \<and>
        (sup_Run I None s5 = Some (Returned None s6) \<or> sup_Run I None s5 = Some (Blocked s6)))"
  shows "let i = env_MessageId I (Some (Packer_Pack M (ex_Packer x) c))
    in \<exists>h \<in> set (handled_ops (hist (journal s6))). ch_CommandId h = i \<and>
      (ch_Events h \<noteq> [] \<longrightarrow> i \<in> set (appended_ids (hist (journal s6))))"
proof -
  let ?v = "Some (Packer_Pack M (ex_Packer x) c)"
  have run: "sup_Run I None s2 = Some r" using assms(7-9) by (simp add: sup_Run_stores_def Let_def)
  have "Push sel1 sel2 (q_receiver (run_queue sel1 sel2 n (s2, r))) ?v = Proceeds None"
    using assms(10) by (simp add: CommandExecutor_ExecuteCommand_def run_queue_def Let_def)
  then have "(?v, None) \<in> set (sup_replies (s2, r))" unfolding Push_run_queue(1) by (metis nth_mem)
  from sup_replies_acknowledged [OF this restarted_ran [OF assms(1-6) run]]
  have v: "?v \<in> set (acknowledged (run_world r))" .
  from assms(11) show ?thesis
  proof (elim disjE exE conjE)
    assume "r = Returned None s6"
    with acknowledged_handled [OF assms(1-6), of s6 ?v] run v show ?thesis by (simp add: Let_def)
  next
    assume "r = Blocked s6"
    with acknowledged_handled [OF assms(1-6), of s6 ?v] run v show ?thesis by (simp add: Let_def)
  next
    fix acks' s4 s5
    assume later: "sup_runs I (run_world r) acks' s4" "restarted s4 s5"
      and last: "sup_Run I None s5 = Some (Returned None s6)"
    note h = sup_runs_trans [OF sup_runs_run [OF assms(5,6) run] later(1)]
    from acknowledged_handled [OF assms(1-4) h later(2), of s6 ?v] last v show ?thesis by (simp add: Let_def)
  next
    fix acks' s4 s5
    assume later: "sup_runs I (run_world r) acks' s4" "restarted s4 s5"
      and last: "sup_Run I None s5 = Some (Blocked s6)"
    note h = sup_runs_trans [OF sup_runs_run [OF assms(5,6) run] later(1)]
    from acknowledged_handled [OF assms(1-4) h later(2), of s6 ?v] last v show ?thesis by (simp add: Let_def)
  qed
qed

text \<open>An executor for the run of the example, which is opened from stores in memory.\<close>

definition example_executor :: "(nat, unit) CommandExecutor" where
  "example_executor = \<lparr>ex_Commands = 0, ex_Packer = \<lparr>Site = None, Application = \<lparr>id_Name = ''app'', id_Key = 7\<rparr>, Marshaler = ()\<rparr>\<rparr>"

definition example_stores :: "(nat, nat, nat, (nat, nat) op_record mem_journal, nat option list, mem_err) handler_stores" where
  "example_stores = \<lparr>hs_AsString = \<lambda>k. ''7'', hs_OpenJournal = \<lambda>js n. Ok (integ_journal []),
     hs_OpenSet = \<lambda>ss n. (case ss of None \<Rightarrow> Panic ''nil pointer dereference'' | Some x \<Rightarrow> Ok [])\<rparr>"

lemma example_opened:
  "op_Open example_stores (Some js) hk = Ok (journal integ_start)"
  "OpenAcceptedCommandsSet example_stores (Some ss) hk = Ok (acceptedCommands integ_start)"
  "sup_Run_stores integ_mem example_stores (Some js) (Some ss) hk integ_start = Some (Returned None (integ_accepted []))"
proof -
  show o: "op_Open example_stores (Some js) hk = Ok (journal integ_start)"
    "OpenAcceptedCommandsSet example_stores (Some ss) hk = Ok (acceptedCommands integ_start)"
    by (simp_all add: op_Open_def OpenAcceptedCommandsSet_def example_stores_def integ_start_def integ_state_def)
  show "sup_Run_stores integ_mem example_stores (Some js) (Some ss) hk integ_start = Some (Returned None (integ_accepted []))"
    using integ_run by (simp add: sup_Run_stores_def o Let_def)
qed

lemma example_asked:
  "sup_asked (integ_start, Returned None (integ_accepted [])) = [Some 7]"
  "sup_replies (integ_start, Returned None (integ_accepted [])) = [(Some 7, None)]"
  by (simp_all add: sup_asked_def received_def sup_requests_def integ_start_def integ_accepted_def integ_state_def
      Queue_New_def sup_replies_def replies_on_def acked_def)

lemma example_executed:
  "CommandExecutor_ExecuteCommand example_commands
     (\<lambda>_. run_queue DoProceed DoProceed 0 (integ_start, Returned None (integ_accepted []))) example_executor 7 = Proceeds None"
  using Push_run_queue(2) [of 0 "(integ_start, Returned None (integ_accepted []))" "Some 7" None DoProceed DoProceed] example_asked
  by (simp add: CommandExecutor_ExecuteCommand_def run_queue_def Let_def)

theorem executor_command_handled_witness:
  "\<exists>h \<in> set (handled_ops (mem_hist (journal (integ_accepted [])))). ch_CommandId h = Some 7"
  using executor_command_handled [OF integ_mem_laws integ_start_ok(1-3) sup_runs.none integ_start_ok(6) example_opened
      example_executed, of "integ_accepted []"]
  by (auto simp: integ_mem_fields Let_def)

text \<open>
C5: \<open>ExecuteCommand\<close> does not wait for ever. After any history of runs of an integration
supervisor, when a further run, opened from its stores, has read the request of a command
executor from its queue, the call of \<open>ExecuteCommand\<close> returns, however the run ends: nil only if
the journal holds the command as accepted, and a negative acknowledgement only if the run itself
returns an error. When the run has not read the request, the call returns only if its context
is done.
\<close>

theorem executor_answered:
  assumes "integration_laws I base hist mems"
    and "hist (journal s) = []" and "mems (acceptedCommands s) = {}" and "appends s = []"
    and "sup_runs I s acks s1" and "restarted s1 s2"
    and "op_Open H (Some js) hk = Ok (journal s2)" and "OpenAcceptedCommandsSet H (Some ss) hk = Ok (acceptedCommands s2)"
    and "sup_Run_stores I H (Some js) (Some ss) hk s2 = Some r"
    and "n < length (sup_asked (s2, r)) \<Longrightarrow> sup_asked (s2, r) ! n = Some (Packer_Pack M (ex_Packer x) c)"
  shows "case CommandExecutor_ExecuteCommand M (\<lambda>_. run_queue DoProceed DoProceed n (s2, r)) x c of
      Proceeds None \<Rightarrow> n < length (sup_asked (s2, r)) \<and>
        env_MessageId I (Some (Packer_Pack M (ex_Packer x) c)) \<in>
          set (accepted_ids (env_MessageId I) (hist (journal (run_world r))))
    | Proceeds (Some y) \<Rightarrow> n < length (sup_asked (s2, r)) \<and> (\<exists>a. y = PushAck a) \<and> (\<exists>e s'. r = Returned (Some e) s')
    | WouldBlock \<Rightarrow> length (sup_asked (s2, r)) \<le> n
    | ChanPanic t \<Rightarrow> False"
proof -
  let ?v = "Some (Packer_Pack M (ex_Packer x) c)"
  have "sup_Run I None s2 = Some r" using assms(7-9) by (simp add: sup_Run_stores_def Let_def)
  note ran = restarted_ran [OF assms(1-6) this]
  have len: "length (sup_replies (s2, r)) = length (sup_asked (s2, r))"
    using sup_srv.replies_asked [OF ran] by (metis length_map)
  have q: "CommandExecutor_ExecuteCommand M (\<lambda>_. run_queue DoProceed DoProceed n (s2, r)) x c =
      Push DoProceed DoProceed (q_receiver (run_queue DoProceed DoProceed n (s2, r))) ?v"
    by (simp add: CommandExecutor_ExecuteCommand_def run_queue_def Let_def)
  show ?thesis
  proof (cases "n < length (sup_asked (s2, r))")
    case True
    then have n: "n < length (sup_replies (s2, r))" by (simp add: len)
    obtain a where a: "sup_replies (s2, r) ! n = (?v, a)" "sup_truthful I hist (s2, r) ?v a"
      using sup_srv.nth_reply [OF ran n] assms(10) [OF True] by (metis prod.collapse)
    show ?thesis unfolding q Push_run_queue(2) [OF n a(1)]
      using True a(2) by (cases a) (auto simp: sup_truthful_def)
  next
    case False
    then have "CommandExecutor_ExecuteCommand M (\<lambda>_. run_queue DoProceed DoProceed n (s2, r)) x c = WouldBlock"
      unfolding q by (simp add: Push_def Let_def run_queue_def len)
    with False show ?thesis by simp
  qed
qed

theorem executor_answered_witness:
  "CommandExecutor_ExecuteCommand example_commands
     (\<lambda>_. run_queue DoProceed DoProceed 0 (integ_start, Returned None (integ_accepted []))) example_executor 7 = Proceeds None \<and>
   Some 7 \<in> set (accepted_ids (env_MessageId integ_mem) (mem_hist (journal (integ_accepted []))))"
  using executor_answered [OF integ_mem_laws integ_start_ok(1-3) sup_runs.none integ_start_ok(6) example_opened,
      of 0 example_commands example_executor 7] example_asked example_executed
  by (simp add: integ_mem_fields)

section \<open>The tasks of an engine\<close>

text \<open>
C27: The supervisors that an engine starts cannot run. The configuration gives them journals but
  no set store, so \<open>Run\<close> panics when it opens the set of accepted commands, provided that
  opening a nil store panics as a call of a method of a nil interface does.
\<close>

theorem engine_task_panics:
  assumes "engine_New D (Some app) opts = Ok cfg" and "task \<in> set (Tasks cfg)"
    and "\<forall>n. \<exists>t. hs_OpenSet H None n = Panic t" and "\<forall>js n. \<exists>j. hs_OpenJournal H (Some js) n = Ok j"
  shows "\<exists>t s'. sup_Run_stores I H (sc_Journals task) (sc_Sets task) (id_Key (sc_HandlerIdentity task)) s =
    Some (Panicked t s')"
proof -
  have v: "visited (integrations (app_RichHandlers app)) cfg" and "Journals cfg \<noteq> None"
    using New_visited assms(1) by (simp_all add: engine_New_def)
  then obtain js where js: "Journals cfg = Some js" by blast
  from visited_task [OF v assms(2)] obtain h where
    "h \<in> set (integrations (app_RichHandlers app))" "task_ok (Journals cfg) h task" by blast
  then have "sc_Journals task = Some js" "sc_Sets task = None" by (simp_all add: task_ok_def js)
  moreover obtain j where "hs_OpenJournal H (Some js) (journal_Name (hs_AsString H) (id_Key (sc_HandlerIdentity task))) = Ok j"
    using assms(4) by blast
  moreover obtain t where "hs_OpenSet H None (AcceptedCommandsSet (hs_AsString H) (id_Key (sc_HandlerIdentity task))) = Panic t"
    using assms(3) by blast
  ultimately show ?thesis by (simp add: sup_Run_stores_def op_Open_def OpenAcceptedCommandsSet_def Let_def)
qed

lemma example_task: "0 < length (Tasks example_cfg)"
  using ExecuteCommand_pushes(2) [OF example_engine, of example_commands 5 1] by (cases "Tasks example_cfg") auto

theorem engine_task_panics_witness:
  "\<exists>t s'. sup_Run_stores integ_mem example_stores (sc_Journals (Tasks example_cfg ! 0)) (sc_Sets (Tasks example_cfg ! 0))
     (id_Key (sc_HandlerIdentity (Tasks example_cfg ! 0))) integ_start = Some (Panicked t s')"
  by (rule engine_task_panics [OF example_engine nth_mem [OF example_task]]) (simp_all add: example_stores_def)

end
